theory Spec2Isabelle
  imports Complex_Main "HOL-Library.AList" "HOL-Library.Sublist"
begin

section \<open>The scope model (src/scope/scope.ts)\<close>

text \<open>
  Scope objects are mutable and refer to each other (\<open>parent\<close>, \<open>children\<close>), so they
  live in an explicit store: a list of scope records, a reference being an index into
  it. Tree nodes are references too (indices into the tree store of the later
  sections). The two maps of a Scope are JavaScript \<open>Map\<close>s, which keep insertion
  order: association lists, written with \<open>AList.update\<close> (\<open>Map.set\<close>: an existing
  key keeps its place, a new key goes last) and read with \<open>map_of\<close>.
\<close>

datatype ScopeType = Global | Function | Other

datatype VariableType = VT_var | VT_const | VT_let | VT_global

datatype error = Error string | TypeError

record 'a scope =
  node :: nat
  type :: ScopeType
  parent :: "nat option"
  children :: "(nat \<times> nat) list"
  elements :: "(string \<times> 'a) list"

type_synonym 'a scopes = "'a scope list"

text \<open>
  A reference that points outside the store does not exist in the program; it reads as
  a scope without parent, children and elements.
\<close>

definition no_scope :: "'a scope" where
  "no_scope = \<lparr>node = 0, type = Other, parent = None, children = [], elements = []\<rparr>"

definition scope_at :: "'a scopes \<Rightarrow> nat \<Rightarrow> 'a scope" where
  "scope_at H i = (if i < length H then H ! i else no_scope)"

text \<open>
  The constructor: the new Scope gets the next free reference, and when a parent is
  given the parent's \<open>children\<close> map is set at the opening node. Returns the store and
  the new reference.
\<close>

definition new_Scope :: "'a scopes \<Rightarrow> nat \<Rightarrow> ScopeType \<Rightarrow> nat option \<Rightarrow> 'a scopes \<times> nat" where
  "new_Scope H n t p =
     (let this = length H;
          H1 = H @ [\<lparr>node = n, type = t, parent = p, children = [], elements = []\<rparr>]
      in (case p of
            None \<Rightarrow> (H1, this)
          | Some q \<Rightarrow>
              (H1[q := (scope_at H1 q)\<lparr>children := AList.update n this (children (scope_at H1 q))\<rparr>],
               this)))"

text \<open>
  \<open>get\<close> recurses along the parent references. Nothing in the code bounds that walk,
  so the model is a partial function: the outer \<open>None\<close> is a walk that never returns,
  \<open>Some None\<close> is the result \<open>null\<close>.
\<close>

partial_function (option) get :: "'a scopes \<Rightarrow> nat \<Rightarrow> string \<Rightarrow> 'a option option" where
  "get H this name =
     (case map_of (elements (scope_at H this)) name of
        Some v \<Rightarrow> Some (Some v)
      | None \<Rightarrow>
          (case parent (scope_at H this) of
             Some p \<Rightarrow> get H p name
           | None \<Rightarrow> Some None))"

declare get.simps [code]

text \<open>\<open>findScope\<close>: the while loop, started at \<open>this\<close>; \<open>Some None\<close> is \<open>undefined\<close>.\<close>

partial_function (option) findScope_loop :: "'a scopes \<Rightarrow> nat option \<Rightarrow> ScopeType list \<Rightarrow> nat option option" where
  "findScope_loop H scope types =
     (case scope of
        None \<Rightarrow> Some None
      | Some s \<Rightarrow>
          (if type (scope_at H s) \<notin> set types
           then findScope_loop H (parent (scope_at H s)) types
           else Some (Some s)))"

declare findScope_loop.simps [code]

definition findScope :: "'a scopes \<Rightarrow> nat \<Rightarrow> ScopeType list \<Rightarrow> nat option option" where
  "findScope H this types = findScope_loop H (Some this) types"

definition elements_set :: "'a scopes \<Rightarrow> nat \<Rightarrow> string \<Rightarrow> 'a \<Rightarrow> 'a scopes" where
  "elements_set H s name element =
     H[s := (scope_at H s)\<lparr>elements := AList.update name element (elements (scope_at H s))\<rparr>]"

text \<open>
  \<open>add\<close>. The third argument is optional in the source (\<open>None\<close>: left out, or
  \<open>undefined\<close>), and the parameter's default value \<open>'const'\<close> replaces it before the
  switch runs. The switch has the cases \<open>'const'\<close>, \<open>'let'\<close>, \<open>'var'\<close> and
  \<open>undefined\<close>, and none for \<open>'global'\<close>: a value that matches no case falls out of the
  switch with nothing done.
\<close>

definition add :: "'a scopes \<Rightarrow> nat \<Rightarrow> string \<Rightarrow> 'a \<Rightarrow> VariableType option \<Rightarrow> (error + 'a scopes) option" where
  "add H this name element ty =
     (let type' = (case ty of None \<Rightarrow> Some VT_const | Some t \<Rightarrow> Some t)
      in (case type' of
            Some VT_const \<Rightarrow> Some (Inr (elements_set H this name element))
          | Some VT_let \<Rightarrow> Some (Inr (elements_set H this name element))
          | Some VT_var \<Rightarrow>
              (case findScope H this [Function, Global] of
                 None \<Rightarrow> None
               | Some None \<Rightarrow> Some (Inl (Error (''Failed to find scope for var '' @ name)))
               | Some (Some scope) \<Rightarrow> Some (Inr (elements_set H scope name element)))
          | None \<Rightarrow>
              (case findScope H this [Global] of
                 None \<Rightarrow> None
               | Some None \<Rightarrow> Some (Inl (Error (''Failed to find scope for global var '' @ name)))
               | Some (Some scope) \<Rightarrow> Some (Inr (elements_set H scope name element)))
          | Some VT_global \<Rightarrow> Some (Inr H)))"

definition getDeclarationScope :: "'a scopes \<Rightarrow> nat \<Rightarrow> VariableType \<Rightarrow> (error + nat) option" where
  "getDeclarationScope H this ty =
     (case ty of
        VT_const \<Rightarrow> Some (Inr this)
      | VT_let \<Rightarrow> Some (Inr this)
      | _ \<Rightarrow>
          (let scopeTypes = (if ty = VT_var then [Function, Global] else [Global])
           in (case findScope H this scopeTypes of
                 None \<Rightarrow> None
               | Some None \<Rightarrow>
                   Some (Inl (Error (''Failed to find scope for variable declaration type ''
                     @ (if ty = VT_var then ''var'' else ''global''))))
               | Some (Some scope) \<Rightarrow> Some (Inr scope))))"

text \<open>
  The chain of a Scope: \<open>nth_parent H s k\<close> is the Scope reached from \<open>s\<close> by following
  \<open>parent\<close> \<open>k\<close> times, when there is one.
\<close>

fun nth_parent :: "'a scopes \<Rightarrow> nat \<Rightarrow> nat \<Rightarrow> nat option" where
  "nth_parent H s 0 = Some s"
| "nth_parent H s (Suc k) =
     (case parent (scope_at H s) of None \<Rightarrow> None | Some p \<Rightarrow> nth_parent H p k)"

text \<open>
  Stores built by the constructor only: a Scope's parent was constructed before it.
\<close>

definition wf_scopes :: "'a scopes \<Rightarrow> bool" where
  "wf_scopes H = (\<forall>i<length H. \<forall>p. parent (H ! i) = Some p \<longrightarrow> p < i)"


text \<open>
  \<open>nearest H s P k j\<close>: \<open>j\<close> is the first Scope on the chain of \<open>s\<close> (at distance
  \<open>k\<close>) that satisfies \<open>P\<close>.
\<close>

definition nearest :: "'a scopes \<Rightarrow> nat \<Rightarrow> ('a scope \<Rightarrow> bool) \<Rightarrow> nat \<Rightarrow> nat \<Rightarrow> bool" where
  "nearest H s P k j =
     (nth_parent H s k = Some j \<and> P (scope_at H j) \<and>
      (\<forall>k'<k. \<forall>j'. nth_parent H s k' = Some j' \<longrightarrow> \<not> P (scope_at H j')))"

definition binds :: "string \<Rightarrow> 'a scope \<Rightarrow> bool" where
  "binds name sc = (map_of (elements sc) name \<noteq> None)"

definition has_type :: "ScopeType list \<Rightarrow> 'a scope \<Rightarrow> bool" where
  "has_type types sc = (type sc \<in> set types)"

subsection \<open>Facts about the chain\<close>

lemma nearest_Suc:
  assumes "nearest H s P (Suc k) j" and "parent (scope_at H s) = Some p"
  shows "nearest H p P k j"
  unfolding nearest_def
proof (intro conjI allI impI)
  show "nth_parent H p k = Some j" using assms by (simp add: nearest_def)
  show "P (scope_at H j)" using assms by (simp add: nearest_def)
next
  fix k' j' assume "k' < k" "nth_parent H p k' = Some j'"
  then have "Suc k' < Suc k" "nth_parent H s (Suc k') = Some j'" using assms(2) by auto
  then show "\<not> P (scope_at H j')" using assms(1) unfolding nearest_def by blast
qed

lemma nearest_Suc_parent:
  assumes "nearest H s P (Suc k) j"
  obtains p where "parent (scope_at H s) = Some p" "\<not> P (scope_at H s)"
proof -
  from assms have "nth_parent H s (Suc k) = Some j" by (simp add: nearest_def)
  then obtain p where p: "parent (scope_at H s) = Some p" by (auto split: option.splits)
  from assms have "\<not> P (scope_at H s)" unfolding nearest_def by force
  with p that show ?thesis by blast
qed

lemma nearest_exists:
  assumes "nth_parent H s k = Some j" "P (scope_at H j)"
  shows "\<exists>k' j'. nearest H s P k' j'"
proof -
  define Q where "Q = (\<lambda>n. \<exists>i. nth_parent H s n = Some i \<and> P (scope_at H i))"
  have "Q k" using assms by (auto simp: Q_def)
  then have "Q (LEAST n. Q n)" by (rule LeastI)
  then obtain i where i: "nth_parent H s (LEAST n. Q n) = Some i" "P (scope_at H i)"
    by (auto simp: Q_def)
  have "\<forall>k'<(LEAST n. Q n). \<forall>j'. nth_parent H s k' = Some j' \<longrightarrow> \<not> P (scope_at H j')"
  proof (intro allI impI notI)
    fix k' j' assume "k' < (LEAST n. Q n)" "nth_parent H s k' = Some j'" "P (scope_at H j')"
    then have "Q k'" by (auto simp: Q_def)
    then have "(LEAST n. Q n) \<le> k'" by (rule Least_le)
    with \<open>k' < (LEAST n. Q n)\<close> show False by simp
  qed
  with i show ?thesis unfolding nearest_def by blast
qed

lemma nth_parent_shift:
  "parent (scope_at H s) = Some p \<Longrightarrow> nth_parent H p k = nth_parent H s (Suc k)"
  by simp

lemma wf_chain_ends:
  "wf_scopes H \<Longrightarrow> \<exists>k. nth_parent H s k = None"
proof (induction s rule: less_induct)
  case (less s)
  show ?case
  proof (cases "parent (scope_at H s)")
    case None
    then have "nth_parent H s (Suc 0) = None" by simp
    then show ?thesis by blast
  next
    case (Some p)
    then have "s < length H" by (auto simp: scope_at_def no_scope_def split: if_splits)
    with Some less.prems have "p < s" by (auto simp: wf_scopes_def scope_at_def)
    from less.IH[OF this less.prems] obtain k where "nth_parent H p k = None" by blast
    then have "nth_parent H s (Suc k) = None" using Some by simp
    then show ?thesis by blast
  qed
qed

lemma wf_nth_parent_le:
  "wf_scopes H \<Longrightarrow> s < length H \<Longrightarrow> nth_parent H s k = Some j \<Longrightarrow> j \<le> s"
proof (induction k arbitrary: s)
  case 0
  then show ?case by simp
next
  case (Suc k)
  from Suc.prems(3) obtain p where p: "parent (scope_at H s) = Some p" "nth_parent H p k = Some j"
    by (auto split: option.splits)
  with Suc.prems have "p < s" by (auto simp: wf_scopes_def scope_at_def)
  moreover from this Suc.prems have "p < length H" by simp
  ultimately show ?case using Suc.IH[OF Suc.prems(1) _ p(2)] by simp
qed

subsection \<open>What \<open>findScope\<close> and \<open>get\<close> compute\<close>

lemma findScope_nearest:
  "nearest H s (has_type types) k j \<Longrightarrow> findScope H s types = Some (Some j)"
proof (induction k arbitrary: s)
  case 0
  then show ?case
    unfolding findScope_def
    by (subst findScope_loop.simps) (simp add: nearest_def has_type_def)
next
  case (Suc k)
  from Suc.prems obtain p where p: "parent (scope_at H s) = Some p"
    and ns: "\<not> has_type types (scope_at H s)" by (rule nearest_Suc_parent)
  from Suc.IH[OF nearest_Suc[OF Suc.prems p]] show ?case
    using p ns unfolding findScope_def
    by (subst findScope_loop.simps) (simp add: has_type_def)
qed

lemma findScope_miss:
  "nth_parent H s k = None \<Longrightarrow>
   (\<forall>k' j'. nth_parent H s k' = Some j' \<longrightarrow> \<not> has_type types (scope_at H j')) \<Longrightarrow>
   findScope H s types = Some None"
proof (induction k arbitrary: s)
  case 0
  then show ?case by simp
next
  case (Suc k)
  from Suc.prems(2)[rule_format, of 0 s] have ns: "\<not> has_type types (scope_at H s)" by simp
  show ?case
  proof (cases "parent (scope_at H s)")
    case None
    then show ?thesis using ns unfolding findScope_def
      by (subst findScope_loop.simps)
         (simp add: findScope_loop.simps[of H None] has_type_def)
  next
    case (Some p)
    then have 1: "nth_parent H p k = None" using Suc.prems(1) by simp
    have 2: "\<forall>k' j'. nth_parent H p k' = Some j' \<longrightarrow> \<not> has_type types (scope_at H j')"
      using Suc.prems(2) nth_parent_shift[OF Some] by metis
    from Suc.IH[OF 1 2] show ?thesis using ns Some unfolding findScope_def
      by (subst findScope_loop.simps) (simp add: has_type_def)
  qed
qed

lemma get_nearest:
  "nearest H s (binds name) k j \<Longrightarrow> get H s name = map_option Some (map_of (elements (scope_at H j)) name)"
proof (induction k arbitrary: s)
  case 0
  then show ?case
    by (subst get.simps) (auto simp: nearest_def binds_def)
next
  case (Suc k)
  from Suc.prems obtain p where p: "parent (scope_at H s) = Some p"
    and ns: "\<not> binds name (scope_at H s)" by (rule nearest_Suc_parent)
  from Suc.IH[OF nearest_Suc[OF Suc.prems p]] show ?case
    using p ns by (subst get.simps) (simp add: binds_def)
qed

lemma get_miss:
  "nth_parent H s k = None \<Longrightarrow>
   (\<forall>k' j'. nth_parent H s k' = Some j' \<longrightarrow> \<not> binds name (scope_at H j')) \<Longrightarrow>
   get H s name = Some None"
proof (induction k arbitrary: s)
  case 0
  then show ?case by simp
next
  case (Suc k)
  from Suc.prems(2)[rule_format, of 0 s] have ns: "\<not> binds name (scope_at H s)" by simp
  show ?case
  proof (cases "parent (scope_at H s)")
    case None
    then show ?thesis using ns by (subst get.simps) (simp add: binds_def)
  next
    case (Some p)
    then have 1: "nth_parent H p k = None" using Suc.prems(1) by simp
    have 2: "\<forall>k' j'. nth_parent H p k' = Some j' \<longrightarrow> \<not> binds name (scope_at H j')"
      using Suc.prems(2) nth_parent_shift[OF Some] by metis
    from Suc.IH[OF 1 2] show ?thesis using ns Some
      by (subst get.simps) (simp add: binds_def)
  qed
qed

lemma scope_at_elements_set:
  "scope_at (elements_set H j name v) i =
     (if i = j \<and> j < length H
      then (scope_at H j)\<lparr>elements := AList.update name v (elements (scope_at H j))\<rparr>
      else scope_at H i)"
  by (auto simp: elements_set_def scope_at_def)

lemma length_elements_set: "length (elements_set H j name v) = length H"
  by (simp add: elements_set_def)

lemma get_elements_set_same:
  "j < length H \<Longrightarrow> get (elements_set H j name v) j name = Some (Some v)"
  by (subst get.simps) (simp add: scope_at_elements_set update_conv')


lemma elements_set_placed:
  assumes "j < length H"
  shows "map_of (elements (scope_at (elements_set H j name v) j)) name = Some v"
    and "i \<noteq> j \<Longrightarrow> scope_at (elements_set H j name v) i = scope_at H i"
  using assms by (simp_all add: scope_at_elements_set update_conv')

subsection \<open>Example stores\<close>

text \<open>A root of kind Global with one nested Scope of kind Other, nothing bound.\<close>

definition scopes_G_O :: "nat scopes" where
  "scopes_G_O =
     [\<lparr>node = 0, type = Global, parent = None, children = [(1, 1)], elements = []\<rparr>,
      \<lparr>node = 1, type = Other, parent = Some 0, children = [], elements = []\<rparr>]"

text \<open>A root of kind Function with one nested Scope of kind Other, nothing bound.\<close>

definition scopes_F_O :: "nat scopes" where
  "scopes_F_O =
     [\<lparr>node = 0, type = Function, parent = None, children = [(1, 1)], elements = []\<rparr>,
      \<lparr>node = 1, type = Other, parent = Some 0, children = [], elements = []\<rparr>]"

text \<open>
  Scope 0 (A) binds \<open>x\<close> to 1; its children are scope 1 (B), which binds \<open>x\<close> to 2, and
  scope 2 (a sibling of B), which binds nothing; scope 3 is nested in B and binds
  nothing.
\<close>

definition scopes_shadow :: "nat scopes" where
  "scopes_shadow =
     [\<lparr>node = 0, type = Other, parent = None, children = [(1, 1), (2, 2)], elements = [(''x'', 1)]\<rparr>,
      \<lparr>node = 1, type = Other, parent = Some 0, children = [(3, 3)], elements = [(''x'', 2)]\<rparr>,
      \<lparr>node = 2, type = Other, parent = Some 0, children = [], elements = []\<rparr>,
      \<lparr>node = 3, type = Other, parent = Some 1, children = [], elements = []\<rparr>]"

subsection \<open>Placement by \<open>add\<close>\<close>

text \<open>
  Claim C1, as the code has it. The claim says that \<open>add\<close> with the kind \<open>'global'\<close>
  and \<open>add\<close> with the kind left out both bind in the nearest ancestor of kind Global
  and never in the current Scope. In the code the parameter's default \<open>'const'\<close>
  replaces a kind that is left out, so the binding goes to the current Scope. At the
  store \<open>scopes_G_O\<close>, from the nested Scope 1, whose nearest Global ancestor is Scope
  0: with the kind left out \<open>x\<close> is bound in Scope 1 and Scope 0 stays empty; with the
  kind \<open>'global'\<close> no case of the switch matches and the store is returned unchanged.
\<close>

theorem add_unspecified_counterexample:
  "findScope scopes_G_O 1 [Global] = Some (Some 0) \<and>
   add scopes_G_O 1 ''x'' (7::nat) None = Some (Inr (elements_set scopes_G_O 1 ''x'' 7)) \<and>
   elements (scope_at (elements_set scopes_G_O 1 ''x'' 7) 0) = [] \<and>
   elements (scope_at (elements_set scopes_G_O 1 ''x'' 7) 1) = [(''x'', 7)] \<and>
   add scopes_G_O 1 ''x'' 7 (Some VT_global) = Some (Inr scopes_G_O)"
  by (simp add: add_def scopes_G_O_def elements_set_def scope_at_def findScope_def
      findScope_loop.simps)

text \<open>
  Claim C1, amended: \<open>add\<close> with the kind left out does what \<open>add\<close> with the kind
  \<open>'const'\<close> does: it binds the name in the current Scope, whatever the kinds of the
  Scopes on the chain, changes no other Scope and raises no error.
\<close>

theorem add_unspecified_is_const:
  "add H s name v None = add H s name v (Some VT_const) \<and>
   add H s name v None = Some (Inr (elements_set H s name v)) \<and>
   (s < length H \<longrightarrow>
      map_of (elements (scope_at (elements_set H s name v) s)) name = Some v \<and>
      (\<forall>i. i \<noteq> s \<longrightarrow> scope_at (elements_set H s name v) i = scope_at H i))"
  by (simp add: add_def elements_set_placed)

theorem add_unspecified_is_const_witness:
  "(1::nat) < length scopes_G_O \<and>
   add scopes_G_O 1 ''x'' (7::nat) None = add scopes_G_O 1 ''x'' 7 (Some VT_const) \<and>
   map_of (elements (scope_at (elements_set scopes_G_O 1 ''x'' 7) 1)) ''x'' = Some 7 \<and>
   scope_at (elements_set scopes_G_O 1 ''x'' 7) 0 = scope_at scopes_G_O 0"
proof -
  have len: "(1::nat) < length scopes_G_O" by (simp add: scopes_G_O_def)
  from add_unspecified_is_const[of scopes_G_O 1 "''x''" 7] len show ?thesis by simp
qed

text \<open>
  Claim C6: in a store built by the constructor, \<open>add\<close> with the kind \<open>'var'\<close> raises
  the error exactly when no Scope on the chain from the current Scope to the root has
  kind Function or Global; when one has, the call returns without an error and the
  name is bound in the nearest such Scope, every other Scope staying as it was.
\<close>

theorem add_var_raises_iff:
  assumes "wf_scopes H" and "s < length H"
  shows "((\<exists>msg. add H s name v (Some VT_var) = Some (Inl (Error msg))) \<longleftrightarrow>
            \<not> (\<exists>k j. nth_parent H s k = Some j \<and> type (scope_at H j) \<in> {Function, Global}))
       \<and> (\<forall>k j. nearest H s (has_type [Function, Global]) k j \<longrightarrow>
              (\<exists>H'. add H s name v (Some VT_var) = Some (Inr H') \<and>
                    map_of (elements (scope_at H' j)) name = Some v \<and>
                    (\<forall>i. i \<noteq> j \<longrightarrow> scope_at H' i = scope_at H i)))"
proof -
  have found: "add H s name v (Some VT_var) = Some (Inr (elements_set H j name v))"
    if "nearest H s (has_type [Function, Global]) k j" for k j
    using findScope_nearest[OF that] by (simp add: add_def)
  have placed: "\<exists>H'. add H s name v (Some VT_var) = Some (Inr H') \<and>
                    map_of (elements (scope_at H' j)) name = Some v \<and>
                    (\<forall>i. i \<noteq> j \<longrightarrow> scope_at H' i = scope_at H i)"
    if n: "nearest H s (has_type [Function, Global]) k j" for k j
  proof -
    from n have "nth_parent H s k = Some j" by (simp add: nearest_def)
    from wf_nth_parent_le[OF assms this] assms(2) have "j < length H" by simp
    with found[OF n] show ?thesis by (simp add: elements_set_placed)
  qed
  have "(\<exists>msg. add H s name v (Some VT_var) = Some (Inl (Error msg))) \<longleftrightarrow>
            \<not> (\<exists>k j. nth_parent H s k = Some j \<and> type (scope_at H j) \<in> {Function, Global})"
  proof (cases "\<exists>k j. nth_parent H s k = Some j \<and> type (scope_at H j) \<in> {Function, Global}")
    case True
    then obtain k j where "nth_parent H s k = Some j" "has_type [Function, Global] (scope_at H j)"
      by (auto simp: has_type_def)
    from nearest_exists[of H s k j "has_type [Function, Global]", OF this]
    obtain k' j' where "nearest H s (has_type [Function, Global]) k' j'"
      by blast
    from found[OF this] True show ?thesis by simp
  next
    case False
    from wf_chain_ends[OF assms(1)] obtain k where k: "nth_parent H s k = None" by blast
    have "\<forall>k' j'. nth_parent H s k' = Some j' \<longrightarrow> \<not> has_type [Function, Global] (scope_at H j')"
      using False by (auto simp: has_type_def)
    from findScope_miss[OF k this] False show ?thesis by (simp add: add_def)
  qed
  with placed show ?thesis by blast
qed

theorem add_var_raises_iff_witness:
  "wf_scopes scopes_F_O \<and> 1 < length scopes_F_O \<and>
   nearest scopes_F_O 1 (has_type [Function, Global]) 1 0 \<and>
   (\<exists>H'. add scopes_F_O 1 ''x'' (7::nat) (Some VT_var) = Some (Inr H') \<and>
         map_of (elements (scope_at H' 0)) ''x'' = Some 7 \<and>
         (\<forall>i. i \<noteq> 0 \<longrightarrow> scope_at H' i = scope_at scopes_F_O i))"
proof -
  have wf: "wf_scopes scopes_F_O"
    by (simp add: scopes_F_O_def wf_scopes_def All_less_Suc)
  have len: "1 < length scopes_F_O" by (simp add: scopes_F_O_def)
  have near: "nearest scopes_F_O 1 (has_type [Function, Global]) 1 0"
    by (simp add: scopes_F_O_def nearest_def has_type_def scope_at_def)
  from add_var_raises_iff[OF wf len, of "''x''" 7] near wf len show ?thesis by blast
qed

subsection \<open>Lookup by \<open>get\<close>\<close>

text \<open>
  Claim C7: \<open>get\<close> is a function of the store and returns no store, so it changes
  nothing. In a store built by the constructor it always returns: the value bound in
  the nearest Scope of the chain (the current Scope first) that binds the name, and
  \<open>null\<close> when no Scope up to the root binds it. So with a Scope A binding \<open>x\<close> to
  \<open>v1\<close> and a Scope B below A binding \<open>x\<close> to \<open>v2\<close>: \<open>get\<close> in B yields \<open>v2\<close>, as it
  does in every Scope D below B whose nearest binding of \<open>x\<close> is B's, and it yields
  \<open>v1\<close> in a Scope S (a sibling of B under A) whose nearest binding of \<open>x\<close> is A's.
\<close>

theorem get_nearest_binding:
  assumes "wf_scopes H"
  shows "(\<exists>r. get H s name = Some r)
       \<and> (\<forall>k j v. nearest H s (binds name) k j \<and> map_of (elements (scope_at H j)) name = Some v \<longrightarrow>
              get H s name = Some (Some v))
       \<and> ((\<forall>k j. nth_parent H s k = Some j \<longrightarrow> \<not> binds name (scope_at H j)) \<longrightarrow>
              get H s name = Some None)
       \<and> (\<forall>A B kA v1 v2.
              nth_parent H B (Suc kA) = Some A \<and>
              map_of (elements (scope_at H A)) name = Some v1 \<and>
              map_of (elements (scope_at H B)) name = Some v2 \<longrightarrow>
                get H B name = Some (Some v2) \<and>
                (\<forall>D kD. nearest H D (binds name) kD B \<longrightarrow> get H D name = Some (Some v2)) \<and>
                (\<forall>S kS. nearest H S (binds name) kS A \<longrightarrow> get H S name = Some (Some v1)))"
proof -
  have hit: "get H s' name = Some (Some v)"
    if "nearest H s' (binds name) k j" "map_of (elements (scope_at H j)) name = Some v"
    for s' k j v
    using get_nearest[OF that(1)] that(2) by simp
  have miss: "get H s name = Some None"
    if "\<forall>k j. nth_parent H s k = Some j \<longrightarrow> \<not> binds name (scope_at H j)"
  proof -
    from wf_chain_ends[OF assms] obtain k where "nth_parent H s k = None" by blast
    from get_miss[OF this that] show ?thesis .
  qed
  have returns: "\<exists>r. get H s name = Some r"
  proof (cases "\<exists>k j. nth_parent H s k = Some j \<and> binds name (scope_at H j)")
    case True
    then obtain k j where "nth_parent H s k = Some j" "binds name (scope_at H j)" by blast
    from nearest_exists[of H s k j "binds name", OF this]
    obtain k' j' where "nearest H s (binds name) k' j'" by blast
    from get_nearest[OF this] show ?thesis
      using \<open>nearest H s (binds name) k' j'\<close> by (auto simp: nearest_def binds_def)
  next
    case False
    then show ?thesis using miss by blast
  qed
  have own: "get H B name = Some (Some v2)"
    if "map_of (elements (scope_at H B)) name = Some v2" for B v2
    using that by (subst get.simps) simp
  from returns hit miss own show ?thesis by blast
qed

theorem get_nearest_binding_witness:
  "wf_scopes scopes_shadow \<and>
   nth_parent scopes_shadow 1 (Suc 0) = Some 0 \<and>
   nearest scopes_shadow 3 (binds ''x'') 1 1 \<and>
   nearest scopes_shadow 2 (binds ''x'') 1 0 \<and>
   get scopes_shadow 1 ''x'' = Some (Some 2) \<and>
   get scopes_shadow 3 ''x'' = Some (Some 2) \<and>
   get scopes_shadow 2 ''x'' = Some (Some 1) \<and>
   get scopes_shadow 3 ''y'' = Some None"
proof -
  have wf: "wf_scopes scopes_shadow"
    by (simp add: scopes_shadow_def wf_scopes_def All_less_Suc)
  have A: "nth_parent scopes_shadow 1 (Suc 0) = Some 0"
    by (simp add: scopes_shadow_def scope_at_def)
  have vA: "map_of (elements (scope_at scopes_shadow 0)) ''x'' = Some 1"
    and vB: "map_of (elements (scope_at scopes_shadow 1)) ''x'' = Some 2"
    by (simp_all add: scopes_shadow_def scope_at_def)
  have D: "nearest scopes_shadow 3 (binds ''x'') 1 1"
    by (simp add: scopes_shadow_def nearest_def binds_def scope_at_def)
  have S: "nearest scopes_shadow 2 (binds ''x'') 1 0"
    by (simp add: scopes_shadow_def nearest_def binds_def scope_at_def)
  have "\<not> binds ''y'' (scope_at scopes_shadow j)" for j
    by (auto simp: scopes_shadow_def binds_def scope_at_def no_scope_def less_Suc_eq)
  then have no_y: "\<forall>k j. nth_parent scopes_shadow 3 k = Some j \<longrightarrow> \<not> binds ''y'' (scope_at scopes_shadow j)"
    by blast
  note T = get_nearest_binding[OF wf]
  from T[of 1 "''x''"] A vA vB D S
  have "get scopes_shadow 1 ''x'' = Some (Some 2)"
    "get scopes_shadow 3 ''x'' = Some (Some 2)"
    "get scopes_shadow 2 ''x'' = Some (Some 1)"
    by blast+
  moreover from T[of 3 "''y''"] no_y have "get scopes_shadow 3 ''y'' = Some None" by blast
  ultimately show ?thesis using wf A D S by simp
qed


section \<open>The program tree\<close>

text \<open>
  A tree node is a Shift AST object: its \<open>type\<close> tag and its named fields. A field holds
  a child node, an ordered sequence of children (with \<open>null\<close> entries, the holes of an
  array expression), a string, a number, a boolean or \<open>null\<close>. Nodes are mutable and
  shared by reference (a Scope's \<open>node\<close>, a descriptor's elements, the seen-set), so
  they live in a store: a list of nodes, a reference being an index into it.
  The value of a numeric literal is a finite double; every such value is a rational
  number, and the code reads it only to index an array.
\<close>

datatype fval = FNull | FNode nat | FList "nat option list" | FStr string | FNum rat | FBool bool

record ast_node =
  ntype :: string
  nfields :: "(string \<times> fval) list"

type_synonym ast = "ast_node list"

text \<open>A reference outside the store does not exist in the program; it reads as an
  object with no tag and no fields.\<close>

definition node_at :: "ast \<Rightarrow> nat \<Rightarrow> ast_node" where
  "node_at A n = (if n < length A then A ! n else \<lparr>ntype = [], nfields = []\<rparr>)"

text \<open>Reading a property; one that is not there reads as \<open>undefined\<close>, here \<open>FNull\<close>.\<close>

definition field :: "ast_node \<Rightarrow> string \<Rightarrow> fval" where
  "field nd k = (case map_of (nfields nd) k of None \<Rightarrow> FNull | Some v \<Rightarrow> v)"

text \<open>\<open>x.type\<close> for the value \<open>x\<close> of a field that holds a node.\<close>

definition type_of :: "ast \<Rightarrow> fval \<Rightarrow> string" where
  "type_of A v = (case v of FNode c \<Rightarrow> ntype (node_at A c) | _ \<Rightarrow> [])"

fun fval_children :: "fval \<Rightarrow> nat list" where
  "fval_children (FNode c) = [c]"
| "fval_children (FList cs) = List.map_filter id cs"
| "fval_children _ = []"

text \<open>The children of a node, in the order of its fields.\<close>

definition children_of :: "ast \<Rightarrow> nat \<Rightarrow> nat list" where
  "children_of A n = concat (map (fval_children \<circ> snd) (nfields (node_at A n)))"

subsection \<open>The two shape tests of the pass (src/modifications/arrays/arrayUnpacker.ts)\<close>

definition scopeTypes :: "string set" where
  "scopeTypes = {''Block'', ''FunctionBody''}"

definition init_elements :: "ast \<Rightarrow> nat \<Rightarrow> nat option list" where
  "init_elements A n =
     (case field (node_at A n) ''init'' of
        FNode i \<Rightarrow> (case field (node_at A i) ''elements'' of FList es \<Rightarrow> es | _ \<Rightarrow> [])
      | _ \<Rightarrow> [])"

definition isLiteralArrayDeclaration :: "ast \<Rightarrow> nat \<Rightarrow> bool" where
  "isLiteralArrayDeclaration A n =
     (ntype (node_at A n) = ''VariableDeclarator'' \<and>
      type_of A (field (node_at A n) ''binding'') = ''BindingIdentifier'' \<and>
      field (node_at A n) ''init'' \<noteq> FNull \<and>
      type_of A (field (node_at A n) ''init'') = ''ArrayExpression'' \<and>
      find (\<lambda>e. case e of None \<Rightarrow> False
                 | Some e' \<Rightarrow> \<not> prefix ''Literal'' (ntype (node_at A e')))
           (init_elements A n) = None)"

definition isSimpleArrayAccess :: "ast \<Rightarrow> nat \<Rightarrow> bool" where
  "isSimpleArrayAccess A n =
     (ntype (node_at A n) = ''ComputedMemberExpression'' \<and>
      type_of A (field (node_at A n) ''object'') = ''IdentifierExpression'' \<and>
      type_of A (field (node_at A n) ''expression'') = ''LiteralNumericExpression'')"

text \<open>\<open>node.binding.name\<close>, \<open>node.object.name\<close> and \<open>node.expression.value\<close>.\<close>

definition child_name :: "ast \<Rightarrow> nat \<Rightarrow> string \<Rightarrow> string" where
  "child_name A n k =
     (case field (node_at A n) k of
        FNode c \<Rightarrow> (case field (node_at A c) ''name'' of FStr x \<Rightarrow> x | _ \<Rightarrow> [])
      | _ \<Rightarrow> [])"

definition expression_value :: "ast \<Rightarrow> nat \<Rightarrow> rat" where
  "expression_value A n =
     (case field (node_at A n) ''expression'' of
        FNode c \<Rightarrow> (case field (node_at A c) ''value'' of FNum q \<Rightarrow> q | _ \<Rightarrow> 0)
      | _ \<Rightarrow> 0)"

text \<open>
  \<open>elements[index]\<close> for a number \<open>index\<close>: the entry when the number is a whole
  number below the length, \<open>undefined\<close> otherwise. An entry can itself be \<open>null\<close> (a
  hole); both read as \<open>None\<close>, and both are falsy in the test that follows.
\<close>

definition js_index :: "nat option list \<Rightarrow> rat \<Rightarrow> nat option" where
  "js_index es q =
     (if 0 \<le> q \<and> of_int \<lfloor>q\<rfloor> = q \<and> nat \<lfloor>q\<rfloor> < length es then es ! nat \<lfloor>q\<rfloor> else None)"

subsection \<open>The helpers the pass calls\<close>

text \<open>
  Modelled from the spec: the class \<open>Array\<close> (src/modifications/arrays/array.ts is not
  among the sources). The descriptor holds the originating declaration node, its
  owning parent node, the bound name, the ordered sequence of literal elements and a
  usage counter that starts at zero. Descriptors are objects that Scopes refer to, so
  they live in a store of their own.
\<close>

record Array =
  array_node :: nat
  parentNode :: "nat option"
  array_name :: string
  array_elements :: "nat option list"
  replaceCount :: nat

definition new_Array :: "nat \<Rightarrow> nat option \<Rightarrow> string \<Rightarrow> nat option list \<Rightarrow> Array" where
  "new_Array n p x es =
     \<lparr>array_node = n, parentNode = p, array_name = x, array_elements = es, replaceCount = 0\<rparr>"

definition array_at :: "Array list \<Rightarrow> nat \<Rightarrow> Array" where
  "array_at D a = (if a < length D then D ! a else new_Array 0 None [] [])"

text \<open>
  Modelled from the spec: \<open>TraversalHelper.replaceNode(parent, oldNode, newNode)\<close>
  (src/helpers/traversalHelper.ts is not among the sources) swaps \<open>newNode\<close> into the
  exact slot \<open>oldNode\<close> occupied in \<open>parent\<close>: a field, or a position in an ordered
  child sequence. The first such slot in field order is taken; a parent that does not
  hold \<open>oldNode\<close> is left as it is.
\<close>

fun replace_in_list :: "nat \<Rightarrow> nat \<Rightarrow> nat option list \<Rightarrow> nat option list option" where
  "replace_in_list old new [] = None"
| "replace_in_list old new (c # cs) =
     (if c = Some old then Some (Some new # cs)
      else map_option ((#) c) (replace_in_list old new cs))"

fun replace_in_fields :: "nat \<Rightarrow> nat \<Rightarrow> (string \<times> fval) list \<Rightarrow> (string \<times> fval) list option" where
  "replace_in_fields old new [] = None"
| "replace_in_fields old new ((k, v) # fs) =
     (case (case v of
              FNode c \<Rightarrow> (if c = old then Some (FNode new) else None)
            | FList cs \<Rightarrow> map_option FList (replace_in_list old new cs)
            | _ \<Rightarrow> None) of
        Some v' \<Rightarrow> Some ((k, v') # fs)
      | None \<Rightarrow> map_option ((#) (k, v)) (replace_in_fields old new fs))"

definition replaceNode :: "ast \<Rightarrow> nat \<Rightarrow> nat \<Rightarrow> nat \<Rightarrow> ast" where
  "replaceNode A p old new =
     (case replace_in_fields old new (nfields (node_at A p)) of
        None \<Rightarrow> A
      | Some fs \<Rightarrow> A[p := (node_at A p)\<lparr>nfields := fs\<rparr>])"

text \<open>
  Modelled from the spec: \<open>TraversalHelper.removeNode(parent, node)\<close> removes the
  node's slot from \<open>parent\<close>, splicing it out of an ordered sequence or clearing the
  field that holds it. The first such slot in field order is taken; a parent that does
  not hold the node is left as it is.
\<close>

fun remove_in_list :: "nat \<Rightarrow> nat option list \<Rightarrow> nat option list option" where
  "remove_in_list old [] = None"
| "remove_in_list old (c # cs) =
     (if c = Some old then Some cs else map_option ((#) c) (remove_in_list old cs))"

fun remove_in_fields :: "nat \<Rightarrow> (string \<times> fval) list \<Rightarrow> (string \<times> fval) list option" where
  "remove_in_fields old [] = None"
| "remove_in_fields old ((k, v) # fs) =
     (case (case v of
              FNode c \<Rightarrow> (if c = old then Some FNull else None)
            | FList cs \<Rightarrow> map_option FList (remove_in_list old cs)
            | _ \<Rightarrow> None) of
        Some v' \<Rightarrow> Some ((k, v') # fs)
      | None \<Rightarrow> map_option ((#) (k, v)) (remove_in_fields old fs))"

definition removeNode :: "ast \<Rightarrow> nat \<Rightarrow> nat \<Rightarrow> ast" where
  "removeNode A p old =
     (case remove_in_fields old (nfields (node_at A p)) of
        None \<Rightarrow> A
      | Some fs \<Rightarrow> A[p := (node_at A p)\<lparr>nfields := fs\<rparr>])"

text \<open>
  Modelled from the spec: \<open>traverse(root, visitor)\<close> (src/helpers/traverse.ts is not
  among the sources) walks every node reachable from the root depth first, calling
  \<open>enter(node, parent)\<close> before the node's children and \<open>leave(node)\<close> after them, the
  children in the tree's structural order, as they stand when the walk descends into
  the node (after \<open>enter\<close>). The root has no parent. A callback that raises ends the
  walk. Nothing bounds the depth of the walk from within, so the model takes fuel: the
  outer \<open>None\<close> is a walk that ran out of it.
\<close>

record 's visitor =
  enter :: "nat \<Rightarrow> nat option \<Rightarrow> 's \<Rightarrow> (error + 's) option"
  leave :: "nat \<Rightarrow> 's \<Rightarrow> (error + 's) option"

fun traverse_node :: "nat \<Rightarrow> ('s \<Rightarrow> ast) \<Rightarrow> 's visitor \<Rightarrow> nat \<Rightarrow> nat option \<Rightarrow> 's \<Rightarrow> (error + 's) option"
  and traverse_list :: "nat \<Rightarrow> ('s \<Rightarrow> ast) \<Rightarrow> 's visitor \<Rightarrow> nat list \<Rightarrow> nat \<Rightarrow> 's \<Rightarrow> (error + 's) option"
where
  "traverse_node 0 tree v n p s = None"
| "traverse_node (Suc f) tree v n p s =
     (case enter v n p s of
        None \<Rightarrow> None
      | Some (Inl e) \<Rightarrow> Some (Inl e)
      | Some (Inr s1) \<Rightarrow>
          (case traverse_list f tree v (children_of (tree s1) n) n s1 of
             None \<Rightarrow> None
           | Some (Inl e) \<Rightarrow> Some (Inl e)
           | Some (Inr s2) \<Rightarrow> leave v n s2))"
| "traverse_list f tree v [] p s = Some (Inr s)"
| "traverse_list f tree v (c # cs) p s =
     (case traverse_node f tree v c (Some p) s of
        None \<Rightarrow> None
      | Some (Inl e) \<Rightarrow> Some (Inl e)
      | Some (Inr s1) \<Rightarrow> traverse_list f tree v cs p s1)"

definition traverse :: "nat \<Rightarrow> ('s \<Rightarrow> ast) \<Rightarrow> nat \<Rightarrow> 's visitor \<Rightarrow> 's \<Rightarrow> (error + 's) option" where
  "traverse f tree rt v s = traverse_node f tree v rt None s"


section \<open>The literal-array pass (src/modifications/arrays/arrayUnpacker.ts)\<close>

text \<open>
  The pass object, with the three stores its references point into: the tree
  (\<open>nodes\<close>), the Scopes and the descriptors. \<open>ast\<close> is the reference of the root
  node, \<open>globalScope\<close> the reference of the root Scope; a Scope binds names to
  descriptor references.
\<close>

record ArrayUnpacker =
  nodes :: ast
  scopeStore :: "nat scopes"
  arrayStore :: "Array list"
  ast :: nat
  shouldRemoveArrays :: bool
  globalScope :: nat
  arrayNodes :: "nat set"

definition new_ArrayUnpacker :: "ast \<Rightarrow> nat \<Rightarrow> bool \<Rightarrow> ArrayUnpacker" where
  "new_ArrayUnpacker A rt rm =
     (let (H, g) = new_Scope [] rt Other None
      in \<lparr>nodes = A, scopeStore = H, arrayStore = [], ast = rt,
          shouldRemoveArrays = rm, globalScope = g, arrayNodes = {}\<rparr>)"

subsection \<open>\<open>findArrays\<close>\<close>

text \<open>The pass object and the two variables the callbacks of \<open>findArrays\<close> close over.\<close>

record find_locals =
  fthis :: ArrayUnpacker
  fscope :: nat
  foundArrays :: bool

definition find_enter :: "nat \<Rightarrow> nat option \<Rightarrow> find_locals \<Rightarrow> (error + find_locals) option" where
  "find_enter n p l =
     (let self = fthis l in
      if ntype (node_at (nodes self) n) \<in> scopeTypes then
        (let (H, sc) = new_Scope (scopeStore self) n Other (Some (fscope l))
         in Some (Inr (l\<lparr>fthis := self\<lparr>scopeStore := H\<rparr>, fscope := sc\<rparr>)))
      else if isLiteralArrayDeclaration (nodes self) n \<and> n \<notin> arrayNodes self then
        (let name = child_name (nodes self) n ''binding'';
             elems = init_elements (nodes self) n;
             array = length (arrayStore self);
             D = arrayStore self @ [new_Array n p name elems]
         in (case add (scopeStore self) (fscope l) name array None of
               None \<Rightarrow> None
             | Some (Inl e) \<Rightarrow> Some (Inl e)
             | Some (Inr H) \<Rightarrow>
                 Some (Inr (l\<lparr>fthis := self\<lparr>scopeStore := H, arrayStore := D,
                                              arrayNodes := insert n (arrayNodes self)\<rparr>,
                              foundArrays := True\<rparr>))))
      else Some (Inr l))"

definition find_leave :: "nat \<Rightarrow> find_locals \<Rightarrow> (error + find_locals) option" where
  "find_leave n l =
     (let sc = scope_at (scopeStore (fthis l)) (fscope l) in
      (case parent sc of
         Some q \<Rightarrow> if n = node sc then Some (Inr (l\<lparr>fscope := q\<rparr>)) else Some (Inr l)
       | None \<Rightarrow> Some (Inr l)))"

definition findArrays :: "nat \<Rightarrow> ArrayUnpacker \<Rightarrow> (error + bool \<times> ArrayUnpacker) option" where
  "findArrays f self =
     (case traverse f (nodes \<circ> fthis) (ast self) \<lparr>enter = find_enter, leave = find_leave\<rparr>
             \<lparr>fthis = self, fscope = globalScope self, foundArrays = False\<rparr> of
        None \<Rightarrow> None
      | Some (Inl e) \<Rightarrow> Some (Inl e)
      | Some (Inr l) \<Rightarrow> Some (Inr (foundArrays l, fthis l)))"

subsection \<open>\<open>unpackArrays\<close>\<close>

text \<open>
  The variable \<open>scope\<close> of \<open>unpackArrays\<close> is assigned \<open>scope.children.get(node)\<close>,
  which is \<open>undefined\<close> (\<open>None\<close>) when the Scope has no child at the node; reading a
  property of \<open>undefined\<close> raises a TypeError.
\<close>

record unpack_locals =
  uthis :: ArrayUnpacker
  uscope :: "nat option"

definition unpack_enter :: "nat \<Rightarrow> nat option \<Rightarrow> unpack_locals \<Rightarrow> (error + unpack_locals) option" where
  "unpack_enter n p l =
     (let self = uthis l in
      if ntype (node_at (nodes self) n) \<in> scopeTypes then
        (case uscope l of
           None \<Rightarrow> Some (Inl TypeError)
         | Some sc \<Rightarrow> Some (Inr (l\<lparr>uscope := map_of (children (scope_at (scopeStore self) sc)) n\<rparr>)))
      else if isSimpleArrayAccess (nodes self) n then
        (case uscope l of
           None \<Rightarrow> Some (Inl TypeError)
         | Some sc \<Rightarrow>
             (case get (scopeStore self) sc (child_name (nodes self) n ''object'') of
                None \<Rightarrow> None
              | Some None \<Rightarrow> Some (Inr l)
              | Some (Some array) \<Rightarrow>
                  (let index = expression_value (nodes self) n;
                       replacement = js_index (array_elements (array_at (arrayStore self) array)) index
                   in (case replacement of
                         None \<Rightarrow> Some (Inr l)
                       | Some r \<Rightarrow>
                           (let D = (arrayStore self)[array := (array_at (arrayStore self) array)
                                      \<lparr>replaceCount := Suc (replaceCount (array_at (arrayStore self) array))\<rparr>]
                            in (case p of
                                  None \<Rightarrow> Some (Inl TypeError)
                                | Some q \<Rightarrow>
                                    Some (Inr (l\<lparr>uthis := self\<lparr>arrayStore := D,
                                                   nodes := replaceNode (nodes self) q n r\<rparr>\<rparr>))))))))
      else Some (Inr l))"

definition unpack_leave :: "nat \<Rightarrow> unpack_locals \<Rightarrow> (error + unpack_locals) option" where
  "unpack_leave n l =
     (case uscope l of
        None \<Rightarrow> Some (Inl TypeError)
      | Some s \<Rightarrow>
          (let sc = scope_at (scopeStore (uthis l)) s in
           (case parent sc of
              Some q \<Rightarrow> if n = node sc then Some (Inr (l\<lparr>uscope := Some q\<rparr>)) else Some (Inr l)
            | None \<Rightarrow> Some (Inr l))))"

definition unpackArrays :: "nat \<Rightarrow> ArrayUnpacker \<Rightarrow> (error + ArrayUnpacker) option" where
  "unpackArrays f self =
     (case traverse f (nodes \<circ> uthis) (ast self) \<lparr>enter = unpack_enter, leave = unpack_leave\<rparr>
             \<lparr>uthis = self, uscope = Some (globalScope self)\<rparr> of
        None \<Rightarrow> None
      | Some (Inl e) \<Rightarrow> Some (Inl e)
      | Some (Inr l) \<Rightarrow> Some (Inr (uthis l)))"

subsection \<open>\<open>removeArrays\<close> and \<open>execute\<close>\<close>

text \<open>The first loop of \<open>removeArrays\<close>, over the descriptors bound in one Scope.\<close>

fun remove_elements :: "nat list \<Rightarrow> ArrayUnpacker \<Rightarrow> error + ArrayUnpacker" where
  "remove_elements [] self = Inr self"
| "remove_elements (array # as) self =
     (if replaceCount (array_at (arrayStore self) array) > 0 then
        (case parentNode (array_at (arrayStore self) array) of
           None \<Rightarrow> Inl TypeError
         | Some q \<Rightarrow>
             remove_elements as
               (self\<lparr>nodes := removeNode (nodes self) q (array_node (array_at (arrayStore self) array))\<rparr>))
      else remove_elements as self)"

text \<open>
  \<open>removeArrays\<close> recurses over the children of a Scope; nothing bounds that
  recursion from within, so it takes fuel as the tree walk does.
\<close>

fun removeArrays :: "nat \<Rightarrow> ArrayUnpacker \<Rightarrow> nat \<Rightarrow> (error + ArrayUnpacker) option"
  and removeArrays_children :: "nat \<Rightarrow> ArrayUnpacker \<Rightarrow> nat list \<Rightarrow> (error + ArrayUnpacker) option"
where
  "removeArrays 0 self sc = None"
| "removeArrays (Suc f) self sc =
     (case remove_elements (map snd (elements (scope_at (scopeStore self) sc))) self of
        Inl e \<Rightarrow> Some (Inl e)
      | Inr s1 \<Rightarrow> removeArrays_children f s1 (map snd (children (scope_at (scopeStore self) sc))))"
| "removeArrays_children f self [] = Some (Inr self)"
| "removeArrays_children f self (c # cs) =
     (case removeArrays f self c of
        None \<Rightarrow> None
      | Some (Inl e) \<Rightarrow> Some (Inl e)
      | Some (Inr s1) \<Rightarrow> removeArrays_children f s1 cs)"

text \<open>
  The loop of \<open>execute\<close>: \<open>while (this.findArrays()) this.unpackArrays()\<close>. The first
  argument bounds the number of rounds, the second is the fuel of each tree walk;
  \<open>None\<close> is a run that did not come to its end within them.
\<close>

fun execute_loop :: "nat \<Rightarrow> nat \<Rightarrow> ArrayUnpacker \<Rightarrow> (error + ArrayUnpacker) option" where
  "execute_loop 0 f self = None"
| "execute_loop (Suc r) f self =
     (case findArrays f self of
        None \<Rightarrow> None
      | Some (Inl e) \<Rightarrow> Some (Inl e)
      | Some (Inr (found, s1)) \<Rightarrow>
          (if found then
             (case unpackArrays f s1 of
                None \<Rightarrow> None
              | Some (Inl e) \<Rightarrow> Some (Inl e)
              | Some (Inr s2) \<Rightarrow> execute_loop r f s2)
           else Some (Inr s1)))"

definition execute :: "nat \<Rightarrow> nat \<Rightarrow> ArrayUnpacker \<Rightarrow> (error + ArrayUnpacker) option" where
  "execute r f self =
     (case execute_loop r f self of
        None \<Rightarrow> None
      | Some (Inl e) \<Rightarrow> Some (Inl e)
      | Some (Inr s1) \<Rightarrow>
          (if shouldRemoveArrays s1 then removeArrays f s1 (globalScope s1) else Some (Inr s1)))"


section \<open>Example trees\<close>

definition mk :: "string \<Rightarrow> (string \<times> fval) list \<Rightarrow> ast_node" where
  "mk t fs = \<lparr>ntype = t, nfields = fs\<rparr>"

definition num :: "rat \<Rightarrow> ast_node" where
  "num q = mk ''LiteralNumericExpression'' [(''value'', FNum q)]"

text \<open>\<^verbatim>\<open>const a = [1, 2]; a[5];\<close>\<close>

definition tree_out_of_range :: ast where
  "tree_out_of_range =
     [mk ''Script'' [(''directives'', FList []), (''statements'', FList [Some 1, Some 8])],
      mk ''VariableDeclarationStatement'' [(''declaration'', FNode 2)],
      mk ''VariableDeclaration'' [(''kind'', FStr ''const''), (''declarators'', FList [Some 3])],
      mk ''VariableDeclarator'' [(''binding'', FNode 4), (''init'', FNode 5)],
      mk ''BindingIdentifier'' [(''name'', FStr ''a'')],
      mk ''ArrayExpression'' [(''elements'', FList [Some 6, Some 7])],
      num 1,
      num 2,
      mk ''ExpressionStatement'' [(''expression'', FNode 9)],
      mk ''ComputedMemberExpression'' [(''object'', FNode 10), (''expression'', FNode 11)],
      mk ''IdentifierExpression'' [(''name'', FStr ''a'')],
      num 5]"

text \<open>The pass object on that tree after the first \<open>findArrays\<close>.\<close>

definition found_out_of_range :: ArrayUnpacker where
  "found_out_of_range =
     \<lparr>nodes = tree_out_of_range,
      scopeStore = [\<lparr>node = 0, type = Other, parent = None, children = [], elements = [(''a'', 0)]\<rparr>],
      arrayStore = [new_Array 3 (Some 2) ''a'' [Some 6, Some 7]],
      ast = 0, shouldRemoveArrays = True, globalScope = 0, arrayNodes = {3}\<rparr>"

text \<open>\<^verbatim>\<open>const a = [1, , 3]; a[1];\<close>\<close>

definition tree_hole :: ast where
  "tree_hole =
     [mk ''Script'' [(''directives'', FList []), (''statements'', FList [Some 1, Some 8])],
      mk ''VariableDeclarationStatement'' [(''declaration'', FNode 2)],
      mk ''VariableDeclaration'' [(''kind'', FStr ''const''), (''declarators'', FList [Some 3])],
      mk ''VariableDeclarator'' [(''binding'', FNode 4), (''init'', FNode 5)],
      mk ''BindingIdentifier'' [(''name'', FStr ''a'')],
      mk ''ArrayExpression'' [(''elements'', FList [Some 6, None, Some 7])],
      num 1,
      num 3,
      mk ''ExpressionStatement'' [(''expression'', FNode 9)],
      mk ''ComputedMemberExpression'' [(''object'', FNode 10), (''expression'', FNode 11)],
      mk ''IdentifierExpression'' [(''name'', FStr ''a'')],
      num 1]"

definition found_hole :: ArrayUnpacker where
  "found_hole =
     \<lparr>nodes = tree_hole,
      scopeStore = [\<lparr>node = 0, type = Other, parent = None, children = [], elements = [(''a'', 0)]\<rparr>],
      arrayStore = [new_Array 3 (Some 2) ''a'' [Some 6, None, Some 7]],
      ast = 0, shouldRemoveArrays = True, globalScope = 0, arrayNodes = {3}\<rparr>"

text \<open>\<^verbatim>\<open>const a = [1, 2]; a[0]; a[0];\<close>, and the tree the pass leaves (cleanup disabled).\<close>

definition tree_two_uses :: ast where
  "tree_two_uses =
     [mk ''Script'' [(''directives'', FList []), (''statements'', FList [Some 1, Some 8, Some 12])],
      mk ''VariableDeclarationStatement'' [(''declaration'', FNode 2)],
      mk ''VariableDeclaration'' [(''kind'', FStr ''const''), (''declarators'', FList [Some 3])],
      mk ''VariableDeclarator'' [(''binding'', FNode 4), (''init'', FNode 5)],
      mk ''BindingIdentifier'' [(''name'', FStr ''a'')],
      mk ''ArrayExpression'' [(''elements'', FList [Some 6, Some 7])],
      num 1,
      num 2,
      mk ''ExpressionStatement'' [(''expression'', FNode 9)],
      mk ''ComputedMemberExpression'' [(''object'', FNode 10), (''expression'', FNode 11)],
      mk ''IdentifierExpression'' [(''name'', FStr ''a'')],
      num 0,
      mk ''ExpressionStatement'' [(''expression'', FNode 13)],
      mk ''ComputedMemberExpression'' [(''object'', FNode 14), (''expression'', FNode 15)],
      mk ''IdentifierExpression'' [(''name'', FStr ''a'')],
      num 0]"

definition tree_two_uses_after :: ast where
  "tree_two_uses_after =
     tree_two_uses[8 := mk ''ExpressionStatement'' [(''expression'', FNode 6)],
                   12 := mk ''ExpressionStatement'' [(''expression'', FNode 6)]]"

text \<open>The pass object on \<open>tree_two_uses\<close> after the first \<open>findArrays\<close>.\<close>

definition found_two_uses :: ArrayUnpacker where
  "found_two_uses =
     \<lparr>nodes = tree_two_uses,
      scopeStore = [\<lparr>node = 0, type = Other, parent = None, children = [], elements = [(''a'', 0)]\<rparr>],
      arrayStore = [new_Array 3 (Some 2) ''a'' [Some 6, Some 7]],
      ast = 0, shouldRemoveArrays = False, globalScope = 0, arrayNodes = {3}\<rparr>"

text \<open>\<^verbatim>\<open>{ const a = [1, 2]; a[0]; }\<close>, and the tree the pass leaves (cleanup enabled).\<close>

definition tree_block :: ast where
  "tree_block =
     [mk ''Script'' [(''directives'', FList []), (''statements'', FList [Some 1])],
      mk ''BlockStatement'' [(''block'', FNode 2)],
      mk ''Block'' [(''statements'', FList [Some 3, Some 10])],
      mk ''VariableDeclarationStatement'' [(''declaration'', FNode 4)],
      mk ''VariableDeclaration'' [(''kind'', FStr ''const''), (''declarators'', FList [Some 5])],
      mk ''VariableDeclarator'' [(''binding'', FNode 6), (''init'', FNode 7)],
      mk ''BindingIdentifier'' [(''name'', FStr ''a'')],
      mk ''ArrayExpression'' [(''elements'', FList [Some 8, Some 9])],
      num 1,
      num 2,
      mk ''ExpressionStatement'' [(''expression'', FNode 11)],
      mk ''ComputedMemberExpression'' [(''object'', FNode 12), (''expression'', FNode 13)],
      mk ''IdentifierExpression'' [(''name'', FStr ''a'')],
      num 0]"

definition tree_block_after :: ast where
  "tree_block_after = tree_block[10 := mk ''ExpressionStatement'' [(''expression'', FNode 8)]]"

text \<open>
  \<^verbatim>\<open>const a = [1, 2]; const b = [1]; a[b[0]];\<close>, the tree the pass leaves (cleanup
  enabled), and the tree a second, newly constructed pass leaves when run on that.
\<close>

definition tree_nested_index :: ast where
  "tree_nested_index =
     [mk ''Script'' [(''directives'', FList []), (''statements'', FList [Some 1, Some 8, Some 14])],
      mk ''VariableDeclarationStatement'' [(''declaration'', FNode 2)],
      mk ''VariableDeclaration'' [(''kind'', FStr ''const''), (''declarators'', FList [Some 3])],
      mk ''VariableDeclarator'' [(''binding'', FNode 4), (''init'', FNode 5)],
      mk ''BindingIdentifier'' [(''name'', FStr ''a'')],
      mk ''ArrayExpression'' [(''elements'', FList [Some 6, Some 7])],
      num 1,
      num 2,
      mk ''VariableDeclarationStatement'' [(''declaration'', FNode 9)],
      mk ''VariableDeclaration'' [(''kind'', FStr ''const''), (''declarators'', FList [Some 10])],
      mk ''VariableDeclarator'' [(''binding'', FNode 11), (''init'', FNode 12)],
      mk ''BindingIdentifier'' [(''name'', FStr ''b'')],
      mk ''ArrayExpression'' [(''elements'', FList [Some 13])],
      num 1,
      mk ''ExpressionStatement'' [(''expression'', FNode 15)],
      mk ''ComputedMemberExpression'' [(''object'', FNode 16), (''expression'', FNode 17)],
      mk ''IdentifierExpression'' [(''name'', FStr ''a'')],
      mk ''ComputedMemberExpression'' [(''object'', FNode 18), (''expression'', FNode 19)],
      mk ''IdentifierExpression'' [(''name'', FStr ''b'')],
      num 0]"

definition tree_nested_index_after :: ast where
  "tree_nested_index_after =
     tree_nested_index
       [9 := mk ''VariableDeclaration'' [(''kind'', FStr ''const''), (''declarators'', FList [])],
        15 := mk ''ComputedMemberExpression'' [(''object'', FNode 16), (''expression'', FNode 13)]]"

definition tree_nested_index_after2 :: ast where
  "tree_nested_index_after2 =
     tree_nested_index_after
       [2 := mk ''VariableDeclaration'' [(''kind'', FStr ''const''), (''declarators'', FList [])],
        14 := mk ''ExpressionStatement'' [(''expression'', FNode 7)]]"

text \<open>The tree of a run, when the run comes to its end without an error.\<close>

definition result_nodes :: "(error + ArrayUnpacker) option \<Rightarrow> ast option" where
  "result_nodes r = (case r of Some (Inr s) \<Rightarrow> Some (nodes s) | _ \<Rightarrow> None)"

definition result_arrays :: "(error + ArrayUnpacker) option \<Rightarrow> Array list option" where
  "result_arrays r = (case r of Some (Inr s) \<Rightarrow> Some (arrayStore s) | _ \<Rightarrow> None)"

lemmas tree_defs = mk_def num_def node_at_def field_def type_of_def child_name_def
  expression_value_def isSimpleArrayAccess_def scope_at_def array_at_def new_Array_def

section \<open>What one callback does\<close>

lemma wf_get_returns: "wf_scopes H \<Longrightarrow> \<exists>r. get H s name = Some r"
proof (induction s rule: less_induct)
  case (less s)
  show ?case
  proof (cases "map_of (elements (scope_at H s)) name")
    case (Some v)
    then show ?thesis by (subst get.simps) simp
  next
    case None
    show ?thesis
    proof (cases "parent (scope_at H s)")
      case None
      with \<open>map_of (elements (scope_at H s)) name = None\<close> show ?thesis
        by (subst get.simps) simp
    next
      case (Some p)
      then have "s < length H" by (auto simp: scope_at_def no_scope_def split: if_splits)
      with Some less.prems have "p < s" by (auto simp: wf_scopes_def scope_at_def)
      from less.IH[OF this less.prems] obtain r where "get H p name = Some r" by blast
      with Some \<open>map_of (elements (scope_at H s)) name = None\<close> show ?thesis
        by (subst get.simps) simp
    qed
  qed
qed

lemma js_index_out_of_range: "of_nat (length es) \<le> q \<Longrightarrow> js_index es q = None"
proof -
  assume a: "of_nat (length es) \<le> q"
  show ?thesis
  proof (cases "0 \<le> q \<and> of_int \<lfloor>q\<rfloor> = q")
    case True
    have "int (length es) \<le> \<lfloor>q\<rfloor>" using a by (simp add: le_floor_iff)
    then have "\<not> nat \<lfloor>q\<rfloor> < length es" by linarith
    then show ?thesis by (simp add: js_index_def)
  next
    case False
    then show ?thesis by (auto simp: js_index_def)
  qed
qed

lemma js_index_nat: "js_index es (of_nat k) = (if k < length es then es ! k else None)"
  by (simp add: js_index_def)


lemma find_None_iff: "find P xs = None \<longleftrightarrow> (\<forall>x\<in>set xs. \<not> P x)"
  by (induction xs) auto

definition literal_or_hole :: "ast \<Rightarrow> nat option \<Rightarrow> bool" where
  "literal_or_hole A e = (case e of None \<Rightarrow> True | Some c \<Rightarrow> prefix ''Literal'' (ntype (node_at A c)))"

lemma isLiteralArrayDeclaration_iff:
  "isLiteralArrayDeclaration A n \<longleftrightarrow>
     ntype (node_at A n) = ''VariableDeclarator'' \<and>
     type_of A (field (node_at A n) ''binding'') = ''BindingIdentifier'' \<and>
     type_of A (field (node_at A n) ''init'') = ''ArrayExpression'' \<and>
     (\<forall>e\<in>set (init_elements A n). literal_or_hole A e)"
  by (auto simp: isLiteralArrayDeclaration_def find_None_iff literal_or_hole_def type_of_def
      split: option.splits fval.splits)


lemma length_replaceNode [simp]: "length (replaceNode A q old new) = length A"
  by (simp add: replaceNode_def split: option.splits)

lemma replace_in_list_mem:
  "replace_in_list old new cs = Some cs' \<Longrightarrow> new \<in> set (List.map_filter id cs')"
proof (induction cs arbitrary: cs')
  case Nil
  then show ?case by simp
next
  case (Cons c cs)
  show ?case
  proof (cases "c = Some old")
    case True
    with Cons.prems show ?thesis by (auto simp: List.map_filter_simps)
  next
    case False
    with Cons.prems obtain ds where ds: "replace_in_list old new cs = Some ds" "cs' = c # ds"
      by auto
    from Cons.IH[OF ds(1)] ds(2) show ?thesis
      by (cases c) (auto simp: List.map_filter_simps)
  qed
qed

lemma replace_in_fields_mem:
  "replace_in_fields old new fs = Some fs' \<Longrightarrow>
   new \<in> set (concat (map (fval_children \<circ> snd) fs'))"
proof (induction fs arbitrary: fs')
  case Nil
  then show ?case by simp
next
  case (Cons kv fs)
  obtain k v where kv: "kv = (k, v)" by (cases kv)
  show ?case
  proof (cases v)
    case (FNode c)
    with Cons kv show ?thesis by (auto split: if_splits)
  next
    case (FList cs)
    show ?thesis
    proof (cases "replace_in_list old new cs")
      case None
      with Cons kv FList show ?thesis by auto
    next
      case (Some ds)
      from replace_in_list_mem[OF Some] Cons.prems kv FList Some show ?thesis by auto
    qed
  qed (use Cons kv in auto)
qed

lemma node_at_replaceNode:
  "node_at (replaceNode A q old new) m =
     (if m = q \<and> q < length A
      then (case replace_in_fields old new (nfields (node_at A q)) of
              None \<Rightarrow> node_at A q
            | Some fs \<Rightarrow> (node_at A q)\<lparr>nfields := fs\<rparr>)
      else node_at A m)"
  by (auto simp: replaceNode_def node_at_def split: option.splits)

lemma replaceNode_child:
  assumes "replaceNode A q old new \<noteq> A"
  shows "new \<in> set (children_of (replaceNode A q old new) q)"
proof (cases "replace_in_fields old new (nfields (node_at A q))")
  case None
  with assms show ?thesis by (simp add: replaceNode_def)
next
  case (Some fs)
  have "q < length A"
  proof (rule ccontr)
    assume "\<not> q < length A"
    then have "replaceNode A q old new = A" by (simp add: replaceNode_def Some not_less list_update_beyond)
    with assms show False by simp
  qed
  then have "nfields (node_at (replaceNode A q old new) q) = fs"
    by (simp add: node_at_replaceNode Some)
  with replace_in_fields_mem[OF Some] show ?thesis by (simp add: children_of_def)
qed

lemma js_index_mem: "js_index es q = Some r \<Longrightarrow> Some r \<in> set es"
  unfolding js_index_def by (metis nth_mem option.distinct(1))

lemma array_at_update_elements:
  "array_elements (array_at (D[a := (array_at D a)\<lparr>replaceCount := c\<rparr>]) a) = array_elements (array_at D a)"
  by (simp add: array_at_def)



lemma findArrays_out_of_range:
  "findArrays 7 (new_ArrayUnpacker tree_out_of_range 0 True) = Some (Inr (True, found_out_of_range))"
  by code_simp

lemma findArrays_hole:
  "findArrays 7 (new_ArrayUnpacker tree_hole 0 True) = Some (Inr (True, found_hole))"
  by code_simp

lemma findArrays_two_uses:
  "findArrays 7 (new_ArrayUnpacker tree_two_uses 0 False) = Some (Inr (True, found_two_uses))"
  by code_simp

text \<open>
  Claim C8: when the callback \<open>enter\<close> of the rewrite traversal is called, with the
  active Scope defined, at a node that is not of the shape
  \<open>identifier[literalNumericIndex]\<close>, or whose identifier resolves to no descriptor,
  or whose index is at or beyond the element count of the descriptor it resolves to,
  then the call returns without an error and leaves the pass object as it was: the
  tree, and every descriptor with its usage counter.
\<close>

theorem unpack_enter_ineligible:
  assumes sc: "uscope l = Some sc"
    and inel: "\<not> isSimpleArrayAccess (nodes (uthis l)) n
       \<or> get (scopeStore (uthis l)) sc (child_name (nodes (uthis l)) n ''object'') = Some None
       \<or> (\<exists>a. get (scopeStore (uthis l)) sc (child_name (nodes (uthis l)) n ''object'') = Some (Some a)
              \<and> of_nat (length (array_elements (array_at (arrayStore (uthis l)) a)))
                  \<le> expression_value (nodes (uthis l)) n)"
  shows "\<exists>l'. unpack_enter n p l = Some (Inr l') \<and> uthis l' = uthis l"
proof (cases "ntype (node_at (nodes (uthis l)) n) \<in> scopeTypes")
  case True
  then show ?thesis using sc by (simp add: unpack_enter_def)
next
  case nst: False
  show ?thesis
  proof (cases "isSimpleArrayAccess (nodes (uthis l)) n")
    case False
    then show ?thesis using nst by (simp add: unpack_enter_def)
  next
    case True
    with inel consider
      (miss) "get (scopeStore (uthis l)) sc (child_name (nodes (uthis l)) n ''object'') = Some None"
      | (range) a where "get (scopeStore (uthis l)) sc (child_name (nodes (uthis l)) n ''object'') = Some (Some a)"
          "of_nat (length (array_elements (array_at (arrayStore (uthis l)) a)))
                  \<le> expression_value (nodes (uthis l)) n"
      by blast
    then show ?thesis
    proof cases
      case miss
      then show ?thesis using nst True sc by (simp add: unpack_enter_def)
    next
      case range
      from js_index_out_of_range[OF range(2)] range(1) show ?thesis
        using nst True sc by (simp add: unpack_enter_def)
    qed
  qed
qed



theorem unpack_enter_ineligible_witness:
  "uscope \<lparr>uthis = found_out_of_range, uscope = Some 0\<rparr> = Some 0 \<and>
   get (scopeStore found_out_of_range) 0 (child_name (nodes found_out_of_range) 9 ''object'') = Some (Some 0) \<and>
   of_nat (length (array_elements (array_at (arrayStore found_out_of_range) 0)))
     \<le> expression_value (nodes found_out_of_range) 9 \<and>
   (\<exists>l'. unpack_enter 9 (Some 8) \<lparr>uthis = found_out_of_range, uscope = Some 0\<rparr> = Some (Inr l') \<and>
         uthis l' = found_out_of_range)"
proof -
  have g: "get (scopeStore found_out_of_range) 0 (child_name (nodes found_out_of_range) 9 ''object'') = Some (Some 0)"
    by (simp add: found_out_of_range_def tree_out_of_range_def tree_defs get.simps)
  have r: "of_nat (length (array_elements (array_at (arrayStore found_out_of_range) 0)))
     \<le> expression_value (nodes found_out_of_range) 9"
    by (simp add: found_out_of_range_def tree_out_of_range_def tree_defs)
  from unpack_enter_ineligible[of "\<lparr>uthis = found_out_of_range, uscope = Some 0\<rparr>" 0 9 "Some 8"] g r
  show ?thesis by auto
qed

text \<open>
  Claim C2, as the code has it. The claim says that the node a rewrite inserts is a
  fresh copy of the descriptor's element, so that no node is the child of two parents.
  \<open>unpackArrays\<close> hands \<open>array.elements[index]\<close> itself to \<open>replaceNode\<close>, which puts
  the node it is given into the slot. On \<^verbatim>\<open>const a = [1, 2]; a[0]; a[0];\<close> the run
  ends with the tree store as long as it was (no node was made), and with node 6, the
  first element of the array expression 5, as the child of the two expression
  statements 8 and 12 as well.
\<close>

theorem inlined_node_shared_counterexample:
  "result_nodes (execute 3 7 (new_ArrayUnpacker tree_two_uses 0 False)) = Some tree_two_uses_after \<and>
   length tree_two_uses_after = length tree_two_uses \<and>
   children_of tree_two_uses_after 5 = [6, 7] \<and>
   children_of tree_two_uses_after 8 = [6] \<and>
   children_of tree_two_uses_after 12 = [6]"
  by code_simp


text \<open>
  Claim C2, amended: whenever \<open>enter\<close> of the rewrite traversal changes the tree, the
  node it puts into the parent, in place of the access, is the very node the
  descriptor holds at the index (the element of the declaration's initializer, as
  \<open>findArrays\<close> recorded it), not a copy: the tree store gets no new node, the inserted
  node stays an element of the descriptor, and the usage counter goes up by one.
\<close>

theorem unpack_enter_inserts_element:
  assumes step: "unpack_enter n p l = Some (Inr l')"
    and changed: "nodes (uthis l') \<noteq> nodes (uthis l)"
  shows "\<exists>sc a r q.
           uscope l = Some sc \<and> p = Some q \<and>
           get (scopeStore (uthis l)) sc (child_name (nodes (uthis l)) n ''object'') = Some (Some a) \<and>
           js_index (array_elements (array_at (arrayStore (uthis l)) a))
             (expression_value (nodes (uthis l)) n) = Some r \<and>
           nodes (uthis l') = replaceNode (nodes (uthis l)) q n r \<and>
           length (nodes (uthis l')) = length (nodes (uthis l)) \<and>
           r \<in> set (children_of (nodes (uthis l')) q) \<and>
           Some r \<in> set (array_elements (array_at (arrayStore (uthis l')) a)) \<and>
           replaceCount (array_at (arrayStore (uthis l')) a) =
             (if a < length (arrayStore (uthis l))
              then Suc (replaceCount (array_at (arrayStore (uthis l)) a)) else 0)"
proof -
  from step changed have nst: "ntype (node_at (nodes (uthis l)) n) \<notin> scopeTypes"
    by (auto simp: unpack_enter_def Let_def split: option.splits)
  from step changed nst have simple: "isSimpleArrayAccess (nodes (uthis l)) n"
    by (auto simp: unpack_enter_def Let_def split: if_splits)
  from step changed nst simple obtain sc where sc: "uscope l = Some sc"
    by (auto simp: unpack_enter_def Let_def split: option.splits)
  from step changed nst simple sc obtain a where
    a: "get (scopeStore (uthis l)) sc (child_name (nodes (uthis l)) n ''object'') = Some (Some a)"
    by (auto simp: unpack_enter_def Let_def split: option.splits)
  from step changed nst simple sc a obtain r where
    r: "js_index (array_elements (array_at (arrayStore (uthis l)) a))
             (expression_value (nodes (uthis l)) n) = Some r"
    by (auto simp: unpack_enter_def Let_def split: option.splits)
  from step nst simple sc a r obtain q where q: "p = Some q"
    by (auto simp: unpack_enter_def Let_def split: option.splits)
  from step nst simple sc a r q have
    l': "l' = l\<lparr>uthis := (uthis l)\<lparr>arrayStore := (arrayStore (uthis l))[a := (array_at (arrayStore (uthis l)) a)
                                      \<lparr>replaceCount := Suc (replaceCount (array_at (arrayStore (uthis l)) a))\<rparr>],
                                  nodes := replaceNode (nodes (uthis l)) q n r\<rparr>\<rparr>"
    by (simp add: unpack_enter_def Let_def)
  then have nd: "nodes (uthis l') = replaceNode (nodes (uthis l)) q n r" by simp
  with changed have "replaceNode (nodes (uthis l)) q n r \<noteq> nodes (uthis l)" by simp
  from replaceNode_child[OF this] nd have ch: "r \<in> set (children_of (nodes (uthis l')) q)" by simp
  from js_index_mem[OF r] l' have el: "Some r \<in> set (array_elements (array_at (arrayStore (uthis l')) a))"
    by (simp add: array_at_update_elements)
  from l' have cnt: "replaceCount (array_at (arrayStore (uthis l')) a) =
             (if a < length (arrayStore (uthis l))
              then Suc (replaceCount (array_at (arrayStore (uthis l)) a)) else 0)"
    by (simp add: array_at_def new_Array_def)
  from sc q a r nd ch el cnt show ?thesis by simp
qed



theorem unpack_enter_inserts_element_witness:
  "(\<exists>l'. unpack_enter 9 (Some 8) \<lparr>uthis = found_two_uses, uscope = Some 0\<rparr> = Some (Inr l') \<and>
         nodes (uthis l') \<noteq> nodes found_two_uses \<and>
         nodes (uthis l') = replaceNode tree_two_uses 8 9 6 \<and>
         length (nodes (uthis l')) = length tree_two_uses \<and>
         6 \<in> set (children_of (nodes (uthis l')) 8) \<and>
         Some 6 \<in> set (array_elements (array_at (arrayStore (uthis l')) 0)) \<and>
         replaceCount (array_at (arrayStore (uthis l')) 0) = 1)"
proof -
  let ?l = "\<lparr>uthis = found_two_uses, uscope = Some 0\<rparr>"
  let ?l' = "?l\<lparr>uthis := found_two_uses
               \<lparr>arrayStore := [(new_Array 3 (Some 2) ''a'' [Some 6, Some 7])\<lparr>replaceCount := 1\<rparr>],
                nodes := replaceNode tree_two_uses 8 9 6\<rparr>\<rparr>"
  have step: "unpack_enter 9 (Some 8) ?l = Some (Inr ?l')"
    by (simp add: unpack_enter_def found_two_uses_def tree_two_uses_def tree_defs get.simps
        scopeTypes_def js_index_def)
  have changed: "nodes (uthis ?l') \<noteq> nodes (uthis ?l)"
    by (simp add: found_two_uses_def tree_two_uses_def replaceNode_def tree_defs)
  have facts: "nodes found_two_uses = tree_two_uses"
    "get (scopeStore found_two_uses) 0 (child_name tree_two_uses 9 ''object'') = Some (Some 0)"
    "js_index (array_elements (array_at (arrayStore found_two_uses) 0)) (expression_value tree_two_uses 9) = Some 6"
    "replaceCount (array_at (arrayStore found_two_uses) 0) = 0"
    "0 < length (arrayStore found_two_uses)"
    by (simp_all add: found_two_uses_def tree_two_uses_def tree_defs get.simps js_index_def)
  from unpack_enter_inserts_element[OF step changed] facts step changed
  show ?thesis by auto
qed


section \<open>Tree walks: invariants and termination\<close>

lemma traverse_list_invariant:
  assumes nd: "\<And>n p s s'. P s \<Longrightarrow> traverse_node f tree v n p s = Some (Inr s') \<Longrightarrow> P s'"
  shows "P s \<Longrightarrow> traverse_list f tree v cs q s = Some (Inr s') \<Longrightarrow> P s'"
proof (induction cs arbitrary: s)
  case Nil
  then show ?case by simp
next
  case (Cons c cs)
  from Cons.prems(2) obtain s1 where s1: "traverse_node f tree v c (Some q) s = Some (Inr s1)"
    and r: "traverse_list f tree v cs q s1 = Some (Inr s')"
    by (auto split: option.splits sum.splits)
  from nd[OF Cons.prems(1) s1] have "P s1" .
  from Cons.IH[OF this r] show ?case .
qed

lemma traverse_node_invariant:
  assumes ent: "\<And>n p s s'. P s \<Longrightarrow> enter v n p s = Some (Inr s') \<Longrightarrow> P s'"
    and lea: "\<And>n s s'. P s \<Longrightarrow> leave v n s = Some (Inr s') \<Longrightarrow> P s'"
  shows "P s \<Longrightarrow> traverse_node f tree v n p s = Some (Inr s') \<Longrightarrow> P s'"
proof (induction f arbitrary: n p s s')
  case 0
  then show ?case by simp
next
  case (Suc f)
  from Suc.prems(2) obtain s1 where s1: "enter v n p s = Some (Inr s1)"
    by (auto split: option.splits sum.splits)
  from Suc.prems(2) s1 obtain s2 where
    s2: "traverse_list f tree v (children_of (tree s1) n) n s1 = Some (Inr s2)"
    and l: "leave v n s2 = Some (Inr s')"
    by (auto split: option.splits sum.splits)
  have "P s1" using ent[OF Suc.prems(1) s1] .
  have "P s2"
  proof (rule traverse_list_invariant[of P f tree v s1 _ n s2])
    show "\<And>n p s s'. P s \<Longrightarrow> traverse_node f tree v n p s = Some (Inr s') \<Longrightarrow> P s'"
      using Suc.IH by blast
    show "P s1" by fact
    show "traverse_list f tree v (children_of (tree s1) n) n s1 = Some (Inr s2)" by (rule s2)
  qed
  then show ?case using lea l by blast
qed

lemma traverse_invariant:
  assumes ent: "\<And>n p s s'. P s \<Longrightarrow> enter v n p s = Some (Inr s') \<Longrightarrow> P s'"
    and lea: "\<And>n s s'. P s \<Longrightarrow> leave v n s = Some (Inr s') \<Longrightarrow> P s'"
    and "P s" and "traverse f tree rt v s = Some (Inr s')"
  shows "P s'"
proof (rule traverse_node_invariant[of P v s f tree rt None s'])
  show "\<And>n p s s'. P s \<Longrightarrow> enter v n p s = Some (Inr s') \<Longrightarrow> P s'" by (rule ent)
  show "\<And>n s s'. P s \<Longrightarrow> leave v n s = Some (Inr s') \<Longrightarrow> P s'" by (rule lea)
  show "P s" by fact
  show "traverse_node f tree v rt None s = Some (Inr s')" using assms(4) by (simp add: traverse_def)
qed

text \<open>Termination of the walk.\<close>

lemma traverse_list_returns:
  assumes nd: "\<And>c p s. J s \<Longrightarrow> c \<in> set cs \<Longrightarrow> \<exists>r. traverse_node f tree v c p s = Some r"
    and inv: "\<And>c p s s'. J s \<Longrightarrow> traverse_node f tree v c p s = Some (Inr s') \<Longrightarrow> J s'"
  shows "J s \<Longrightarrow> \<exists>r. traverse_list f tree v cs q s = Some r"
  using nd
proof (induction cs arbitrary: s)
  case Nil
  then show ?case by simp
next
  case (Cons c cs)
  from Cons.prems(2)[OF Cons.prems(1), of c "Some q"] obtain r
    where r: "traverse_node f tree v c (Some q) s = Some r" by auto
  show ?case
  proof (cases r)
    case (Inl e)
    with r show ?thesis by simp
  next
    case (Inr s1)
    with r inv[OF Cons.prems(1)] have "J s1" by blast
    from Cons.IH[OF this] Cons.prems(2) obtain r' where "traverse_list f tree v cs q s1 = Some r'"
      by auto
    with r Inr show ?thesis by simp
  qed
qed

lemma traverse_node_returns:
  assumes ent: "\<And>n p s. J s \<Longrightarrow> \<exists>r. enter v n p s = Some r"
    and lea: "\<And>n s. J s \<Longrightarrow> \<exists>r. leave v n s = Some r"
    and ent_inv: "\<And>n p s s'. J s \<Longrightarrow> enter v n p s = Some (Inr s') \<Longrightarrow> J s'"
    and lea_inv: "\<And>n s s'. J s \<Longrightarrow> leave v n s = Some (Inr s') \<Longrightarrow> J s'"
    and leaf: "\<And>s n. J s \<Longrightarrow> n \<in> Lv \<Longrightarrow> children_of (tree s) n = []"
    and inner: "\<And>s n. J s \<Longrightarrow> n \<notin> Lv \<Longrightarrow> n < L"
    and edge: "\<And>s n c. J s \<Longrightarrow> c \<in> set (children_of (tree s) n) \<Longrightarrow> c \<in> Lv \<or> n < c"
  shows "J s \<Longrightarrow> 0 < f \<and> (n \<in> Lv \<or> L < f + n) \<Longrightarrow> \<exists>r. traverse_node f tree v n p s = Some r"
proof (induction f arbitrary: n p s)
  case 0
  then show ?case by simp
next
  case (Suc f)
  have inv: "J s' \<Longrightarrow> traverse_node f' tree v c p' s' = Some (Inr s'') \<Longrightarrow> J s''" for s' f' c p' s''
  proof (rule traverse_node_invariant[of J v s' f' tree c p' s''])
    show "\<And>n p s s'. J s \<Longrightarrow> enter v n p s = Some (Inr s') \<Longrightarrow> J s'" by (rule ent_inv)
    show "\<And>n s s'. J s \<Longrightarrow> leave v n s = Some (Inr s') \<Longrightarrow> J s'" by (rule lea_inv)
  qed
  from ent[OF Suc.prems(1)] obtain r1 where r1: "enter v n p s = Some r1" by blast
  show ?case
  proof (cases r1)
    case (Inl e)
    with r1 show ?thesis by simp
  next
    case (Inr s1)
    with r1 ent_inv[OF Suc.prems(1)] have J1: "J s1" by blast
    have kids: "\<exists>r. traverse_node f tree v c p' s' = Some r"
      if "J s'" "c \<in> set (children_of (tree s1) n)" for c p' s'
    proof -
      from edge[OF J1 that(2)] have "c \<in> Lv \<or> n < c" .
      moreover have "n \<notin> Lv" using leaf[OF J1] that(2) by auto
      then have "n < L" using inner[OF J1] by blast
      with Suc.prems(2) \<open>n \<notin> Lv\<close> have "0 < f" "L < Suc f + n" by auto
      ultimately have "0 < f \<and> (c \<in> Lv \<or> L < f + c)" by auto
      from Suc.IH[OF that(1) this] show ?thesis .
    qed
    have "\<exists>r. traverse_list f tree v (children_of (tree s1) n) n s1 = Some r"
    proof (rule traverse_list_returns[of J "children_of (tree s1) n" f tree v s1 n])
      show "\<And>c p s. J s \<Longrightarrow> c \<in> set (children_of (tree s1) n) \<Longrightarrow>
              \<exists>r. traverse_node f tree v c p s = Some r" using kids by blast
      show "\<And>c p s s'. J s \<Longrightarrow> traverse_node f tree v c p s = Some (Inr s') \<Longrightarrow> J s'"
        using inv by blast
      show "J s1" by fact
    qed
    then obtain r2 where r2: "traverse_list f tree v (children_of (tree s1) n) n s1 = Some r2"
      by blast
    show ?thesis
    proof (cases r2)
      case (Inl e)
      with r1 Inr r2 show ?thesis by simp
    next
      case inr2: (Inr s2)
      have "J s2"
      proof (rule traverse_list_invariant[of J f tree v s1 _ n s2])
        show "\<And>n p s s'. J s \<Longrightarrow> traverse_node f tree v n p s = Some (Inr s') \<Longrightarrow> J s'"
          using inv by blast
        show "J s1" by fact
        show "traverse_list f tree v (children_of (tree s1) n) n s1 = Some (Inr s2)"
          using r2 inr2 by simp
      qed
      from lea[OF this] obtain r3 where "leave v n s2 = Some r3" by blast
      with r1 Inr r2 inr2 show ?thesis by simp
    qed
  qed
qed

section \<open>Well-formed trees and \<open>replaceNode\<close>\<close>

text \<open>
  The input contract of the pass: a finite tree in the store. Every reference in a
  node points into the store; the store is laid out so that a node that has children
  comes after its parent (any finite tree can be laid out so, and a parser that
  allocates a node before its children does); and literal nodes have no children, as
  in the Shift grammar. A node without children may stand anywhere and may be shared.
\<close>

definition wf_ast :: "ast \<Rightarrow> bool" where
  "wf_ast A =
     ((\<forall>p<length A. \<forall>c\<in>set (children_of A p). c < length A \<and> (p < c \<or> children_of A c = [])) \<and>
      (\<forall>n<length A. prefix ''Literal'' (ntype (A ! n)) \<longrightarrow> children_of A n = []))"

lemma children_of_beyond: "\<not> n < length A \<Longrightarrow> children_of A n = []"
  by (simp add: children_of_def node_at_def)

lemma replace_in_list_children:
  "replace_in_list old new cs = Some cs' \<Longrightarrow>
   length (List.map_filter id cs') = length (List.map_filter id cs) \<and>
   set (List.map_filter id cs') \<subseteq> insert new (set (List.map_filter id cs))"
proof (induction cs arbitrary: cs')
  case Nil
  then show ?case by simp
next
  case (Cons c cs)
  show ?case
  proof (cases "c = Some old")
    case True
    with Cons.prems show ?thesis by (auto simp: List.map_filter_simps)
  next
    case False
    with Cons.prems obtain ds where ds: "replace_in_list old new cs = Some ds" "cs' = c # ds"
      by auto
    from Cons.IH[OF ds(1)] ds(2) show ?thesis
      by (cases c) (auto simp: List.map_filter_simps)
  qed
qed

lemma replace_in_fields_children:
  "replace_in_fields old new fs = Some fs' \<Longrightarrow>
   length (concat (map (fval_children \<circ> snd) fs')) = length (concat (map (fval_children \<circ> snd) fs)) \<and>
   set (concat (map (fval_children \<circ> snd) fs')) \<subseteq> insert new (set (concat (map (fval_children \<circ> snd) fs)))"
proof (induction fs arbitrary: fs')
  case Nil
  then show ?case by simp
next
  case (Cons kv fs)
  obtain k v where kv: "kv = (k, v)" by (cases kv)
  show ?case
  proof (cases v)
    case (FNode c)
    show ?thesis
    proof (cases "c = old")
      case True
      with Cons.prems kv FNode have "fs' = (k, FNode new) # fs" by simp
      then show ?thesis unfolding kv FNode by auto
    next
      case False
      with Cons.prems kv FNode obtain gs where gs: "replace_in_fields old new fs = Some gs"
        "fs' = (k, v) # gs" by auto
      from Cons.IH[OF gs(1)] gs(2) show ?thesis unfolding kv by auto
    qed
  next
    case (FList cs)
    show ?thesis
    proof (cases "replace_in_list old new cs")
      case None
      with Cons.prems kv FList obtain gs where gs: "replace_in_fields old new fs = Some gs"
        "fs' = (k, v) # gs" by auto
      from Cons.IH[OF gs(1)] gs(2) show ?thesis unfolding kv by auto
    next
      case (Some ds)
      with Cons.prems kv FList have fs': "fs' = (k, FList ds) # fs" by simp
      from replace_in_list_children[OF Some]
      have L: "length (List.map_filter id ds) = length (List.map_filter id cs)"
        and S: "set (List.map_filter id ds) \<subseteq> insert new (set (List.map_filter id cs))"
        by blast+
      show ?thesis unfolding fs' kv FList using L S by simp blast
    qed
  next
    case FNull
    with Cons.prems kv obtain gs where gs: "replace_in_fields old new fs = Some gs"
      "fs' = (k, v) # gs" by auto
    from Cons.IH[OF gs(1)] gs(2) show ?thesis unfolding kv by auto
  next
    case (FStr x)
    with Cons.prems kv obtain gs where gs: "replace_in_fields old new fs = Some gs"
      "fs' = (k, v) # gs" by auto
    from Cons.IH[OF gs(1)] gs(2) show ?thesis unfolding kv by auto
  next
    case (FNum x)
    with Cons.prems kv obtain gs where gs: "replace_in_fields old new fs = Some gs"
      "fs' = (k, v) # gs" by auto
    from Cons.IH[OF gs(1)] gs(2) show ?thesis unfolding kv by auto
  next
    case (FBool x)
    with Cons.prems kv obtain gs where gs: "replace_in_fields old new fs = Some gs"
      "fs' = (k, v) # gs" by auto
    from Cons.IH[OF gs(1)] gs(2) show ?thesis unfolding kv by auto
  qed
qed

lemma ntype_replaceNode [simp]: "ntype (node_at (replaceNode A q old new) m) = ntype (node_at A m)"
  by (simp add: node_at_replaceNode split: option.splits)

lemma children_of_replaceNode_other:
  "m \<noteq> q \<Longrightarrow> children_of (replaceNode A q old new) m = children_of A m"
  by (simp add: children_of_def node_at_replaceNode)

lemma children_of_replaceNode:
  "length (children_of (replaceNode A q old new) m) = length (children_of A m) \<and>
   set (children_of (replaceNode A q old new) m) \<subseteq> insert new (set (children_of A m))"
proof (cases "m = q \<and> q < length A")
  case True
  show ?thesis
  proof (cases "replace_in_fields old new (nfields (node_at A q))")
    case None
    then show ?thesis using True by (auto simp: children_of_def node_at_replaceNode)
  next
    case (Some fs)
    from replace_in_fields_children[OF Some] True Some show ?thesis
      by (simp add: children_of_def node_at_replaceNode)
  qed
next
  case False
  then show ?thesis by (auto simp: children_of_def node_at_replaceNode)
qed

lemma leaf_replaceNode:
  "children_of (replaceNode A q old new) m = [] \<longleftrightarrow> children_of A m = []"
  using children_of_replaceNode[of A q old new m] by (metis length_0_conv)

lemma wf_ast_replaceNode:
  assumes wf: "wf_ast A" and r: "r < length A" "children_of A r = []"
  shows "wf_ast (replaceNode A q old r)"
  unfolding wf_ast_def
proof (intro conjI allI impI ballI)
  fix p c assume p: "p < length (replaceNode A q old r)"
    and c: "c \<in> set (children_of (replaceNode A q old r) p)"
  from p have p': "p < length A" by simp
  from c children_of_replaceNode[of A q old r p] have "c = r \<or> c \<in> set (children_of A p)" by auto
  then show "c < length (replaceNode A q old r)"
    using r p' wf by (auto simp: wf_ast_def)
  from \<open>c = r \<or> c \<in> set (children_of A p)\<close>
  show "p < c \<or> children_of (replaceNode A q old r) c = []"
    using r p' wf by (auto simp: wf_ast_def leaf_replaceNode)
next
  fix n assume n: "n < length (replaceNode A q old r)"
    and lit: "prefix ''Literal'' (ntype (replaceNode A q old r ! n))"
  from n have n': "n < length A" by simp
  have "ntype (node_at (replaceNode A q old r) n) = ntype (node_at A n)"
    by (rule ntype_replaceNode)
  then have "ntype (replaceNode A q old r ! n) = ntype (A ! n)"
    using n n' by (simp add: node_at_def)
  with lit have "prefix ''Literal'' (ntype (A ! n))" by simp
  with wf n' have "children_of A n = []" by (simp add: wf_ast_def)
  then show "children_of (replaceNode A q old r) n = []" by (simp add: leaf_replaceNode)
qed

section \<open>Invariants of the pass\<close>

text \<open>
  \<open>pass_inv L Lv self\<close>: the tree of the pass object is well formed, has \<open>L\<close> nodes,
  and \<open>Lv\<close> are its nodes without children; every element a descriptor holds is such
  a node; each Scope's parent was constructed before it.
\<close>

definition pass_inv :: "nat \<Rightarrow> nat set \<Rightarrow> ArrayUnpacker \<Rightarrow> bool" where
  "pass_inv L Lv self =
     (wf_ast (nodes self) \<and> length (nodes self) = L \<and>
      (\<forall>n. n \<in> Lv \<longleftrightarrow> children_of (nodes self) n = []) \<and>
      (\<forall>d\<in>set (arrayStore self). \<forall>e. Some e \<in> set (array_elements d) \<longrightarrow> e < L \<and> e \<in> Lv) \<and>
      wf_scopes (scopeStore self) \<and> globalScope self < length (scopeStore self))"

lemma pass_inv_scopeStore:
  "pass_inv L Lv s \<Longrightarrow> wf_scopes H' \<Longrightarrow> length (scopeStore s) \<le> length H' \<Longrightarrow>
   pass_inv L Lv (s\<lparr>scopeStore := H'\<rparr>)"
  unfolding pass_inv_def by auto

lemma pass_inv_arrayStore:
  "pass_inv L Lv s \<Longrightarrow> \<forall>d\<in>set D'. \<forall>e. Some e \<in> set (array_elements d) \<longrightarrow> e < L \<and> e \<in> Lv \<Longrightarrow>
   pass_inv L Lv (s\<lparr>arrayStore := D'\<rparr>)"
  unfolding pass_inv_def by auto

lemma pass_inv_arrayNodes: "pass_inv L Lv s \<Longrightarrow> pass_inv L Lv (s\<lparr>arrayNodes := N\<rparr>)"
  unfolding pass_inv_def by auto

lemma pass_inv_elements:
  "pass_inv L Lv s \<Longrightarrow> d \<in> set (arrayStore s) \<Longrightarrow> Some e \<in> set (array_elements d) \<Longrightarrow>
   e < L \<and> e \<in> Lv"
  unfolding pass_inv_def by blast

lemma new_Scope_Some:
  "new_Scope H n t (Some p) =
     ((H @ [\<lparr>node = n, type = t, parent = Some p, children = [], elements = []\<rparr>])
        [p := (scope_at (H @ [\<lparr>node = n, type = t, parent = Some p, children = [], elements = []\<rparr>]) p)
               \<lparr>children := AList.update n (length H)
                  (children (scope_at (H @ [\<lparr>node = n, type = t, parent = Some p, children = [], elements = []\<rparr>]) p))\<rparr>],
      length H)"
  by (simp add: new_Scope_def Let_def)

lemma length_new_Scope: "length (fst (new_Scope H n t p)) = Suc (length H)"
  by (cases p) (simp_all add: new_Scope_def Let_def)

lemma snd_new_Scope: "snd (new_Scope H n t p) = length H"
  by (cases p) (simp_all add: new_Scope_def Let_def)

lemma wf_scopes_new_Scope:
  assumes "wf_scopes H" "p < length H"
  shows "wf_scopes (fst (new_Scope H n t (Some p)))"
  using assms
  by (auto simp: new_Scope_Some wf_scopes_def nth_list_update nth_append scope_at_def
      split: if_splits)

lemma wf_scopes_elements_set:
  assumes "wf_scopes H"
  shows "wf_scopes (elements_set H s name v)"
  using assms
  by (auto simp: elements_set_def wf_scopes_def nth_list_update scope_at_def split: if_splits)

lemma literal_in_range:
  "prefix ''Literal'' (ntype (node_at A e)) \<Longrightarrow> e < length A"
  by (rule ccontr) (simp add: node_at_def)

lemma isLiteralArrayDeclaration_in_range:
  "isLiteralArrayDeclaration A n \<Longrightarrow> n < length A"
  by (rule ccontr) (simp add: isLiteralArrayDeclaration_def node_at_def)

lemma init_elements_leaves:
  assumes wf: "wf_ast A" and lit: "isLiteralArrayDeclaration A n"
    and e: "Some e \<in> set (init_elements A n)"
  shows "e < length A \<and> children_of A e = []"
proof -
  from lit e have "literal_or_hole A (Some e)" by (simp add: isLiteralArrayDeclaration_iff)
  then have p: "prefix ''Literal'' (ntype (node_at A e))" by (simp add: literal_or_hole_def)
  from literal_in_range[OF p] have r: "e < length A" .
  with p have "prefix ''Literal'' (ntype (A ! e))" by (simp add: node_at_def)
  with wf r show ?thesis by (simp add: wf_ast_def)
qed

subsection \<open>The callbacks of findArrays\<close>

definition find_inv :: "nat \<Rightarrow> nat set \<Rightarrow> find_locals \<Rightarrow> bool" where
  "find_inv L Lv l = (pass_inv L Lv (fthis l) \<and> fscope l < length (scopeStore (fthis l)))"

lemma find_enter_total: "\<exists>r. find_enter n p l = Some r"
  by (simp add: find_enter_def add_def Let_def split: prod.splits)

lemma find_leave_total: "\<exists>r. find_leave n l = Some r"
  by (simp add: find_leave_def Let_def split: option.splits)

lemma find_enter_scope:
  "ntype (node_at (nodes (fthis l)) n) \<in> scopeTypes \<Longrightarrow>
   find_enter n p l = Some (Inr (l\<lparr>fthis := (fthis l)\<lparr>scopeStore := fst (new_Scope (scopeStore (fthis l)) n Other (Some (fscope l)))\<rparr>,
              fscope := length (scopeStore (fthis l))\<rparr>))"
  by (simp add: find_enter_def Let_def case_prod_beta snd_new_Scope)

lemma find_enter_found:
  "ntype (node_at (nodes (fthis l)) n) \<notin> scopeTypes \<Longrightarrow>
   isLiteralArrayDeclaration (nodes (fthis l)) n \<Longrightarrow> n \<notin> arrayNodes (fthis l) \<Longrightarrow>
   find_enter n p l = Some (Inr (l\<lparr>fthis := (fthis l)
                \<lparr>scopeStore := elements_set (scopeStore (fthis l)) (fscope l)
                     (child_name (nodes (fthis l)) n ''binding'') (length (arrayStore (fthis l))),
                 arrayStore := arrayStore (fthis l) @
                     [new_Array n p (child_name (nodes (fthis l)) n ''binding'') (init_elements (nodes (fthis l)) n)],
                 arrayNodes := insert n (arrayNodes (fthis l))\<rparr>,
              foundArrays := True\<rparr>))"
  by (simp add: find_enter_def Let_def add_def)

lemma find_enter_skip:
  "ntype (node_at (nodes (fthis l)) n) \<notin> scopeTypes \<Longrightarrow>
   \<not> (isLiteralArrayDeclaration (nodes (fthis l)) n \<and> n \<notin> arrayNodes (fthis l)) \<Longrightarrow>
   find_enter n p l = Some (Inr l)"
  by (auto simp: find_enter_def Let_def)

lemma find_enter_cases:
  assumes "find_enter n p l = Some (Inr l')"
  obtains
    (scope) "ntype (node_at (nodes (fthis l)) n) \<in> scopeTypes"
      "l' = l\<lparr>fthis := (fthis l)\<lparr>scopeStore := fst (new_Scope (scopeStore (fthis l)) n Other (Some (fscope l)))\<rparr>,
              fscope := length (scopeStore (fthis l))\<rparr>"
  | (found) "ntype (node_at (nodes (fthis l)) n) \<notin> scopeTypes"
      "isLiteralArrayDeclaration (nodes (fthis l)) n" "n \<notin> arrayNodes (fthis l)"
      "l' = l\<lparr>fthis := (fthis l)
                \<lparr>scopeStore := elements_set (scopeStore (fthis l)) (fscope l)
                     (child_name (nodes (fthis l)) n ''binding'') (length (arrayStore (fthis l))),
                 arrayStore := arrayStore (fthis l) @
                     [new_Array n p (child_name (nodes (fthis l)) n ''binding'') (init_elements (nodes (fthis l)) n)],
                 arrayNodes := insert n (arrayNodes (fthis l))\<rparr>,
              foundArrays := True\<rparr>"
  | (skip) "l' = l"
proof (cases "ntype (node_at (nodes (fthis l)) n) \<in> scopeTypes")
  case True
  from find_enter_scope[OF True, of p] assms scope[OF True] show ?thesis by simp
next
  case False
  show ?thesis
  proof (cases "isLiteralArrayDeclaration (nodes (fthis l)) n \<and> n \<notin> arrayNodes (fthis l)")
    case True
    then have a: "isLiteralArrayDeclaration (nodes (fthis l)) n" and b: "n \<notin> arrayNodes (fthis l)"
      by simp_all
    from find_enter_found[OF False a b, of p] assms found[OF False a b] show ?thesis by simp
  next
    case nf: False
    from find_enter_skip[OF False nf, of p] assms skip show ?thesis by simp
  qed
qed

lemma find_leave_cases:
  assumes "find_leave n l = Some (Inr l')"
  obtains
    (up) q where "parent (scope_at (scopeStore (fthis l)) (fscope l)) = Some q" "l' = l\<lparr>fscope := q\<rparr>"
  | (stay) "l' = l"
  using assms by (auto simp: find_leave_def Let_def split: option.splits if_splits)

lemma find_enter_inv:
  assumes inv: "find_inv L Lv l" and step: "find_enter n p l = Some (Inr l')"
  shows "find_inv L Lv l'"
  using step
proof (cases rule: find_enter_cases)
  case scope
  from inv have pi: "pass_inv L Lv (fthis l)" and r: "fscope l < length (scopeStore (fthis l))"
    by (simp_all add: find_inv_def)
  from pi have wfs: "wf_scopes (scopeStore (fthis l))" by (simp add: pass_inv_def)
  let ?H = "fst (new_Scope (scopeStore (fthis l)) n Other (Some (fscope l)))"
  have "pass_inv L Lv ((fthis l)\<lparr>scopeStore := ?H\<rparr>)"
    by (rule pass_inv_scopeStore[OF pi wf_scopes_new_Scope[OF wfs r]]) (simp add: length_new_Scope)
  then show ?thesis unfolding scope(2) by (simp add: find_inv_def length_new_Scope)
next
  case found
  from inv have pi: "pass_inv L Lv (fthis l)" and r: "fscope l < length (scopeStore (fthis l))"
    by (simp_all add: find_inv_def)
  from pi have wf: "wf_ast (nodes (fthis l))" and len: "length (nodes (fthis l)) = L"
    and lv: "\<forall>n. n \<in> Lv \<longleftrightarrow> children_of (nodes (fthis l)) n = []"
    and wfs: "wf_scopes (scopeStore (fthis l))"
    by (simp_all add: pass_inv_def)
  let ?x = "child_name (nodes (fthis l)) n ''binding''"
  let ?H = "elements_set (scopeStore (fthis l)) (fscope l) ?x (length (arrayStore (fthis l)))"
  let ?D = "arrayStore (fthis l) @ [new_Array n p ?x (init_elements (nodes (fthis l)) n)]"
  have new: "e < L \<and> e \<in> Lv" if "Some e \<in> set (init_elements (nodes (fthis l)) n)" for e
    using init_elements_leaves[OF wf found(2) that] len lv by simp
  have D: "\<forall>d\<in>set ?D. \<forall>e. Some e \<in> set (array_elements d) \<longrightarrow> e < L \<and> e \<in> Lv"
  proof (intro ballI allI impI)
    fix d e assume d: "d \<in> set ?D" and e: "Some e \<in> set (array_elements d)"
    from d consider "d \<in> set (arrayStore (fthis l))"
      | "d = new_Array n p ?x (init_elements (nodes (fthis l)) n)" by auto
    then show "e < L \<and> e \<in> Lv"
    proof cases
      case 1
      from pass_inv_elements[OF pi 1 e] show ?thesis .
    next
      case 2
      with e have "Some e \<in> set (init_elements (nodes (fthis l)) n)" by (simp add: new_Array_def)
      from new[OF this] show ?thesis .
    qed
  qed
  have 1: "pass_inv L Lv ((fthis l)\<lparr>scopeStore := ?H\<rparr>)"
    by (rule pass_inv_scopeStore[OF pi wf_scopes_elements_set[OF wfs]]) (simp add: length_elements_set)
  have 2: "pass_inv L Lv ((fthis l)\<lparr>scopeStore := ?H, arrayStore := ?D\<rparr>)"
    using pass_inv_arrayStore[OF 1, of ?D] D by simp
  have 3: "pass_inv L Lv ((fthis l)\<lparr>scopeStore := ?H, arrayStore := ?D, arrayNodes := insert n (arrayNodes (fthis l))\<rparr>)"
    using pass_inv_arrayNodes[OF 2] by simp
  then show ?thesis unfolding found(4) using r by (simp add: find_inv_def length_elements_set)
next
  case skip
  with inv show ?thesis by simp
qed

lemma find_leave_inv:
  assumes inv: "find_inv L Lv l" and step: "find_leave n l = Some (Inr l')"
  shows "find_inv L Lv l'"
  using step
proof (cases rule: find_leave_cases)
  case (up q)
  from inv have wf: "wf_scopes (scopeStore (fthis l))" and r: "fscope l < length (scopeStore (fthis l))"
    by (simp_all add: find_inv_def pass_inv_def)
  from up(1) wf r have "q < fscope l" by (auto simp: wf_scopes_def scope_at_def)
  with inv up(2) r show ?thesis by (simp add: find_inv_def)
next
  case stay
  with inv show ?thesis by simp
qed

lemma pass_inv_nodes:
  "pass_inv L Lv s \<Longrightarrow> wf_ast A' \<Longrightarrow> length A' = L \<Longrightarrow>
   (\<forall>m. children_of A' m = [] \<longleftrightarrow> children_of (nodes s) m = []) \<Longrightarrow>
   pass_inv L Lv (s\<lparr>nodes := A'\<rparr>)"
  unfolding pass_inv_def by auto

lemma pass_inv_leaf: "pass_inv L Lv s \<Longrightarrow> n \<in> Lv \<Longrightarrow> children_of (nodes s) n = []"
  unfolding pass_inv_def by blast

lemma pass_inv_inner: "pass_inv L Lv s \<Longrightarrow> n \<notin> Lv \<Longrightarrow> n < L"
  unfolding pass_inv_def using children_of_beyond by blast

lemma pass_inv_edge:
  assumes "pass_inv L Lv s" "c \<in> set (children_of (nodes s) n)"
  shows "c \<in> Lv \<or> n < c"
proof -
  from assms(2) have "children_of (nodes s) n \<noteq> []" by auto
  then have "n < length (nodes s)" using children_of_beyond by blast
  with assms show ?thesis unfolding pass_inv_def wf_ast_def by blast
qed

subsection \<open>The callbacks of unpackArrays\<close>

definition unpack_inv :: "nat \<Rightarrow> nat set \<Rightarrow> unpack_locals \<Rightarrow> bool" where
  "unpack_inv L Lv l = pass_inv L Lv (uthis l)"

lemma unpack_leave_total: "\<exists>r. unpack_leave n l = Some r"
  by (simp add: unpack_leave_def Let_def split: option.splits)

lemma unpack_enter_total:
  assumes "wf_scopes (scopeStore (uthis l))"
  shows "\<exists>r. unpack_enter n p l = Some r"
proof (cases "uscope l")
  case None
  then show ?thesis by (simp add: unpack_enter_def Let_def)
next
  case (Some sc)
  from wf_get_returns[OF assms, of sc "child_name (nodes (uthis l)) n ''object''"]
  obtain r where "get (scopeStore (uthis l)) sc (child_name (nodes (uthis l)) n ''object'') = Some r"
    by blast
  with Some show ?thesis
    by (simp add: unpack_enter_def Let_def split: option.splits)
qed

lemma unpack_enter_cases:
  assumes "unpack_enter n p l = Some (Inr l')"
  obtains
    (scope) sc where "uscope l = Some sc"
      "l' = l\<lparr>uscope := map_of (children (scope_at (scopeStore (uthis l)) sc)) n\<rparr>"
  | (rewrite) sc a r q where "uscope l = Some sc" "p = Some q"
      "get (scopeStore (uthis l)) sc (child_name (nodes (uthis l)) n ''object'') = Some (Some a)"
      "js_index (array_elements (array_at (arrayStore (uthis l)) a))
         (expression_value (nodes (uthis l)) n) = Some r"
      "l' = l\<lparr>uthis := (uthis l)
               \<lparr>arrayStore := (arrayStore (uthis l))[a := (array_at (arrayStore (uthis l)) a)
                    \<lparr>replaceCount := Suc (replaceCount (array_at (arrayStore (uthis l)) a))\<rparr>],
                nodes := replaceNode (nodes (uthis l)) q n r\<rparr>\<rparr>"
  | (skip) "l' = l"
proof (cases "ntype (node_at (nodes (uthis l)) n) \<in> scopeTypes")
  case True
  with assms obtain sc where "uscope l = Some sc"
    "l' = l\<lparr>uscope := map_of (children (scope_at (scopeStore (uthis l)) sc)) n\<rparr>"
    by (auto simp: unpack_enter_def Let_def split: option.splits)
  then show ?thesis by (rule scope)
next
  case nst: False
  show ?thesis
  proof (cases "isSimpleArrayAccess (nodes (uthis l)) n")
    case False
    with nst assms have "l' = l" by (simp add: unpack_enter_def Let_def)
    then show ?thesis by (rule skip)
  next
    case True
    with nst assms obtain sc where sc: "uscope l = Some sc"
      by (auto simp: unpack_enter_def Let_def split: option.splits)
    show ?thesis
    proof (cases "get (scopeStore (uthis l)) sc (child_name (nodes (uthis l)) n ''object'')")
      case None
      with nst True sc assms show ?thesis by (simp add: unpack_enter_def Let_def)
    next
      case (Some g)
      show ?thesis
      proof (cases g)
        case None
        with Some nst True sc assms have "l' = l" by (simp add: unpack_enter_def Let_def)
        then show ?thesis by (rule skip)
      next
        case (Some a)
        note a = \<open>get (scopeStore (uthis l)) sc (child_name (nodes (uthis l)) n ''object'') = Some g\<close>[unfolded Some]
        show ?thesis
        proof (cases "js_index (array_elements (array_at (arrayStore (uthis l)) a))
                        (expression_value (nodes (uthis l)) n)")
          case None
          with a nst True sc assms have "l' = l" by (simp add: unpack_enter_def Let_def)
          then show ?thesis by (rule skip)
        next
          case (Some r)
          with a nst True sc assms obtain q where q: "p = Some q"
            by (auto simp: unpack_enter_def Let_def split: option.splits)
          with Some a nst True sc assms have
            "l' = l\<lparr>uthis := (uthis l)
               \<lparr>arrayStore := (arrayStore (uthis l))[a := (array_at (arrayStore (uthis l)) a)
                    \<lparr>replaceCount := Suc (replaceCount (array_at (arrayStore (uthis l)) a))\<rparr>],
                nodes := replaceNode (nodes (uthis l)) q n r\<rparr>\<rparr>"
            by (simp add: unpack_enter_def Let_def)
          from rewrite[OF sc q a Some this] show ?thesis .
        qed
      qed
    qed
  qed
qed

lemma unpack_leave_cases:
  assumes "unpack_leave n l = Some (Inr l')"
  obtains (up) q where "l' = l\<lparr>uscope := Some q\<rparr>" | (stay) "l' = l"
  using assms by (auto simp: unpack_leave_def Let_def split: option.splits if_splits)

lemma js_index_in_store:
  assumes "js_index (array_elements (array_at D a)) q = Some r"
  shows "a < length D \<and> Some r \<in> set (array_elements (D ! a))"
proof -
  from js_index_mem[OF assms] have m: "Some r \<in> set (array_elements (array_at D a))" .
  then have "a < length D" by (rule_tac ccontr) (simp add: array_at_def new_Array_def)
  with m show ?thesis by (simp add: array_at_def)
qed

lemma unpack_enter_inv:
  assumes inv: "unpack_inv L Lv l" and step: "unpack_enter n p l = Some (Inr l')"
  shows "unpack_inv L Lv l'"
  using step
proof (cases rule: unpack_enter_cases)
  case (scope sc)
  with inv show ?thesis by (simp add: unpack_inv_def)
next
  case (rewrite sc a r q)
  from inv have pi: "pass_inv L Lv (uthis l)" by (simp add: unpack_inv_def)
  let ?D = "arrayStore (uthis l)"
  let ?A = "nodes (uthis l)"
  from js_index_in_store[OF rewrite(4)] have a: "a < length ?D" and m: "Some r \<in> set (array_elements (?D ! a))"
    by simp_all
  from a have "?D ! a \<in> set ?D" by simp
  from pass_inv_elements[OF pi this m] have r: "r < L" "r \<in> Lv" by simp_all
  from pi r have rl: "r < length ?A" "children_of ?A r = []" by (simp_all add: pass_inv_def)
  from pi have wf: "wf_ast ?A" by (simp add: pass_inv_def)
  let ?D' = "?D[a := (array_at ?D a)\<lparr>replaceCount := Suc (replaceCount (array_at ?D a))\<rparr>]"
  have D: "\<forall>d\<in>set ?D'. \<forall>e. Some e \<in> set (array_elements d) \<longrightarrow> e < L \<and> e \<in> Lv"
  proof (intro ballI allI impI)
    fix d e assume d: "d \<in> set ?D'" and e: "Some e \<in> set (array_elements d)"
    from d set_update_subset_insert[of ?D a] consider "d \<in> set ?D"
      | "d = (array_at ?D a)\<lparr>replaceCount := Suc (replaceCount (array_at ?D a))\<rparr>" by blast
    then show "e < L \<and> e \<in> Lv"
    proof cases
      case 1
      from pass_inv_elements[OF pi 1 e] show ?thesis .
    next
      case 2
      with e a have "Some e \<in> set (array_elements (?D ! a))" by (simp add: array_at_def)
      from pass_inv_elements[OF pi \<open>?D ! a \<in> set ?D\<close> this] show ?thesis .
    qed
  qed
  have 1: "pass_inv L Lv ((uthis l)\<lparr>arrayStore := ?D'\<rparr>)"
    by (rule pass_inv_arrayStore[OF pi D])
  have 2: "pass_inv L Lv ((uthis l)\<lparr>arrayStore := ?D', nodes := replaceNode ?A q n r\<rparr>)"
    using pass_inv_nodes[OF 1, of "replaceNode ?A q n r"] wf_ast_replaceNode[OF wf rl] pi
    by (simp add: leaf_replaceNode pass_inv_def)
  then show ?thesis unfolding rewrite(5) by (simp add: unpack_inv_def)
next
  case skip
  with inv show ?thesis by simp
qed

lemma unpack_leave_inv:
  assumes inv: "unpack_inv L Lv l" and step: "unpack_leave n l = Some (Inr l')"
  shows "unpack_inv L Lv l'"
  using step inv by (cases rule: unpack_leave_cases) (simp_all add: unpack_inv_def)

abbreviation find_visitor :: "find_locals visitor" where
  "find_visitor \<equiv> \<lparr>enter = find_enter, leave = find_leave\<rparr>"

abbreviation unpack_visitor :: "unpack_locals visitor" where
  "unpack_visitor \<equiv> \<lparr>enter = unpack_enter, leave = unpack_leave\<rparr>"

lemma pass_inv_global: "pass_inv L Lv s \<Longrightarrow> globalScope s < length (scopeStore s)"
  unfolding pass_inv_def by blast

lemma pass_inv_wf_scopes: "pass_inv L Lv s \<Longrightarrow> wf_scopes (scopeStore s)"
  unfolding pass_inv_def by blast

definition find_rel :: "ArrayUnpacker \<Rightarrow> find_locals \<Rightarrow> bool" where
  "find_rel self l =
     (nodes (fthis l) = nodes self \<and> ast (fthis l) = ast self \<and>
      globalScope (fthis l) = globalScope self \<and>
      shouldRemoveArrays (fthis l) = shouldRemoveArrays self \<and>
      arrayNodes self \<subseteq> arrayNodes (fthis l) \<and>
      arrayNodes (fthis l) \<subseteq> arrayNodes self \<union> {..<length (nodes self)} \<and>
      (foundArrays l \<longrightarrow> arrayNodes (fthis l) \<noteq> arrayNodes self) \<and>
      (\<not> foundArrays l \<longrightarrow> arrayNodes (fthis l) = arrayNodes self \<and> arrayStore (fthis l) = arrayStore self))"

lemma find_enter_rel:
  assumes rel: "find_rel self l" and step: "find_enter n p l = Some (Inr l')"
  shows "find_rel self l'"
  using step
proof (cases rule: find_enter_cases)
  case scope
  with rel show ?thesis by (simp add: find_rel_def)
next
  case found
  from found(2) rel have "n < length (nodes self)"
    using isLiteralArrayDeclaration_in_range by (simp add: find_rel_def)
  moreover from found(3) rel have "n \<notin> arrayNodes self" by (auto simp: find_rel_def)
  ultimately show ?thesis using rel unfolding found(4) by (auto simp: find_rel_def)
next
  case skip
  with rel show ?thesis by simp
qed

lemma find_leave_rel:
  assumes rel: "find_rel self l" and step: "find_leave n l = Some (Inr l')"
  shows "find_rel self l'"
  using step rel by (cases rule: find_leave_cases) (simp_all add: find_rel_def)

lemma findArrays_Inr:
  assumes "findArrays f self = Some (Inr (found, s1))"
  obtains l where
    "traverse f (nodes \<circ> fthis) (ast self) find_visitor
       \<lparr>fthis = self, fscope = globalScope self, foundArrays = False\<rparr> = Some (Inr l)"
    "found = foundArrays l" "s1 = fthis l"
  using assms by (auto simp: findArrays_def split: option.splits sum.splits)

lemma findArrays_rel:
  assumes "findArrays f self = Some (Inr (found, s1))"
  shows "nodes s1 = nodes self \<and> ast s1 = ast self \<and> globalScope s1 = globalScope self \<and>
         shouldRemoveArrays s1 = shouldRemoveArrays self \<and>
         arrayNodes self \<subseteq> arrayNodes s1 \<and>
         arrayNodes s1 \<subseteq> arrayNodes self \<union> {..<length (nodes self)} \<and>
         (found \<longrightarrow> arrayNodes s1 \<noteq> arrayNodes self) \<and>
         (\<not> found \<longrightarrow> arrayNodes s1 = arrayNodes self \<and> arrayStore s1 = arrayStore self)"
proof -
  from assms obtain l where
    t: "traverse f (nodes \<circ> fthis) (ast self) find_visitor
       \<lparr>fthis = self, fscope = globalScope self, foundArrays = False\<rparr> = Some (Inr l)"
    and l: "found = foundArrays l" "s1 = fthis l" by (rule findArrays_Inr)
  have "find_rel self l"
  proof (rule traverse_invariant[of "find_rel self" find_visitor _ f "nodes \<circ> fthis" "ast self" l])
    show "\<And>n p s s'. find_rel self s \<Longrightarrow> enter find_visitor n p s = Some (Inr s') \<Longrightarrow> find_rel self s'"
      using find_enter_rel by simp
    show "\<And>n s s'. find_rel self s \<Longrightarrow> leave find_visitor n s = Some (Inr s') \<Longrightarrow> find_rel self s'"
      using find_leave_rel by simp
    show "find_rel self \<lparr>fthis = self, fscope = globalScope self, foundArrays = False\<rparr>"
      by (simp add: find_rel_def)
    show "traverse f (nodes \<circ> fthis) (ast self) find_visitor
       \<lparr>fthis = self, fscope = globalScope self, foundArrays = False\<rparr> = Some (Inr l)" by (rule t)
  qed
  then show ?thesis unfolding l find_rel_def by simp
qed

lemma findArrays_inv:
  assumes "findArrays f self = Some (Inr (found, s1))" and pi: "pass_inv L Lv self"
  shows "pass_inv L Lv s1"
proof -
  from assms(1) obtain l where
    t: "traverse f (nodes \<circ> fthis) (ast self) find_visitor
       \<lparr>fthis = self, fscope = globalScope self, foundArrays = False\<rparr> = Some (Inr l)"
    and l: "found = foundArrays l" "s1 = fthis l" by (rule findArrays_Inr)
  have "find_inv L Lv l"
  proof (rule traverse_invariant[of "find_inv L Lv" find_visitor _ f "nodes \<circ> fthis" "ast self" l])
    show "\<And>n p s s'. find_inv L Lv s \<Longrightarrow> enter find_visitor n p s = Some (Inr s') \<Longrightarrow> find_inv L Lv s'"
      using find_enter_inv by simp
    show "\<And>n s s'. find_inv L Lv s \<Longrightarrow> leave find_visitor n s = Some (Inr s') \<Longrightarrow> find_inv L Lv s'"
      using find_leave_inv by simp
    show "find_inv L Lv \<lparr>fthis = self, fscope = globalScope self, foundArrays = False\<rparr>"
      using pi pass_inv_global[OF pi] by (simp add: find_inv_def)
    show "traverse f (nodes \<circ> fthis) (ast self) find_visitor
       \<lparr>fthis = self, fscope = globalScope self, foundArrays = False\<rparr> = Some (Inr l)" by (rule t)
  qed
  then show ?thesis unfolding l by (simp add: find_inv_def)
qed

lemma findArrays_returns:
  assumes pi: "pass_inv L Lv self" and f: "L < f"
  shows "\<exists>r. findArrays f self = Some r"
proof -
  have "\<exists>r. traverse_node f (nodes \<circ> fthis) find_visitor (ast self) None
          \<lparr>fthis = self, fscope = globalScope self, foundArrays = False\<rparr> = Some r"
  proof (rule traverse_node_returns[of "find_inv L Lv" find_visitor Lv "nodes \<circ> fthis" L])
    show "\<And>n p s. find_inv L Lv s \<Longrightarrow> \<exists>r. enter find_visitor n p s = Some r"
      using find_enter_total by simp
    show "\<And>n s. find_inv L Lv s \<Longrightarrow> \<exists>r. leave find_visitor n s = Some r"
      using find_leave_total by simp
    show "\<And>n p s s'. find_inv L Lv s \<Longrightarrow> enter find_visitor n p s = Some (Inr s') \<Longrightarrow> find_inv L Lv s'"
      using find_enter_inv by simp
    show "\<And>n s s'. find_inv L Lv s \<Longrightarrow> leave find_visitor n s = Some (Inr s') \<Longrightarrow> find_inv L Lv s'"
      using find_leave_inv by simp
    show "\<And>s n. find_inv L Lv s \<Longrightarrow> n \<in> Lv \<Longrightarrow> children_of ((nodes \<circ> fthis) s) n = []"
      by (auto simp: find_inv_def intro: pass_inv_leaf)
    show "\<And>s n. find_inv L Lv s \<Longrightarrow> n \<notin> Lv \<Longrightarrow> n < L"
      by (auto simp: find_inv_def intro: pass_inv_inner)
    show "\<And>s n c. find_inv L Lv s \<Longrightarrow> c \<in> set (children_of ((nodes \<circ> fthis) s) n) \<Longrightarrow> c \<in> Lv \<or> n < c"
      using pass_inv_edge unfolding find_inv_def by fastforce
    show "find_inv L Lv \<lparr>fthis = self, fscope = globalScope self, foundArrays = False\<rparr>"
      using pi pass_inv_global[OF pi] by (simp add: find_inv_def)
    show "0 < f \<and> (ast self \<in> Lv \<or> L < f + ast self)" using f by simp
  qed
  then show ?thesis by (auto simp: findArrays_def traverse_def split: sum.splits)
qed

definition unpack_rel :: "ArrayUnpacker \<Rightarrow> unpack_locals \<Rightarrow> bool" where
  "unpack_rel self l =
     (ast (uthis l) = ast self \<and> globalScope (uthis l) = globalScope self \<and>
      shouldRemoveArrays (uthis l) = shouldRemoveArrays self \<and>
      scopeStore (uthis l) = scopeStore self \<and> arrayNodes (uthis l) = arrayNodes self \<and>
      length (arrayStore (uthis l)) = length (arrayStore self))"

lemma unpack_enter_rel:
  assumes rel: "unpack_rel self l" and step: "unpack_enter n p l = Some (Inr l')"
  shows "unpack_rel self l'"
  using step rel by (cases rule: unpack_enter_cases) (simp_all add: unpack_rel_def)

lemma unpack_leave_rel:
  assumes rel: "unpack_rel self l" and step: "unpack_leave n l = Some (Inr l')"
  shows "unpack_rel self l'"
  using step rel by (cases rule: unpack_leave_cases) (simp_all add: unpack_rel_def)

lemma unpackArrays_Inr:
  assumes "unpackArrays f self = Some (Inr s1)"
  obtains l where
    "traverse f (nodes \<circ> uthis) (ast self) unpack_visitor
       \<lparr>uthis = self, uscope = Some (globalScope self)\<rparr> = Some (Inr l)"
    "s1 = uthis l"
  using assms by (auto simp: unpackArrays_def split: option.splits sum.splits)

lemma unpackArrays_rel:
  assumes "unpackArrays f self = Some (Inr s1)"
  shows "ast s1 = ast self \<and> globalScope s1 = globalScope self \<and>
         shouldRemoveArrays s1 = shouldRemoveArrays self \<and>
         scopeStore s1 = scopeStore self \<and> arrayNodes s1 = arrayNodes self \<and>
         length (arrayStore s1) = length (arrayStore self)"
proof -
  from assms obtain l where
    t: "traverse f (nodes \<circ> uthis) (ast self) unpack_visitor
       \<lparr>uthis = self, uscope = Some (globalScope self)\<rparr> = Some (Inr l)"
    and l: "s1 = uthis l" by (rule unpackArrays_Inr)
  have "unpack_rel self l"
  proof (rule traverse_invariant[of "unpack_rel self" unpack_visitor _ f "nodes \<circ> uthis" "ast self" l])
    show "\<And>n p s s'. unpack_rel self s \<Longrightarrow> enter unpack_visitor n p s = Some (Inr s') \<Longrightarrow> unpack_rel self s'"
      using unpack_enter_rel by simp
    show "\<And>n s s'. unpack_rel self s \<Longrightarrow> leave unpack_visitor n s = Some (Inr s') \<Longrightarrow> unpack_rel self s'"
      using unpack_leave_rel by simp
    show "unpack_rel self \<lparr>uthis = self, uscope = Some (globalScope self)\<rparr>"
      by (simp add: unpack_rel_def)
    show "traverse f (nodes \<circ> uthis) (ast self) unpack_visitor
       \<lparr>uthis = self, uscope = Some (globalScope self)\<rparr> = Some (Inr l)" by (rule t)
  qed
  then show ?thesis unfolding l unpack_rel_def by simp
qed

lemma unpackArrays_inv:
  assumes "unpackArrays f self = Some (Inr s1)" and pi: "pass_inv L Lv self"
  shows "pass_inv L Lv s1"
proof -
  from assms(1) obtain l where
    t: "traverse f (nodes \<circ> uthis) (ast self) unpack_visitor
       \<lparr>uthis = self, uscope = Some (globalScope self)\<rparr> = Some (Inr l)"
    and l: "s1 = uthis l" by (rule unpackArrays_Inr)
  have "unpack_inv L Lv l"
  proof (rule traverse_invariant[of "unpack_inv L Lv" unpack_visitor _ f "nodes \<circ> uthis" "ast self" l])
    show "\<And>n p s s'. unpack_inv L Lv s \<Longrightarrow> enter unpack_visitor n p s = Some (Inr s') \<Longrightarrow> unpack_inv L Lv s'"
      using unpack_enter_inv by simp
    show "\<And>n s s'. unpack_inv L Lv s \<Longrightarrow> leave unpack_visitor n s = Some (Inr s') \<Longrightarrow> unpack_inv L Lv s'"
      using unpack_leave_inv by simp
    show "unpack_inv L Lv \<lparr>uthis = self, uscope = Some (globalScope self)\<rparr>"
      using pi by (simp add: unpack_inv_def)
    show "traverse f (nodes \<circ> uthis) (ast self) unpack_visitor
       \<lparr>uthis = self, uscope = Some (globalScope self)\<rparr> = Some (Inr l)" by (rule t)
  qed
  then show ?thesis unfolding l by (simp add: unpack_inv_def)
qed

lemma unpackArrays_returns:
  assumes pi: "pass_inv L Lv self" and f: "L < f"
  shows "\<exists>r. unpackArrays f self = Some r"
proof -
  have "\<exists>r. traverse_node f (nodes \<circ> uthis) unpack_visitor (ast self) None
          \<lparr>uthis = self, uscope = Some (globalScope self)\<rparr> = Some r"
  proof (rule traverse_node_returns[of "unpack_inv L Lv" unpack_visitor Lv "nodes \<circ> uthis" L])
    show "\<And>n p s. unpack_inv L Lv s \<Longrightarrow> \<exists>r. enter unpack_visitor n p s = Some r"
      using unpack_enter_total pass_inv_wf_scopes by (simp add: unpack_inv_def)
    show "\<And>n s. unpack_inv L Lv s \<Longrightarrow> \<exists>r. leave unpack_visitor n s = Some r"
      using unpack_leave_total by simp
    show "\<And>n p s s'. unpack_inv L Lv s \<Longrightarrow> enter unpack_visitor n p s = Some (Inr s') \<Longrightarrow> unpack_inv L Lv s'"
      using unpack_enter_inv by simp
    show "\<And>n s s'. unpack_inv L Lv s \<Longrightarrow> leave unpack_visitor n s = Some (Inr s') \<Longrightarrow> unpack_inv L Lv s'"
      using unpack_leave_inv by simp
    show "\<And>s n. unpack_inv L Lv s \<Longrightarrow> n \<in> Lv \<Longrightarrow> children_of ((nodes \<circ> uthis) s) n = []"
      by (auto simp: unpack_inv_def intro: pass_inv_leaf)
    show "\<And>s n. unpack_inv L Lv s \<Longrightarrow> n \<notin> Lv \<Longrightarrow> n < L"
      by (auto simp: unpack_inv_def intro: pass_inv_inner)
    show "\<And>s n c. unpack_inv L Lv s \<Longrightarrow> c \<in> set (children_of ((nodes \<circ> uthis) s) n) \<Longrightarrow> c \<in> Lv \<or> n < c"
      using pass_inv_edge unfolding unpack_inv_def by fastforce
    show "unpack_inv L Lv \<lparr>uthis = self, uscope = Some (globalScope self)\<rparr>"
      using pi by (simp add: unpack_inv_def)
    show "0 < f \<and> (ast self \<in> Lv \<or> L < f + ast self)" using f by simp
  qed
  then show ?thesis by (auto simp: unpackArrays_def traverse_def split: sum.splits)
qed

subsection \<open>The loop\<close>

lemma execute_loop_returns:
  assumes "pass_inv L Lv self" and "L < f" and "card ({..<L} - arrayNodes self) < r"
  shows "\<exists>res. execute_loop r f self = Some res"
  using assms
proof (induction r arbitrary: self)
  case 0
  then show ?case by simp
next
  case (Suc r)
  from findArrays_returns[OF Suc.prems(1,2)] obtain x where x: "findArrays f self = Some x" by blast
  show ?case
  proof (cases x)
    case (Inl e)
    with x show ?thesis by simp
  next
    case (Inr fs)
    obtain found s1 where fs: "fs = (found, s1)" by (cases fs)
    note fa = x[unfolded Inr fs]
    show ?thesis
    proof (cases found)
      case False
      with fa show ?thesis by simp
    next
      case True
      from findArrays_inv[OF fa Suc.prems(1)] have pi1: "pass_inv L Lv s1" .
      from Suc.prems(1) have len: "length (nodes self) = L" by (simp add: pass_inv_def)
      from findArrays_rel[OF fa] True len have
        sub: "arrayNodes self \<subseteq> arrayNodes s1" and
        bnd: "arrayNodes s1 \<subseteq> arrayNodes self \<union> {..<L}" and
        ne: "arrayNodes s1 \<noteq> arrayNodes self" by simp_all
      from sub bnd ne obtain n where n: "n \<in> arrayNodes s1" "n \<notin> arrayNodes self" "n < L" by auto
      have "{..<L} - arrayNodes s1 \<subset> {..<L} - arrayNodes self" using sub n by auto
      then have "card ({..<L} - arrayNodes s1) < card ({..<L} - arrayNodes self)"
        by (intro psubset_card_mono) simp_all
      with Suc.prems(3) have m1: "card ({..<L} - arrayNodes s1) < r" by simp
      from unpackArrays_returns[OF pi1 Suc.prems(2)] obtain y where y: "unpackArrays f s1 = Some y"
        by blast
      show ?thesis
      proof (cases y)
        case (Inl e)
        with fa True y show ?thesis by simp
      next
        case inr2: (Inr s2)
        note ua = y[unfolded inr2]
        from unpackArrays_inv[OF ua pi1] have pi2: "pass_inv L Lv s2" .
        from unpackArrays_rel[OF ua] m1 have "card ({..<L} - arrayNodes s2) < r" by simp
        from Suc.IH[OF pi2 Suc.prems(2) this] obtain res where "execute_loop r f s2 = Some res"
          by blast
        with fa True ua show ?thesis by simp
      qed
    qed
  qed
qed

lemma pass_inv_new:
  assumes "wf_ast A"
  shows "pass_inv (length A) {n. children_of A n = []} (new_ArrayUnpacker A rt rm)"
  using assms
  by (simp add: pass_inv_def new_ArrayUnpacker_def new_Scope_def wf_scopes_def)



lemma wf_ast_code [code]:
  "wf_ast A =
     (list_all (\<lambda>p. list_all (\<lambda>c. c < length A \<and> (p < c \<or> children_of A c = [])) (children_of A p))
        [0..<length A] \<and>
      list_all (\<lambda>n. prefix ''Literal'' (ntype (A ! n)) \<longrightarrow> children_of A n = []) [0..<length A])"
  by (auto simp: wf_ast_def list_all_iff)

lemma wf_ast_tree_out_of_range: "wf_ast tree_out_of_range"
  by code_simp


section \<open>Termination of the fixpoint loop\<close>

text \<open>
  Claim C3: for every well-formed tree the loop of \<open>execute\<close>, started by a newly
  constructed pass, comes to its end: given more rounds and more fuel for each walk
  than the tree has nodes, \<open>execute_loop\<close> returns (a pass object, or the error a
  callback raised). The reason is the one the claim gives: a discovery round changes
  no tree node and only adds to the seen-set, every node it adds is a node of the
  tree, and a round that reports a new array has made the seen-set strictly larger.
\<close>

theorem execute_loop_terminates:
  assumes "wf_ast A"
  shows "(\<forall>r f. length A < r \<and> length A < f \<longrightarrow>
            (\<exists>res. execute_loop r f (new_ArrayUnpacker A rt rm) = Some res))
       \<and> (\<forall>f self found s1.
            findArrays f self = Some (Inr (found, s1)) \<longrightarrow>
              nodes s1 = nodes self \<and> arrayNodes self \<subseteq> arrayNodes s1 \<and>
              (arrayNodes self \<subseteq> {..<length (nodes self)} \<longrightarrow> arrayNodes s1 \<subseteq> {..<length (nodes self)}) \<and>
              (found \<longrightarrow> arrayNodes self \<subset> arrayNodes s1))"
proof (intro conjI allI impI)
  fix r f assume rf: "length A < r \<and> length A < f"
  have "card ({..<length A} - arrayNodes (new_ArrayUnpacker A rt rm)) < r"
    using rf by (simp add: new_ArrayUnpacker_def new_Scope_def)
  from execute_loop_returns[OF pass_inv_new[OF assms] _ this] rf
  show "\<exists>res. execute_loop r f (new_ArrayUnpacker A rt rm) = Some res" by blast
next
  fix f self found s1 assume fa: "findArrays f self = Some (Inr (found, s1))"
  from findArrays_rel[OF fa] show "nodes s1 = nodes self" by simp
  from findArrays_rel[OF fa] show "arrayNodes self \<subseteq> arrayNodes s1" by simp
  from findArrays_rel[OF fa] show "found \<Longrightarrow> arrayNodes self \<subset> arrayNodes s1" by auto
  from findArrays_rel[OF fa]
  show "arrayNodes self \<subseteq> {..<length (nodes self)} \<Longrightarrow> arrayNodes s1 \<subseteq> {..<length (nodes self)}"
    by blast
qed

theorem execute_loop_terminates_witness:
  "wf_ast tree_out_of_range \<and> length tree_out_of_range < 13 \<and>
   (\<exists>res. execute_loop 13 13 (new_ArrayUnpacker tree_out_of_range 0 True) = Some res)"
proof -
  have len: "length tree_out_of_range < 13" by (simp add: tree_out_of_range_def)
  from execute_loop_terminates[OF wf_ast_tree_out_of_range, of 0 True] len
  show ?thesis using wf_ast_tree_out_of_range by blast
qed


section \<open>The Scope tree of a run\<close>

text \<open>
  The shape of the Scope store of a pass: the root has kind Other and no parent; every
  other Scope has kind Other and exactly one parent, a Scope constructed before it.
\<close>

definition scope_tree :: "'a scopes \<Rightarrow> nat \<Rightarrow> bool" where
  "scope_tree H g =
     (g < length H \<and> type (H ! g) = Other \<and> parent (H ! g) = None \<and>
      (\<forall>i<length H. i \<noteq> g \<longrightarrow> type (H ! i) = Other \<and> (\<exists>p<i. parent (H ! i) = Some p)))"

lemma scope_tree_new_Scope:
  assumes "scope_tree H g" "p < length H"
  shows "scope_tree (fst (new_Scope H n Other (Some p))) g"
  using assms
  by (auto simp: new_Scope_Some scope_tree_def nth_list_update nth_append scope_at_def
      less_Suc_eq split: if_splits)

lemma scope_tree_elements_set:
  assumes "scope_tree H g"
  shows "scope_tree (elements_set H s name v) g"
  using assms
  by (auto simp: elements_set_def scope_tree_def nth_list_update scope_at_def split: if_splits)

definition find_tree :: "nat \<Rightarrow> find_locals \<Rightarrow> bool" where
  "find_tree g l =
     (scope_tree (scopeStore (fthis l)) g \<and> globalScope (fthis l) = g \<and>
      fscope l < length (scopeStore (fthis l)))"

lemma find_enter_tree:
  assumes inv: "find_tree g l" and step: "find_enter n p l = Some (Inr l')"
  shows "find_tree g l'"
  using step
proof (cases rule: find_enter_cases)
  case scope
  from inv have "scope_tree (scopeStore (fthis l)) g" "fscope l < length (scopeStore (fthis l))"
    by (simp_all add: find_tree_def)
  from scope_tree_new_Scope[OF this] inv show ?thesis
    unfolding scope(2) by (simp add: find_tree_def length_new_Scope)
next
  case found
  from inv have "scope_tree (scopeStore (fthis l)) g" by (simp add: find_tree_def)
  from scope_tree_elements_set[OF this] inv show ?thesis
    unfolding found(4) by (simp add: find_tree_def length_elements_set)
next
  case skip
  with inv show ?thesis by simp
qed

lemma find_leave_tree:
  assumes inv: "find_tree g l" and step: "find_leave n l = Some (Inr l')"
  shows "find_tree g l'"
  using step
proof (cases rule: find_leave_cases)
  case (up q)
  from inv have t: "scope_tree (scopeStore (fthis l)) g" and r: "fscope l < length (scopeStore (fthis l))"
    by (simp_all add: find_tree_def)
  from up(1) r have pq: "parent (scopeStore (fthis l) ! fscope l) = Some q" by (simp add: scope_at_def)
  with t have "fscope l \<noteq> g" by (auto simp: scope_tree_def)
  with t r pq have "q < fscope l" by (auto simp: scope_tree_def)
  with inv up(2) r show ?thesis by (simp add: find_tree_def)
next
  case stay
  with inv show ?thesis by simp
qed

lemma findArrays_tree:
  assumes fa: "findArrays f self = Some (Inr (found, s1))"
    and t: "scope_tree (scopeStore self) (globalScope self)"
  shows "scope_tree (scopeStore s1) (globalScope s1)"
proof -
  from fa obtain l where
    tr: "traverse f (nodes \<circ> fthis) (ast self) find_visitor
       \<lparr>fthis = self, fscope = globalScope self, foundArrays = False\<rparr> = Some (Inr l)"
    and l: "found = foundArrays l" "s1 = fthis l" by (rule findArrays_Inr)
  have "find_tree (globalScope self) l"
  proof (rule traverse_invariant[of "find_tree (globalScope self)" find_visitor _ f "nodes \<circ> fthis" "ast self" l])
    show "\<And>n p s s'. find_tree (globalScope self) s \<Longrightarrow> enter find_visitor n p s = Some (Inr s')
            \<Longrightarrow> find_tree (globalScope self) s'"
      using find_enter_tree by simp
    show "\<And>n s s'. find_tree (globalScope self) s \<Longrightarrow> leave find_visitor n s = Some (Inr s')
            \<Longrightarrow> find_tree (globalScope self) s'"
      using find_leave_tree by simp
    show "find_tree (globalScope self) \<lparr>fthis = self, fscope = globalScope self, foundArrays = False\<rparr>"
      using t by (simp add: find_tree_def scope_tree_def)
    show "traverse f (nodes \<circ> fthis) (ast self) find_visitor
       \<lparr>fthis = self, fscope = globalScope self, foundArrays = False\<rparr> = Some (Inr l)" by (rule tr)
  qed
  then show ?thesis unfolding l by (simp add: find_tree_def)
qed

lemma execute_loop_tree:
  "execute_loop r f self = Some (Inr s) \<Longrightarrow> scope_tree (scopeStore self) (globalScope self) \<Longrightarrow>
   scope_tree (scopeStore s) (globalScope s)"
proof (induction r arbitrary: self)
  case 0
  then show ?case by simp
next
  case (Suc r)
  from Suc.prems(1) obtain found s1 where fa: "findArrays f self = Some (Inr (found, s1))"
    by (auto split: option.splits sum.splits)
  from findArrays_tree[OF fa Suc.prems(2)] have t1: "scope_tree (scopeStore s1) (globalScope s1)" .
  show ?case
  proof (cases found)
    case False
    with Suc.prems(1) fa t1 show ?thesis by simp
  next
    case True
    with Suc.prems(1) fa obtain s2 where ua: "unpackArrays f s1 = Some (Inr s2)"
      and rest: "execute_loop r f s2 = Some (Inr s)"
      by (auto split: option.splits sum.splits)
    from unpackArrays_rel[OF ua] t1 have "scope_tree (scopeStore s2) (globalScope s2)" by simp
    from Suc.IH[OF rest this] show ?thesis .
  qed
qed

text \<open>The cleanup changes tree nodes only.\<close>

lemma remove_elements_frame:
  "remove_elements as self = Inr s \<Longrightarrow>
   scopeStore s = scopeStore self \<and> globalScope s = globalScope self \<and>
   arrayStore s = arrayStore self \<and> arrayNodes s = arrayNodes self"
proof (induction as arbitrary: self)
  case Nil
  then show ?case by simp
next
  case (Cons a as)
  show ?case
  proof (cases "replaceCount (array_at (arrayStore self) a) > 0")
    case False
    with Cons show ?thesis by simp
  next
    case True
    with Cons.prems obtain q where q: "parentNode (array_at (arrayStore self) a) = Some q"
      by (auto split: option.splits)
    with True Cons.prems have
      "remove_elements as (self\<lparr>nodes := removeNode (nodes self) q (array_node (array_at (arrayStore self) a))\<rparr>) = Inr s"
      by simp
    from Cons.IH[OF this] show ?thesis by simp
  qed
qed

lemma removeArrays_children_frame:
  assumes nd: "\<And>self sc s. removeArrays f self sc = Some (Inr s) \<Longrightarrow>
     scopeStore s = scopeStore self \<and> globalScope s = globalScope self \<and>
     arrayStore s = arrayStore self \<and> arrayNodes s = arrayNodes self"
  shows "removeArrays_children f self cs = Some (Inr s) \<Longrightarrow>
     scopeStore s = scopeStore self \<and> globalScope s = globalScope self \<and>
     arrayStore s = arrayStore self \<and> arrayNodes s = arrayNodes self"
proof (induction cs arbitrary: self)
  case Nil
  then show ?case by simp
next
  case (Cons c cs)
  from Cons.prems obtain s1 where s1: "removeArrays f self c = Some (Inr s1)"
    and r: "removeArrays_children f s1 cs = Some (Inr s)"
    by (auto split: option.splits sum.splits)
  from nd[OF s1] Cons.IH[OF r] show ?case by simp
qed

lemma removeArrays_frame:
  "removeArrays f self sc = Some (Inr s) \<Longrightarrow>
     scopeStore s = scopeStore self \<and> globalScope s = globalScope self \<and>
     arrayStore s = arrayStore self \<and> arrayNodes s = arrayNodes self"
proof (induction f arbitrary: self sc s)
  case 0
  then show ?case by simp
next
  case (Suc f)
  from Suc.prems obtain s1 where
    s1: "remove_elements (map snd (elements (scope_at (scopeStore self) sc))) self = Inr s1"
    and r: "removeArrays_children f s1 (map snd (children (scope_at (scopeStore self) sc))) = Some (Inr s)"
    by (auto split: sum.splits)
  from remove_elements_frame[OF s1] removeArrays_children_frame[of f s1 _ s, OF Suc.IH r]
  show ?case by simp
qed

lemma scope_tree_new: "scope_tree (scopeStore (new_ArrayUnpacker A rt rm)) (globalScope (new_ArrayUnpacker A rt rm))"
  by (simp add: new_ArrayUnpacker_def new_Scope_def scope_tree_def)


text \<open>
  The pass object at the end of the run on \<^verbatim>\<open>{ const a = [1, 2]; a[0]; }\<close> with
  cleanup enabled. Scope 1 is the Scope of the block as the first discovery round
  constructed it, Scope 2 the one the second round constructed in its place.
\<close>

definition final_block :: ArrayUnpacker where
  "final_block =
     \<lparr>nodes = tree_block_after,
      scopeStore =
        [\<lparr>node = 0, type = Other, parent = None, children = [(2, 2)], elements = []\<rparr>,
         \<lparr>node = 2, type = Other, parent = Some 0, children = [], elements = [(''a'', 0)]\<rparr>,
         \<lparr>node = 2, type = Other, parent = Some 0, children = [], elements = []\<rparr>],
      arrayStore =
        [\<lparr>array_node = 5, parentNode = Some 4, array_name = ''a'',
          array_elements = [Some 8, Some 9], replaceCount = 1\<rparr>],
      ast = 0, shouldRemoveArrays = True, globalScope = 0, arrayNodes = {5}\<rparr>"

definition found_flag :: "(error + bool \<times> ArrayUnpacker) option \<Rightarrow> bool option" where
  "found_flag r = (case r of Some (Inr (b, s)) \<Rightarrow> Some b | _ \<Rightarrow> None)"


lemma execute_tree_block:
  "execute 3 8 (new_ArrayUnpacker tree_block 0 True) = Some (Inr final_block)"
  by code_simp


text \<open>
  Claim C4, as the code has it. The claim says that the root Scope of a pass run has
  kind Global. The constructor of the pass gives the root Scope the kind Other, and
  it has that kind at the end of a run.
\<close>

theorem root_scope_kind_counterexample:
  "type (scope_at (scopeStore (new_ArrayUnpacker tree_block 0 True))
          (globalScope (new_ArrayUnpacker tree_block 0 True))) = Other \<and>
   execute 3 8 (new_ArrayUnpacker tree_block 0 True) = Some (Inr final_block) \<and>
   type (scope_at (scopeStore final_block) (globalScope final_block)) = Other"
  by (simp add: execute_tree_block)
     (simp add: new_ArrayUnpacker_def new_Scope_def scope_at_def final_block_def)


text \<open>
  Claim C4, amended: in the Scope store at the end of every run of a newly constructed
  pass, the root Scope has kind Other and no parent, and every other Scope has kind
  Other and exactly one parent, a Scope constructed before it; and constructing a
  Scope with a parent sets, in the parent's \<open>children\<close>, the opening node to the new
  Scope.
\<close>

theorem scope_tree_of_run:
  assumes "execute r f (new_ArrayUnpacker A rt rm) = Some (Inr s)"
  shows "scope_tree (scopeStore s) (globalScope s) \<and>
         (\<forall>H :: nat scopes. \<forall>n t p. p < length H \<longrightarrow>
            map_of (children (scope_at (fst (new_Scope H n t (Some p))) p)) n
              = Some (snd (new_Scope H n t (Some p))) \<and>
            parent (scope_at (fst (new_Scope H n t (Some p))) (snd (new_Scope H n t (Some p)))) = Some p)"
proof
  from assms obtain s1 where loop: "execute_loop r f (new_ArrayUnpacker A rt rm) = Some (Inr s1)"
    and fin: "(if shouldRemoveArrays s1 then removeArrays f s1 (globalScope s1) else Some (Inr s1)) = Some (Inr s)"
    by (auto simp: execute_def split: option.splits sum.splits)
  from execute_loop_tree[OF loop scope_tree_new] have t1: "scope_tree (scopeStore s1) (globalScope s1)" .
  show "scope_tree (scopeStore s) (globalScope s)"
  proof (cases "shouldRemoveArrays s1")
    case True
    with fin have "removeArrays f s1 (globalScope s1) = Some (Inr s)" by simp
    from removeArrays_frame[OF this] t1 show ?thesis by simp
  next
    case False
    with fin t1 show ?thesis by simp
  qed
next
  show "\<forall>H :: nat scopes. \<forall>n t p. p < length H \<longrightarrow>
            map_of (children (scope_at (fst (new_Scope H n t (Some p))) p)) n
              = Some (snd (new_Scope H n t (Some p))) \<and>
            parent (scope_at (fst (new_Scope H n t (Some p))) (snd (new_Scope H n t (Some p)))) = Some p"
    by (auto simp: new_Scope_Some scope_at_def nth_append update_conv')
qed

theorem scope_tree_of_run_witness:
  "execute 3 8 (new_ArrayUnpacker tree_block 0 True) = Some (Inr final_block) \<and>
   scope_tree (scopeStore final_block) (globalScope final_block) \<and>
   (0::nat) < length (scopeStore final_block) \<and>
   map_of (children (scope_at (fst (new_Scope (scopeStore final_block) 7 Other (Some 0))) 0)) 7
     = Some (snd (new_Scope (scopeStore final_block) 7 Other (Some 0)))"
proof -
  have len: "(0::nat) < length (scopeStore final_block)" by (simp add: final_block_def)
  from scope_tree_of_run[OF execute_tree_block] len execute_tree_block
  show ?thesis by blast
qed


section \<open>Runs on the example trees\<close>

text \<open>
  Claim C9 at \<^verbatim>\<open>{ const a = [1, 2]; a[0]; }\<close> with cleanup enabled. The first
  discovery round records \<open>a\<close> in the Scope of the block, and the rewrite inlines
  \<open>a[0]\<close>: the descriptor's counter is 1. The second discovery round, which finds
  nothing and ends the loop, constructs a new Scope for the block and sets it in the
  root's \<open>children\<close> in place of the first, so the Scope tree that \<open>removeArrays\<close>
  walks holds no descriptor: the run ends with the declarator 5 still among the
  declarators of node 4.
\<close>


theorem removeArrays_misses_nested:
  "result_nodes (execute 3 8 (new_ArrayUnpacker tree_block 0 True)) = Some tree_block_after \<and>
   result_arrays (execute 3 8 (new_ArrayUnpacker tree_block 0 True)) =
     Some [\<lparr>array_node = 5, parentNode = Some 4, array_name = ''a'',
            array_elements = [Some 8, Some 9], replaceCount = 1\<rparr>] \<and>
   field (node_at tree_block_after 4) ''declarators'' = FList [Some 5]"
  by (simp add: execute_tree_block result_nodes_def result_arrays_def)
     (simp add: final_block_def tree_block_after_def tree_block_def tree_defs)


section \<open>Running the pass again on the same object\<close>

subsection \<open>What \<open>replaceNode\<close> and \<open>removeNode\<close> do to the children\<close>

definition kids :: "(string \<times> fval) list \<Rightarrow> nat list" where
  "kids fs = concat (map (fval_children \<circ> snd) fs)"

lemma children_of_kids: "children_of A n = kids (nfields (node_at A n))"
  by (simp add: children_of_def kids_def)

lemma kids_Cons: "kids ((k, v) # fs) = fval_children v @ kids fs"
  by (simp add: kids_def)

lemma remove_in_list_Some:
  "remove_in_list old cs = Some cs' \<Longrightarrow>
   List.map_filter id cs' = remove1 old (List.map_filter id cs) \<and> old \<in> set (List.map_filter id cs)"
proof (induction cs arbitrary: cs')
  case Nil
  then show ?case by simp
next
  case (Cons c cs)
  show ?case
  proof (cases "c = Some old")
    case True
    with Cons.prems show ?thesis by (auto simp: List.map_filter_simps)
  next
    case False
    with Cons.prems obtain ds where ds: "remove_in_list old cs = Some ds" "cs' = c # ds"
      by auto
    from Cons.IH[OF ds(1)] ds(2) False show ?thesis
      by (cases c) (auto simp: List.map_filter_simps)
  qed
qed

lemma remove_in_list_None:
  "remove_in_list old cs = None \<Longrightarrow> old \<notin> set (List.map_filter id cs)"
proof (induction cs)
  case Nil
  then show ?case by (simp add: List.map_filter_simps)
next
  case (Cons c cs)
  then show ?case by (cases c) (auto simp: List.map_filter_simps split: if_splits)
qed

lemma remove_in_fields_None:
  "remove_in_fields old fs = None \<Longrightarrow> old \<notin> set (kids fs)"
proof (induction fs)
  case Nil
  then show ?case by (simp add: kids_def)
next
  case (Cons kv fs)
  obtain k v where kv: "kv = (k, v)" by (cases kv)
  from Cons.prems have rest: "remove_in_fields old fs = None"
    unfolding kv by (auto split: option.splits)
  from Cons.prems have "old \<notin> set (fval_children v)"
    unfolding kv by (cases v) (auto split: option.splits if_splits dest: remove_in_list_None)
  with Cons.IH[OF rest] show ?case unfolding kv by (simp add: kids_Cons)
qed

lemma remove_in_fields_Some:
  "remove_in_fields old fs = Some fs' \<Longrightarrow>
   kids fs' = remove1 old (kids fs) \<and> old \<in> set (kids fs) \<and> map fst fs' = map fst fs"
proof (induction fs arbitrary: fs')
  case Nil
  then show ?case by simp
next
  case (Cons kv fs)
  obtain k v where kv: "kv = (k, v)" by (cases kv)
  let ?here = "(case v of FNode c \<Rightarrow> (if c = old then Some FNull else None)
                 | FList cs \<Rightarrow> map_option FList (remove_in_list old cs) | _ \<Rightarrow> None)"
  show ?case
  proof (cases ?here)
    case None
    with Cons.prems obtain gs where gs: "remove_in_fields old fs = Some gs" "fs' = (k, v) # gs"
      unfolding kv by auto
    from None have nothere: "old \<notin> set (fval_children v)"
      by (cases v) (auto split: if_splits dest: remove_in_list_None)
    from Cons.IH[OF gs(1)] nothere show ?thesis
      unfolding kv gs(2) by (simp add: kids_Cons remove1_append)
  next
    case (Some v')
    with Cons.prems have fs': "fs' = (k, v') # fs" unfolding kv by simp
    from Some have "fval_children v' = remove1 old (fval_children v) \<and> old \<in> set (fval_children v)"
      by (cases v) (auto split: if_splits dest: remove_in_list_Some)
    then show ?thesis unfolding kv fs' by (simp add: kids_Cons remove1_append)
  qed
qed

lemma length_removeNode [simp]: "length (removeNode A p d) = length A"
  by (simp add: removeNode_def split: option.splits)

lemma node_at_removeNode:
  "node_at (removeNode A p d) m =
     (if m = p \<and> p < length A
      then (case remove_in_fields d (nfields (node_at A p)) of
              None \<Rightarrow> node_at A p
            | Some fs \<Rightarrow> (node_at A p)\<lparr>nfields := fs\<rparr>)
      else node_at A m)"
  by (auto simp: removeNode_def node_at_def split: option.splits)

lemma ntype_removeNode [simp]: "ntype (node_at (removeNode A p d) m) = ntype (node_at A m)"
  by (simp add: node_at_removeNode split: option.splits)

lemma children_of_removeNode:
  "children_of (removeNode A p d) m =
     (if m = p then remove1 d (children_of A m) else children_of A m)"
proof (cases "m = p \<and> p < length A")
  case True
  show ?thesis
  proof (cases "remove_in_fields d (nfields (node_at A p))")
    case None
    from remove_in_fields_None[OF None] have "d \<notin> set (children_of A p)"
      by (simp add: children_of_kids)
    then have "remove1 d (children_of A p) = children_of A p" by (simp add: remove1_idem)
    with True None show ?thesis by (simp add: children_of_kids node_at_removeNode)
  next
    case (Some fs)
    from remove_in_fields_Some[OF Some] True Some show ?thesis
      by (simp add: children_of_kids node_at_removeNode)
  qed
next
  case False
  show ?thesis
  proof (cases "m = p")
    case True
    with False have "\<not> p < length A" by simp
    then have "removeNode A p d = A"
      by (simp add: removeNode_def list_update_beyond not_less split: option.splits)
    moreover from \<open>\<not> p < length A\<close> True have "children_of A m = []"
      by (simp add: children_of_beyond)
    ultimately show ?thesis using True by simp
  next
    case ne: False
    then have "node_at (removeNode A p d) m = node_at A m" by (simp add: node_at_removeNode)
    with ne show ?thesis by (simp add: children_of_def)
  qed
qed

lemma removeNode_absent:
  "d \<notin> set (children_of A p) \<Longrightarrow> removeNode A p d = A"
proof -
  assume a: "d \<notin> set (children_of A p)"
  have "remove_in_fields d (nfields (node_at A p)) = None"
  proof (cases "remove_in_fields d (nfields (node_at A p))")
    case (Some fs)
    from remove_in_fields_Some[OF Some] a show ?thesis by (simp add: children_of_kids)
  qed simp
  then show ?thesis by (simp add: removeNode_def)
qed

lemma removeNode_other_node:
  "ntype (node_at A m) \<noteq> ntype (node_at A p) \<Longrightarrow> node_at (removeNode A p d) m = node_at A m"
  by (auto simp: node_at_removeNode)

text \<open>A replacement adds no occurrence of any node but the new one.\<close>

lemma replace_in_list_count:
  "replace_in_list old new cs = Some cs' \<Longrightarrow> c \<noteq> new \<Longrightarrow>
   count_list (List.map_filter id cs') c \<le> count_list (List.map_filter id cs) c"
proof (induction cs arbitrary: cs')
  case Nil
  then show ?case by simp
next
  case (Cons x cs)
  show ?case
  proof (cases "x = Some old")
    case True
    with Cons.prems show ?thesis by (auto simp: List.map_filter_simps)
  next
    case False
    with Cons.prems obtain ds where ds: "replace_in_list old new cs = Some ds" "cs' = x # ds"
      by auto
    from Cons.IH[OF ds(1) Cons.prems(2)] ds(2) show ?thesis
      by (cases x) (auto simp: List.map_filter_simps)
  qed
qed

lemma replace_in_fields_count:
  "replace_in_fields old new fs = Some fs' \<Longrightarrow> c \<noteq> new \<Longrightarrow>
   count_list (kids fs') c \<le> count_list (kids fs) c"
proof (induction fs arbitrary: fs')
  case Nil
  then show ?case by simp
next
  case (Cons kv fs)
  obtain k v where kv: "kv = (k, v)" by (cases kv)
  let ?here = "(case v of FNode c \<Rightarrow> (if c = old then Some (FNode new) else None)
                 | FList cs \<Rightarrow> map_option FList (replace_in_list old new cs) | _ \<Rightarrow> None)"
  show ?case
  proof (cases ?here)
    case None
    with Cons.prems(1) obtain gs where gs: "replace_in_fields old new fs = Some gs" "fs' = (k, v) # gs"
      unfolding kv by auto
    from Cons.IH[OF gs(1) Cons.prems(2)] show ?thesis
      unfolding kv gs(2) by (simp add: kids_Cons)
  next
    case (Some v')
    with Cons.prems(1) have fs': "fs' = (k, v') # fs" unfolding kv by simp
    from Some Cons.prems(2) have "count_list (fval_children v') c \<le> count_list (fval_children v) c"
      by (cases v) (auto split: if_splits dest: replace_in_list_count)
    then show ?thesis unfolding kv fs' by (simp add: kids_Cons)
  qed
qed

lemma count_children_replaceNode:
  assumes "c \<noteq> new"
  shows "count_list (children_of (replaceNode A q old new) m) c \<le> count_list (children_of A m) c"
proof (cases "m = q \<and> q < length A")
  case True
  show ?thesis
  proof (cases "replace_in_fields old new (nfields (node_at A q))")
    case None
    then show ?thesis using True by (simp add: children_of_kids node_at_replaceNode)
  next
    case (Some fs)
    from replace_in_fields_count[OF Some assms] True Some show ?thesis
      by (simp add: children_of_kids node_at_replaceNode)
  qed
next
  case False
  then have "node_at (replaceNode A q old new) m = node_at A m"
    by (auto simp: node_at_replaceNode)
  then show ?thesis by (simp add: children_of_def)
qed

lemma count_list_remove1: "count_list (remove1 d xs) c \<le> count_list xs c"
  by (induction xs) auto

lemma count_list_remove1_same: "count_list (remove1 d xs) d = count_list xs d - 1"
  by (induction xs) auto


subsection \<open>What a discovery walk has seen\<close>

lemma traverse_node_SucE:
  assumes "traverse_node (Suc f) tree v n p s = Some (Inr s')"
  obtains s1 s2 where "enter v n p s = Some (Inr s1)"
    "traverse_list f tree v (children_of (tree s1) n) n s1 = Some (Inr s2)"
    "leave v n s2 = Some (Inr s')"
  using assms by (auto split: option.splits sum.splits)

lemma traverse_list_ConsE:
  assumes "traverse_list f tree v (c # cs) q s = Some (Inr s')"
  obtains s1 where "traverse_node f tree v c (Some q) s = Some (Inr s1)"
    "traverse_list f tree v cs q s1 = Some (Inr s')"
  using assms by (auto split: option.splits sum.splits)

lemma find_node_SucE:
  assumes "traverse_node (Suc f) (nodes \<circ> fthis) find_visitor n p l = Some (Inr l')"
  obtains l1 l2 where "find_enter n p l = Some (Inr l1)"
    "traverse_list f (nodes \<circ> fthis) find_visitor (children_of (nodes (fthis l1)) n) n l1 = Some (Inr l2)"
    "find_leave n l2 = Some (Inr l')"
proof -
  from assms obtain s1 s2 where a: "enter find_visitor n p l = Some (Inr s1)"
    and b: "traverse_list f (nodes \<circ> fthis) find_visitor (children_of ((nodes \<circ> fthis) s1) n) n s1 = Some (Inr s2)"
    and c: "leave find_visitor n s2 = Some (Inr l')"
    by (rule traverse_node_SucE)
  from a have a': "find_enter n p l = Some (Inr s1)" by simp
  from b have b': "traverse_list f (nodes \<circ> fthis) find_visitor (children_of (nodes (fthis s1)) n) n s1 = Some (Inr s2)"
    by (simp only: comp_apply)
  from c have c': "find_leave n s2 = Some (Inr l')" by simp
  from that[OF a' b' c'] show ?thesis .
qed

definition child_rel :: "ast \<Rightarrow> (nat \<times> nat) set" where
  "child_rel A = {(p, c). c \<in> set (children_of A p)}"

definition find_step :: "find_locals \<Rightarrow> find_locals \<Rightarrow> bool" where
  "find_step l0 l =
     (nodes (fthis l) = nodes (fthis l0) \<and>
      (foundArrays l0 \<longrightarrow> foundArrays l) \<and>
      (\<not> foundArrays l \<longrightarrow>
         arrayNodes (fthis l) = arrayNodes (fthis l0) \<and>
         arrayStore (fthis l) = arrayStore (fthis l0)))"

lemma find_step_refl: "find_step l l"
  by (simp add: find_step_def)

lemma find_enter_step:
  assumes "find_step l0 l" "find_enter n p l = Some (Inr l')"
  shows "find_step l0 l'"
  using assms(2,1) by (cases rule: find_enter_cases) (auto simp: find_step_def)

lemma find_leave_step:
  assumes "find_step l0 l" "find_leave n l = Some (Inr l')"
  shows "find_step l0 l'"
  using assms(2,1) by (cases rule: find_leave_cases) (auto simp: find_step_def)

lemma find_node_step:
  assumes "traverse_node f (nodes \<circ> fthis) find_visitor n p l = Some (Inr l')"
  shows "find_step l l'"
proof (rule traverse_node_invariant[of "find_step l" find_visitor l f "nodes \<circ> fthis" n p l'])
  show "\<And>n p s s'. find_step l s \<Longrightarrow> enter find_visitor n p s = Some (Inr s') \<Longrightarrow> find_step l s'"
    using find_enter_step by simp
  show "\<And>n s s'. find_step l s \<Longrightarrow> leave find_visitor n s = Some (Inr s') \<Longrightarrow> find_step l s'"
    using find_leave_step by simp
  show "find_step l l" by (rule find_step_refl)
  show "traverse_node f (nodes \<circ> fthis) find_visitor n p l = Some (Inr l')" by (rule assms)
qed

lemma find_list_step:
  assumes "traverse_list f (nodes \<circ> fthis) find_visitor cs q l = Some (Inr l')"
  shows "find_step l l'"
proof (rule traverse_list_invariant[of "find_step l" f "nodes \<circ> fthis" find_visitor l cs q l'])
  show "\<And>n p s s'. find_step l s \<Longrightarrow>
          traverse_node f (nodes \<circ> fthis) find_visitor n p s = Some (Inr s') \<Longrightarrow> find_step l s'"
  proof -
    fix n p s s'
    assume a: "find_step l s" and t: "traverse_node f (nodes \<circ> fthis) find_visitor n p s = Some (Inr s')"
    from find_node_step[OF t] a show "find_step l s'" by (auto simp: find_step_def)
  qed
  show "find_step l l" by (rule find_step_refl)
  show "traverse_list f (nodes \<circ> fthis) find_visitor cs q l = Some (Inr l')" by (rule assms)
qed

text \<open>A walk that ends with the flag unset has met no unseen literal array declaration.\<close>

lemma find_sound_list:
  assumes nd: "\<And>n p l l' m. traverse_node f (nodes \<circ> fthis) find_visitor n p l = Some (Inr l') \<Longrightarrow>
      \<not> foundArrays l' \<Longrightarrow> (n, m) \<in> (child_rel (nodes (fthis l)))\<^sup>* \<Longrightarrow>
      isLiteralArrayDeclaration (nodes (fthis l)) m \<Longrightarrow> m \<in> arrayNodes (fthis l)"
  shows "traverse_list f (nodes \<circ> fthis) find_visitor cs q l = Some (Inr l') \<Longrightarrow>
      \<not> foundArrays l' \<Longrightarrow> c \<in> set cs \<Longrightarrow> (c, m) \<in> (child_rel (nodes (fthis l)))\<^sup>* \<Longrightarrow>
      isLiteralArrayDeclaration (nodes (fthis l)) m \<Longrightarrow> m \<in> arrayNodes (fthis l)"
proof (induction cs arbitrary: l)
  case Nil
  then show ?case by simp
next
  case (Cons c' cs)
  from Cons.prems(1) obtain l1 where
    l1: "traverse_node f (nodes \<circ> fthis) find_visitor c' (Some q) l = Some (Inr l1)"
    and r: "traverse_list f (nodes \<circ> fthis) find_visitor cs q l1 = Some (Inr l')"
    by (rule traverse_list_ConsE)
  from find_list_step[OF r] Cons.prems(2) have nf1: "\<not> foundArrays l1" by (auto simp: find_step_def)
  from find_node_step[OF l1] nf1 have same: "nodes (fthis l1) = nodes (fthis l)"
    "arrayNodes (fthis l1) = arrayNodes (fthis l)" by (auto simp: find_step_def)
  show ?case
  proof (cases "c = c'")
    case True
    from nd[OF l1 nf1] Cons.prems(4,5) True show ?thesis by simp
  next
    case False
    with Cons.prems(3) have "c \<in> set cs" by simp
    from Cons.IH[OF r Cons.prems(2) this] Cons.prems(4,5) same show ?thesis by simp
  qed
qed

lemma isLiteralArrayDeclaration_not_scope:
  "isLiteralArrayDeclaration A n \<Longrightarrow> ntype (node_at A n) \<notin> scopeTypes"
  by (simp add: isLiteralArrayDeclaration_def scopeTypes_def)

lemma find_sound_node:
  "traverse_node f (nodes \<circ> fthis) find_visitor n p l = Some (Inr l') \<Longrightarrow>
   \<not> foundArrays l' \<Longrightarrow> (n, m) \<in> (child_rel (nodes (fthis l)))\<^sup>* \<Longrightarrow>
   isLiteralArrayDeclaration (nodes (fthis l)) m \<Longrightarrow> m \<in> arrayNodes (fthis l)"
proof (induction f arbitrary: n p l l' m)
  case 0
  then show ?case by simp
next
  case (Suc f)
  from Suc.prems(1) obtain l1 l2 where l1: "find_enter n p l = Some (Inr l1)"
    and l2: "traverse_list f (nodes \<circ> fthis) find_visitor (children_of (nodes (fthis l1)) n) n l1 = Some (Inr l2)"
    and lv: "find_leave n l2 = Some (Inr l')"
    by (rule find_node_SucE)
  from find_leave_step[OF find_step_refl lv] Suc.prems(2) have nf2: "\<not> foundArrays l2"
    by (auto simp: find_step_def)
  from find_list_step[OF l2] nf2 have nf1: "\<not> foundArrays l1" by (auto simp: find_step_def)
  from find_enter_step[OF find_step_refl l1] nf1 have same: "nodes (fthis l1) = nodes (fthis l)"
    "arrayNodes (fthis l1) = arrayNodes (fthis l)" by (auto simp: find_step_def)
  from Suc.prems(3) show ?case
  proof (cases rule: converse_rtranclE)
    case base
    show ?thesis
    proof (rule ccontr)
      assume "m \<notin> arrayNodes (fthis l)"
      with base Suc.prems(4) have lit: "isLiteralArrayDeclaration (nodes (fthis l)) n"
        and un: "n \<notin> arrayNodes (fthis l)" by simp_all
      from find_enter_found[OF isLiteralArrayDeclaration_not_scope[OF lit] lit un, of p] l1
      have "foundArrays l1" by auto
      with nf1 show False by simp
    qed
  next
    case (step c)
    from step(1) have c: "c \<in> set (children_of (nodes (fthis l1)) n)"
      by (simp add: child_rel_def same)
    have "m \<in> arrayNodes (fthis l1)"
    proof (rule find_sound_list[of f "children_of (nodes (fthis l1)) n" n l1 l2 c m])
      show "\<And>n p l l' m. traverse_node f (nodes \<circ> fthis) find_visitor n p l = Some (Inr l') \<Longrightarrow>
        \<not> foundArrays l' \<Longrightarrow> (n, m) \<in> (child_rel (nodes (fthis l)))\<^sup>* \<Longrightarrow>
        isLiteralArrayDeclaration (nodes (fthis l)) m \<Longrightarrow> m \<in> arrayNodes (fthis l)"
        by (rule Suc.IH)
      show "traverse_list f (nodes \<circ> fthis) find_visitor (children_of (nodes (fthis l1)) n) n l1 = Some (Inr l2)"
        by (rule l2)
      show "\<not> foundArrays l2" by (rule nf2)
      show "c \<in> set (children_of (nodes (fthis l1)) n)" by (rule c)
      show "(c, m) \<in> (child_rel (nodes (fthis l1)))\<^sup>*" using step(2) by (simp add: same)
      show "isLiteralArrayDeclaration (nodes (fthis l1)) m" using Suc.prems(4) by (simp add: same)
    qed
    then show ?thesis by (simp add: same)
  qed
qed

text \<open>A walk that meets no unseen literal array declaration changes neither the tree,
  nor the seen-set, nor the descriptors, nor the flag.\<close>

definition quiet :: "find_locals \<Rightarrow> find_locals \<Rightarrow> bool" where
  "quiet l l' =
     (nodes (fthis l') = nodes (fthis l) \<and> arrayNodes (fthis l') = arrayNodes (fthis l) \<and>
      arrayStore (fthis l') = arrayStore (fthis l) \<and> foundArrays l' = foundArrays l \<and>
      ast (fthis l') = ast (fthis l) \<and> globalScope (fthis l') = globalScope (fthis l) \<and>
      shouldRemoveArrays (fthis l') = shouldRemoveArrays (fthis l))"

lemma quiet_refl: "quiet l l"
  by (simp add: quiet_def)

lemma quiet_trans: "quiet l l1 \<Longrightarrow> quiet l1 l2 \<Longrightarrow> quiet l l2"
  by (simp add: quiet_def)

lemma find_quiet_list:
  assumes nd: "\<And>n p l l'. traverse_node f (nodes \<circ> fthis) find_visitor n p l = Some (Inr l') \<Longrightarrow>
      (\<forall>m. (n, m) \<in> (child_rel (nodes (fthis l)))\<^sup>* \<longrightarrow>
           isLiteralArrayDeclaration (nodes (fthis l)) m \<longrightarrow> m \<in> arrayNodes (fthis l)) \<Longrightarrow>
      quiet l l'"
  shows "traverse_list f (nodes \<circ> fthis) find_visitor cs q l = Some (Inr l') \<Longrightarrow>
      (\<forall>c\<in>set cs. \<forall>m. (c, m) \<in> (child_rel (nodes (fthis l)))\<^sup>* \<longrightarrow>
           isLiteralArrayDeclaration (nodes (fthis l)) m \<longrightarrow> m \<in> arrayNodes (fthis l)) \<Longrightarrow>
      quiet l l'"
proof (induction cs arbitrary: l)
  case Nil
  then show ?case by (simp add: quiet_refl)
next
  case (Cons c cs)
  from Cons.prems(1) obtain l1 where
    l1: "traverse_node f (nodes \<circ> fthis) find_visitor c (Some q) l = Some (Inr l1)"
    and r: "traverse_list f (nodes \<circ> fthis) find_visitor cs q l1 = Some (Inr l')"
    by (rule traverse_list_ConsE)
  from Cons.prems(2) have "\<forall>m. (c, m) \<in> (child_rel (nodes (fthis l)))\<^sup>* \<longrightarrow>
           isLiteralArrayDeclaration (nodes (fthis l)) m \<longrightarrow> m \<in> arrayNodes (fthis l)" by simp
  from nd[OF l1 this] have q1: "quiet l l1" .
  then have same: "nodes (fthis l1) = nodes (fthis l)" "arrayNodes (fthis l1) = arrayNodes (fthis l)"
    by (simp_all add: quiet_def)
  from Cons.prems(2) have "\<forall>c\<in>set cs. \<forall>m. (c, m) \<in> (child_rel (nodes (fthis l1)))\<^sup>* \<longrightarrow>
           isLiteralArrayDeclaration (nodes (fthis l1)) m \<longrightarrow> m \<in> arrayNodes (fthis l1)"
    unfolding same by simp
  from Cons.IH[OF r this] q1 show ?case by (rule quiet_trans[rotated])
qed

lemma find_quiet_node:
  "traverse_node f (nodes \<circ> fthis) find_visitor n p l = Some (Inr l') \<Longrightarrow>
   (\<forall>m. (n, m) \<in> (child_rel (nodes (fthis l)))\<^sup>* \<longrightarrow>
        isLiteralArrayDeclaration (nodes (fthis l)) m \<longrightarrow> m \<in> arrayNodes (fthis l)) \<Longrightarrow>
   quiet l l'"
proof (induction f arbitrary: n p l l')
  case 0
  then show ?case by simp
next
  case (Suc f)
  from Suc.prems(1) obtain l1 l2 where l1: "find_enter n p l = Some (Inr l1)"
    and l2: "traverse_list f (nodes \<circ> fthis) find_visitor (children_of (nodes (fthis l1)) n) n l1 = Some (Inr l2)"
    and lv: "find_leave n l2 = Some (Inr l')"
    by (rule find_node_SucE)
  from Suc.prems(2) have here: "isLiteralArrayDeclaration (nodes (fthis l)) n \<longrightarrow> n \<in> arrayNodes (fthis l)"
    by blast
  from l1 have q1: "quiet l l1"
  proof (cases rule: find_enter_cases)
    case scope
    then show ?thesis by (simp add: quiet_def)
  next
    case found
    with here show ?thesis by simp
  next
    case skip
    then show ?thesis by (simp add: quiet_refl)
  qed
  then have same: "nodes (fthis l1) = nodes (fthis l)" "arrayNodes (fthis l1) = arrayNodes (fthis l)"
    by (simp_all add: quiet_def)
  have kidsok: "\<forall>c\<in>set (children_of (nodes (fthis l1)) n).
          \<forall>m. (c, m) \<in> (child_rel (nodes (fthis l1)))\<^sup>* \<longrightarrow>
           isLiteralArrayDeclaration (nodes (fthis l1)) m \<longrightarrow> m \<in> arrayNodes (fthis l1)"
  proof (intro ballI allI impI)
    fix c m assume c: "c \<in> set (children_of (nodes (fthis l1)) n)"
      and cm: "(c, m) \<in> (child_rel (nodes (fthis l1)))\<^sup>*"
      and lit: "isLiteralArrayDeclaration (nodes (fthis l1)) m"
    from c have nc: "(n, c) \<in> child_rel (nodes (fthis l))" by (simp add: child_rel_def same)
    from cm have cm': "(c, m) \<in> (child_rel (nodes (fthis l)))\<^sup>*" by (simp add: same)
    from nc cm' have "(n, m) \<in> (child_rel (nodes (fthis l)))\<^sup>*" by (rule converse_rtrancl_into_rtrancl)
    with Suc.prems(2) lit show "m \<in> arrayNodes (fthis l1)" unfolding same by blast
  qed
  have q2: "quiet l1 l2"
  proof (rule find_quiet_list[of f "children_of (nodes (fthis l1)) n" n l1 l2])
    show "\<And>n p l l'. traverse_node f (nodes \<circ> fthis) find_visitor n p l = Some (Inr l') \<Longrightarrow>
      (\<forall>m. (n, m) \<in> (child_rel (nodes (fthis l)))\<^sup>* \<longrightarrow>
           isLiteralArrayDeclaration (nodes (fthis l)) m \<longrightarrow> m \<in> arrayNodes (fthis l)) \<Longrightarrow>
      quiet l l'" by (rule Suc.IH)
    show "traverse_list f (nodes \<circ> fthis) find_visitor (children_of (nodes (fthis l1)) n) n l1 = Some (Inr l2)"
      by (rule l2)
    show "\<forall>c\<in>set (children_of (nodes (fthis l1)) n).
          \<forall>m. (c, m) \<in> (child_rel (nodes (fthis l1)))\<^sup>* \<longrightarrow>
           isLiteralArrayDeclaration (nodes (fthis l1)) m \<longrightarrow> m \<in> arrayNodes (fthis l1)"
      by (rule kidsok)
  qed
  from lv have q3: "quiet l2 l'"
    by (cases rule: find_leave_cases) (simp_all add: quiet_def)
  from quiet_trans[OF quiet_trans[OF q1 q2] q3] show ?case .
qed


subsection \<open>Declarators and descriptors\<close>

text \<open>
  The part of the Shift grammar the cleanup relies on: a variable declarator is a child
  of variable declarations only, and it fills one slot of its declaration.
\<close>

definition wf_decls :: "ast \<Rightarrow> bool" where
  "wf_decls A =
     (\<forall>p<length A. \<forall>c\<in>set (children_of A p).
        ntype (node_at A c) = ''VariableDeclarator'' \<longrightarrow>
          ntype (A ! p) = ''VariableDeclaration'' \<and> count_list (children_of A p) c = 1)"

lemma wf_decls_edge:
  assumes "wf_decls A" "c \<in> set (children_of A p)" "ntype (node_at A c) = ''VariableDeclarator''"
  shows "ntype (node_at A p) = ''VariableDeclaration''" "count_list (children_of A p) c = 1"
proof -
  from assms(2) have "children_of A p \<noteq> []" by auto
  then have "p < length A" using children_of_beyond by blast
  with assms show "ntype (node_at A p) = ''VariableDeclaration''" "count_list (children_of A p) c = 1"
    by (auto simp: wf_decls_def node_at_def)
qed

lemma wf_declsI:
  assumes "\<And>p c. c \<in> set (children_of A p) \<Longrightarrow> ntype (node_at A c) = ''VariableDeclarator'' \<Longrightarrow>
             ntype (node_at A p) = ''VariableDeclaration'' \<and> count_list (children_of A p) c = 1"
  shows "wf_decls A"
  unfolding wf_decls_def
proof (intro allI impI ballI)
  fix p c assume p: "p < length A" and c: "c \<in> set (children_of A p)"
    and t: "ntype (node_at A c) = ''VariableDeclarator''"
  from assms[OF c t] p show "ntype (A ! p) = ''VariableDeclaration'' \<and> count_list (children_of A p) c = 1"
    by (simp add: node_at_def)
qed

definition decl_inv :: "ArrayUnpacker \<Rightarrow> bool" where
  "decl_inv self =
     (wf_decls (nodes self) \<and>
      (\<forall>d\<in>set (arrayStore self).
         ntype (node_at (nodes self) (array_node d)) = ''VariableDeclarator'' \<and>
         (\<forall>e. Some e \<in> set (array_elements d) \<longrightarrow> prefix ''Literal'' (ntype (node_at (nodes self) e)))))"

lemma decl_inv_scopeStore [simp]: "decl_inv (s\<lparr>scopeStore := H\<rparr>) = decl_inv s"
  by (simp add: decl_inv_def)

lemma decl_inv_arrayNodes [simp]: "decl_inv (s\<lparr>arrayNodes := N\<rparr>) = decl_inv s"
  by (simp add: decl_inv_def)

lemma find_enter_decl:
  assumes inv: "decl_inv (fthis l)" and step: "find_enter n p l = Some (Inr l')"
  shows "decl_inv (fthis l')"
  using step
proof (cases rule: find_enter_cases)
  case scope
  with inv show ?thesis by simp
next
  case found
  from found(2) have t: "ntype (node_at (nodes (fthis l)) n) = ''VariableDeclarator''"
    by (simp add: isLiteralArrayDeclaration_def)
  from found(2) have e: "\<forall>e. Some e \<in> set (init_elements (nodes (fthis l)) n) \<longrightarrow>
      prefix ''Literal'' (ntype (node_at (nodes (fthis l)) e))"
    by (auto simp: isLiteralArrayDeclaration_iff literal_or_hole_def)
  from inv t e show ?thesis unfolding found(4)
    by (auto simp: decl_inv_def new_Array_def)
next
  case skip
  with inv show ?thesis by simp
qed

lemma find_leave_decl:
  assumes inv: "decl_inv (fthis l)" and step: "find_leave n l = Some (Inr l')"
  shows "decl_inv (fthis l')"
  using step inv by (cases rule: find_leave_cases) simp_all

lemma not_literal_declarator: "\<not> prefix ''Literal'' ''VariableDeclarator''"
  by simp

lemma wf_decls_replaceNode:
  assumes wf: "wf_decls A" and r: "prefix ''Literal'' (ntype (node_at A r))"
  shows "wf_decls (replaceNode A q old r)"
proof (rule wf_declsI)
  fix p c assume c: "c \<in> set (children_of (replaceNode A q old r) p)"
    and t: "ntype (node_at (replaceNode A q old r) c) = ''VariableDeclarator''"
  from t have t': "ntype (node_at A c) = ''VariableDeclarator''" by simp
  with r have ne: "c \<noteq> r" by auto
  with c children_of_replaceNode[of A q old r p] have c': "c \<in> set (children_of A p)" by auto
  from c have "count_list (children_of (replaceNode A q old r) p) c \<noteq> 0"
    by (simp add: count_list_0_iff)
  moreover from count_children_replaceNode[OF ne, of A q old p] wf_decls_edge(2)[OF wf c' t']
  have "count_list (children_of (replaceNode A q old r) p) c \<le> 1" by simp
  ultimately have "count_list (children_of (replaceNode A q old r) p) c = 1" by simp
  with wf_decls_edge(1)[OF wf c' t']
  show "ntype (node_at (replaceNode A q old r) p) = ''VariableDeclaration'' \<and>
        count_list (children_of (replaceNode A q old r) p) c = 1"
    by simp
qed

lemma unpack_enter_decl:
  assumes inv: "decl_inv (uthis l)" and step: "unpack_enter n p l = Some (Inr l')"
  shows "decl_inv (uthis l')"
  using step
proof (cases rule: unpack_enter_cases)
  case (scope sc)
  with inv show ?thesis by simp
next
  case (rewrite sc a r q)
  let ?D = "arrayStore (uthis l)"
  let ?A = "nodes (uthis l)"
  from js_index_in_store[OF rewrite(4)] have a: "a < length ?D" and m: "Some r \<in> set (array_elements (?D ! a))"
    by simp_all
  from a have mem: "?D ! a \<in> set ?D" by simp
  with inv m have lit: "prefix ''Literal'' (ntype (node_at ?A r))" by (auto simp: decl_inv_def)
  from inv have wf: "wf_decls ?A" by (simp add: decl_inv_def)
  let ?D' = "?D[a := (array_at ?D a)\<lparr>replaceCount := Suc (replaceCount (array_at ?D a))\<rparr>]"
  have D: "\<forall>d\<in>set ?D'. ntype (node_at ?A (array_node d)) = ''VariableDeclarator'' \<and>
         (\<forall>e. Some e \<in> set (array_elements d) \<longrightarrow> prefix ''Literal'' (ntype (node_at ?A e)))"
  proof
    fix d assume d: "d \<in> set ?D'"
    from d set_update_subset_insert[of ?D a] consider "d \<in> set ?D"
      | "d = (array_at ?D a)\<lparr>replaceCount := Suc (replaceCount (array_at ?D a))\<rparr>" by blast
    then show "ntype (node_at ?A (array_node d)) = ''VariableDeclarator'' \<and>
         (\<forall>e. Some e \<in> set (array_elements d) \<longrightarrow> prefix ''Literal'' (ntype (node_at ?A e)))"
    proof cases
      case 1
      with inv show ?thesis by (auto simp: decl_inv_def)
    next
      case 2
      with a mem inv show ?thesis by (auto simp: decl_inv_def array_at_def)
    qed
  qed
  from wf_decls_replaceNode[OF wf lit] D show ?thesis
    unfolding rewrite(5) by (simp add: decl_inv_def)
next
  case skip
  with inv show ?thesis by simp
qed

lemma unpack_leave_decl:
  assumes inv: "decl_inv (uthis l)" and step: "unpack_leave n l = Some (Inr l')"
  shows "decl_inv (uthis l')"
  using step inv by (cases rule: unpack_leave_cases) simp_all

lemma findArrays_decl:
  assumes fa: "findArrays f self = Some (Inr (found, s1))" and inv: "decl_inv self"
  shows "decl_inv s1"
proof -
  from fa obtain l where
    t: "traverse f (nodes \<circ> fthis) (ast self) find_visitor
       \<lparr>fthis = self, fscope = globalScope self, foundArrays = False\<rparr> = Some (Inr l)"
    and l: "found = foundArrays l" "s1 = fthis l" by (rule findArrays_Inr)
  have "decl_inv (fthis l)"
  proof (rule traverse_invariant[of "\<lambda>l. decl_inv (fthis l)" find_visitor _ f "nodes \<circ> fthis" "ast self" l])
    show "\<And>n p s s'. decl_inv (fthis s) \<Longrightarrow> enter find_visitor n p s = Some (Inr s') \<Longrightarrow> decl_inv (fthis s')"
      using find_enter_decl by simp
    show "\<And>n s s'. decl_inv (fthis s) \<Longrightarrow> leave find_visitor n s = Some (Inr s') \<Longrightarrow> decl_inv (fthis s')"
      using find_leave_decl by simp
    show "decl_inv (fthis \<lparr>fthis = self, fscope = globalScope self, foundArrays = False\<rparr>)"
      using inv by simp
    show "traverse f (nodes \<circ> fthis) (ast self) find_visitor
       \<lparr>fthis = self, fscope = globalScope self, foundArrays = False\<rparr> = Some (Inr l)" by (rule t)
  qed
  then show ?thesis by (simp add: l)
qed

lemma unpackArrays_decl:
  assumes ua: "unpackArrays f self = Some (Inr s1)" and inv: "decl_inv self"
  shows "decl_inv s1"
proof -
  from ua obtain l where
    t: "traverse f (nodes \<circ> uthis) (ast self) unpack_visitor
       \<lparr>uthis = self, uscope = Some (globalScope self)\<rparr> = Some (Inr l)"
    and l: "s1 = uthis l" by (rule unpackArrays_Inr)
  have "decl_inv (uthis l)"
  proof (rule traverse_invariant[of "\<lambda>l. decl_inv (uthis l)" unpack_visitor _ f "nodes \<circ> uthis" "ast self" l])
    show "\<And>n p s s'. decl_inv (uthis s) \<Longrightarrow> enter unpack_visitor n p s = Some (Inr s') \<Longrightarrow> decl_inv (uthis s')"
      using unpack_enter_decl by simp
    show "\<And>n s s'. decl_inv (uthis s) \<Longrightarrow> leave unpack_visitor n s = Some (Inr s') \<Longrightarrow> decl_inv (uthis s')"
      using unpack_leave_decl by simp
    show "decl_inv (uthis \<lparr>uthis = self, uscope = Some (globalScope self)\<rparr>)"
      using inv by simp
    show "traverse f (nodes \<circ> uthis) (ast self) unpack_visitor
       \<lparr>uthis = self, uscope = Some (globalScope self)\<rparr> = Some (Inr l)" by (rule t)
  qed
  then show ?thesis by (simp add: l)
qed

text \<open>What the loop leaves: every literal array declaration within reach of the root is seen.\<close>

definition all_seen :: "ArrayUnpacker \<Rightarrow> bool" where
  "all_seen self =
     (\<forall>m. (ast self, m) \<in> (child_rel (nodes self))\<^sup>* \<longrightarrow>
          isLiteralArrayDeclaration (nodes self) m \<longrightarrow> m \<in> arrayNodes self)"

lemma findArrays_False_all_seen:
  assumes fa: "findArrays f self = Some (Inr (False, s1))"
  shows "all_seen s1"
proof -
  from fa obtain l where
    t: "traverse f (nodes \<circ> fthis) (ast self) find_visitor
       \<lparr>fthis = self, fscope = globalScope self, foundArrays = False\<rparr> = Some (Inr l)"
    and l: "False = foundArrays l" "s1 = fthis l" by (rule findArrays_Inr)
  from findArrays_rel[OF fa] have same: "nodes s1 = nodes self" "ast s1 = ast self"
    "arrayNodes s1 = arrayNodes self" by simp_all
  show ?thesis unfolding all_seen_def same
  proof (intro allI impI)
    fix m assume r: "(ast self, m) \<in> (child_rel (nodes self))\<^sup>*"
      and lit: "isLiteralArrayDeclaration (nodes self) m"
    from find_sound_node[of f "ast self" None
        "\<lparr>fthis = self, fscope = globalScope self, foundArrays = False\<rparr>" l m]
      t l(1) r lit
    show "m \<in> arrayNodes self" by (simp add: traverse_def)
  qed
qed

lemma all_seen_findArrays:
  assumes seen: "all_seen self" and fa: "findArrays f self = Some (Inr (found, s2))"
  shows "\<not> found \<and> nodes s2 = nodes self \<and> arrayNodes s2 = arrayNodes self \<and>
         arrayStore s2 = arrayStore self \<and> ast s2 = ast self \<and>
         globalScope s2 = globalScope self \<and> shouldRemoveArrays s2 = shouldRemoveArrays self"
proof -
  from fa obtain l where
    t: "traverse f (nodes \<circ> fthis) (ast self) find_visitor
       \<lparr>fthis = self, fscope = globalScope self, foundArrays = False\<rparr> = Some (Inr l)"
    and l: "found = foundArrays l" "s2 = fthis l" by (rule findArrays_Inr)
  have "quiet \<lparr>fthis = self, fscope = globalScope self, foundArrays = False\<rparr> l"
  proof (rule find_quiet_node[of f "ast self" None _ l])
    show "traverse_node f (nodes \<circ> fthis) find_visitor (ast self) None
       \<lparr>fthis = self, fscope = globalScope self, foundArrays = False\<rparr> = Some (Inr l)"
      using t by (simp add: traverse_def)
    show "\<forall>m. (ast self, m) \<in> (child_rel (nodes (fthis \<lparr>fthis = self, fscope = globalScope self, foundArrays = False\<rparr>)))\<^sup>* \<longrightarrow>
        isLiteralArrayDeclaration (nodes (fthis \<lparr>fthis = self, fscope = globalScope self, foundArrays = False\<rparr>)) m \<longrightarrow>
        m \<in> arrayNodes (fthis \<lparr>fthis = self, fscope = globalScope self, foundArrays = False\<rparr>)"
      using seen by (simp add: all_seen_def)
  qed
  then show ?thesis unfolding l by (simp add: quiet_def)
qed

lemma execute_loop_final:
  "execute_loop r f self = Some (Inr s1) \<Longrightarrow> \<exists>sk. findArrays f sk = Some (Inr (False, s1))"
proof (induction r arbitrary: self)
  case 0
  then show ?case by simp
next
  case (Suc r)
  from Suc.prems obtain found s' where fa: "findArrays f self = Some (Inr (found, s'))"
    by (auto split: option.splits sum.splits)
  show ?case
  proof (cases found)
    case False
    with Suc.prems fa have "s' = s1" by simp
    with fa False show ?thesis by auto
  next
    case True
    with Suc.prems fa obtain s2 where "unpackArrays f s' = Some (Inr s2)"
      and rest: "execute_loop r f s2 = Some (Inr s1)"
      by (auto split: option.splits sum.splits)
    from Suc.IH[OF rest] show ?thesis .
  qed
qed

lemma execute_loop_all_seen: "execute_loop r f self = Some (Inr s1) \<Longrightarrow> all_seen s1"
  using execute_loop_final findArrays_False_all_seen by blast

lemma execute_loop_decl:
  "execute_loop r f self = Some (Inr s1) \<Longrightarrow> decl_inv self \<Longrightarrow> decl_inv s1"
proof (induction r arbitrary: self)
  case 0
  then show ?case by simp
next
  case (Suc r)
  from Suc.prems(1) obtain found s' where fa: "findArrays f self = Some (Inr (found, s'))"
    by (auto split: option.splits sum.splits)
  from findArrays_decl[OF fa Suc.prems(2)] have d1: "decl_inv s'" .
  show ?case
  proof (cases found)
    case False
    with Suc.prems(1) fa d1 show ?thesis by simp
  next
    case True
    with Suc.prems(1) fa obtain s2 where ua: "unpackArrays f s' = Some (Inr s2)"
      and rest: "execute_loop r f s2 = Some (Inr s1)"
      by (auto split: option.splits sum.splits)
    from Suc.IH[OF rest unpackArrays_decl[OF ua d1]] show ?thesis .
  qed
qed


subsection \<open>The cleanup\<close>

text \<open>
  What the cleanup does to the tree: it takes children away from variable declarations
  and changes nothing else.
\<close>

definition pruned :: "ast \<Rightarrow> ast \<Rightarrow> bool" where
  "pruned A A' =
     (length A' = length A \<and>
      (\<forall>m. ntype (node_at A' m) = ntype (node_at A m)) \<and>
      (\<forall>m. ntype (node_at A m) \<noteq> ''VariableDeclaration'' \<longrightarrow> node_at A' m = node_at A m) \<and>
      (\<forall>m c. count_list (children_of A' m) c \<le> count_list (children_of A m) c))"

lemma pruned_refl: "pruned A A"
  by (simp add: pruned_def)

lemma pruned_trans:
  assumes ab: "pruned A B" and bc: "pruned B C"
  shows "pruned A C"
  unfolding pruned_def
proof (intro conjI allI impI)
  show "length C = length A" using ab bc by (simp add: pruned_def)
  show "\<And>m. ntype (node_at C m) = ntype (node_at A m)" using ab bc by (simp add: pruned_def)
  show "\<And>m. ntype (node_at A m) \<noteq> ''VariableDeclaration'' \<Longrightarrow> node_at C m = node_at A m"
  proof -
    fix m assume t: "ntype (node_at A m) \<noteq> ''VariableDeclaration''"
    with ab have e: "node_at B m = node_at A m" by (simp add: pruned_def)
    with t bc have "node_at C m = node_at B m" by (simp add: pruned_def)
    with e show "node_at C m = node_at A m" by simp
  qed
  show "\<And>m c. count_list (children_of C m) c \<le> count_list (children_of A m) c"
  proof -
    fix m c
    from ab have "count_list (children_of B m) c \<le> count_list (children_of A m) c" by (simp add: pruned_def)
    moreover from bc have "count_list (children_of C m) c \<le> count_list (children_of B m) c" by (simp add: pruned_def)
    ultimately show "count_list (children_of C m) c \<le> count_list (children_of A m) c" by simp
  qed
qed

lemma pruned_length: "pruned A A' \<Longrightarrow> length A' = length A"
  by (simp add: pruned_def)

lemma pruned_ntype: "pruned A A' \<Longrightarrow> ntype (node_at A' m) = ntype (node_at A m)"
  by (simp add: pruned_def)

lemma pruned_node_at:
  "pruned A A' \<Longrightarrow> ntype (node_at A m) \<noteq> ''VariableDeclaration'' \<Longrightarrow> node_at A' m = node_at A m"
  by (simp add: pruned_def)

lemma pruned_count:
  "pruned A A' \<Longrightarrow> count_list (children_of A' m) c \<le> count_list (children_of A m) c"
  by (simp add: pruned_def)

lemma pruned_children: "pruned A A' \<Longrightarrow> c \<in> set (children_of A' m) \<Longrightarrow> c \<in> set (children_of A m)"
proof -
  assume p: "pruned A A'" and c: "c \<in> set (children_of A' m)"
  from c have "count_list (children_of A' m) c \<noteq> 0" by (simp add: count_list_0_iff)
  with pruned_count[OF p, of m c] have "count_list (children_of A m) c \<noteq> 0" by simp
  then show ?thesis by (simp add: count_list_0_iff)
qed

lemma pruned_leaf: "pruned A A' \<Longrightarrow> children_of A m = [] \<Longrightarrow> children_of A' m = []"
proof -
  assume p: "pruned A A'" and e: "children_of A m = []"
  show ?thesis
  proof (cases "children_of A' m")
    case Nil
    then show ?thesis .
  next
    case (Cons c cs)
    then have "c \<in> set (children_of A' m)" by simp
    from pruned_children[OF p this] e show ?thesis by simp
  qed
qed

lemma pruned_removeNode:
  assumes "ntype (node_at A q) = ''VariableDeclaration''"
  shows "pruned A (removeNode A q d)"
  unfolding pruned_def
proof (intro conjI allI impI)
  show "length (removeNode A q d) = length A" by simp
  show "\<And>m. ntype (node_at (removeNode A q d) m) = ntype (node_at A m)" by simp
  show "\<And>m. ntype (node_at A m) \<noteq> ''VariableDeclaration'' \<Longrightarrow> node_at (removeNode A q d) m = node_at A m"
    using assms by (auto simp: node_at_removeNode)
  show "\<And>m c. count_list (children_of (removeNode A q d) m) c \<le> count_list (children_of A m) c"
    by (simp add: children_of_removeNode count_list_remove1)
qed

lemma type_of_pruned: "pruned A A' \<Longrightarrow> type_of A' v = type_of A v"
  by (simp add: type_of_def pruned_ntype split: fval.splits)

lemma literal_or_hole_pruned: "pruned A A' \<Longrightarrow> literal_or_hole A' e = literal_or_hole A e"
  by (simp add: literal_or_hole_def pruned_ntype split: option.splits)

lemma not_declaration_declarator: "''VariableDeclarator'' \<noteq> ''VariableDeclaration''"
  by simp

lemma not_declaration_array: "''ArrayExpression'' \<noteq> ''VariableDeclaration''"
  by simp

lemma init_elements_pruned:
  assumes p: "pruned A A'" and t: "ntype (node_at A m) = ''VariableDeclarator''"
    and i: "type_of A (field (node_at A m) ''init'') = ''ArrayExpression''"
  shows "init_elements A' m = init_elements A m"
proof -
  from t have m: "node_at A' m = node_at A m"
    using pruned_node_at[OF p, of m] by simp
  from i obtain j where j: "field (node_at A m) ''init'' = FNode j"
    by (cases "field (node_at A m) ''init''") (simp_all add: type_of_def)
  with i have "ntype (node_at A j) = ''ArrayExpression''" by (simp add: type_of_def)
  then have "node_at A' j = node_at A j" using pruned_node_at[OF p, of j] by simp
  with m j show ?thesis by (simp add: init_elements_def)
qed

lemma isLiteralArrayDeclaration_pruned:
  assumes p: "pruned A A'"
  shows "isLiteralArrayDeclaration A' m = isLiteralArrayDeclaration A m"
proof (cases "ntype (node_at A m) = ''VariableDeclarator'' \<and>
              type_of A (field (node_at A m) ''init'') = ''ArrayExpression''")
  case True
  then have m: "node_at A' m = node_at A m" using pruned_node_at[OF p, of m] by simp
  from True init_elements_pruned[OF p] have e: "init_elements A' m = init_elements A m" by simp
  show ?thesis
    unfolding isLiteralArrayDeclaration_iff m e type_of_pruned[OF p] literal_or_hole_pruned[OF p] ..
next
  case False
  have "ntype (node_at A' m) = ntype (node_at A m)" by (rule pruned_ntype[OF p])
  moreover have "ntype (node_at A m) = ''VariableDeclarator'' \<Longrightarrow> node_at A' m = node_at A m"
    using pruned_node_at[OF p, of m] by simp
  ultimately show ?thesis using False
    unfolding isLiteralArrayDeclaration_iff type_of_pruned[OF p] by auto
qed

lemma child_rel_pruned: "pruned A A' \<Longrightarrow> child_rel A' \<subseteq> child_rel A"
  by (auto simp: child_rel_def dest: pruned_children)

lemma wf_ast_pruned:
  assumes wf: "wf_ast A" and p: "pruned A A'"
  shows "wf_ast A'"
  unfolding wf_ast_def
proof (intro conjI allI impI ballI)
  fix q c assume q: "q < length A'" and c: "c \<in> set (children_of A' q)"
  from q have q': "q < length A" using pruned_length[OF p] by simp
  from pruned_children[OF p c] have c': "c \<in> set (children_of A q)" .
  from wf q' c' have "c < length A \<and> (q < c \<or> children_of A c = [])" by (simp add: wf_ast_def)
  then show "c < length A'" "q < c \<or> children_of A' c = []"
    using pruned_length[OF p] pruned_leaf[OF p] by auto
next
  fix n assume n: "n < length A'" and lit: "prefix ''Literal'' (ntype (A' ! n))"
  from n have n': "n < length A" using pruned_length[OF p] by simp
  from pruned_ntype[OF p, of n] n n' have "ntype (A' ! n) = ntype (A ! n)" by (simp add: node_at_def)
  with lit wf n' have "children_of A n = []" by (simp add: wf_ast_def)
  then show "children_of A' n = []" by (rule pruned_leaf[OF p])
qed

lemma wf_decls_pruned:
  assumes wf: "wf_decls A" and p: "pruned A A'"
  shows "wf_decls A'"
proof (rule wf_declsI)
  fix q c assume c: "c \<in> set (children_of A' q)" and t: "ntype (node_at A' c) = ''VariableDeclarator''"
  from t have t': "ntype (node_at A c) = ''VariableDeclarator''" by (simp add: pruned_ntype[OF p])
  note e = wf_decls_edge[OF wf pruned_children[OF p c] t']
  from c have "count_list (children_of A' q) c \<noteq> 0" by (simp add: count_list_0_iff)
  with pruned_count[OF p, of q c] e(2) have "count_list (children_of A' q) c = 1" by simp
  with e(1) show "ntype (node_at A' q) = ''VariableDeclaration'' \<and> count_list (children_of A' q) c = 1"
    by (simp add: pruned_ntype[OF p])
qed

lemma decl_inv_pruned:
  assumes "decl_inv self" "pruned (nodes self) A'"
  shows "decl_inv (self\<lparr>nodes := A'\<rparr>)"
  using assms by (auto simp: decl_inv_def pruned_ntype intro: wf_decls_pruned)

lemma array_at_mem: "0 < replaceCount (array_at D a) \<Longrightarrow> array_at D a \<in> set D"
  by (auto simp: array_at_def new_Array_def split: if_splits)

lemma decl_inv_removeNode:
  assumes inv: "decl_inv self" and c: "0 < replaceCount (array_at (arrayStore self) a)"
  shows "pruned (nodes self) (removeNode (nodes self) q (array_node (array_at (arrayStore self) a)))"
proof (cases "array_node (array_at (arrayStore self) a) \<in> set (children_of (nodes self) q)")
  case True
  from inv array_at_mem[OF c]
  have "ntype (node_at (nodes self) (array_node (array_at (arrayStore self) a))) = ''VariableDeclarator''"
    by (simp add: decl_inv_def)
  moreover from inv have "wf_decls (nodes self)" by (simp add: decl_inv_def)
  ultimately have "ntype (node_at (nodes self) q) = ''VariableDeclaration''"
    using True wf_decls_edge(1) by blast
  then show ?thesis by (rule pruned_removeNode)
next
  case False
  then show ?thesis by (simp add: removeNode_absent pruned_refl)
qed

lemma remove_elements_pruned:
  "remove_elements as self = Inr s \<Longrightarrow> decl_inv self \<Longrightarrow>
   pruned (nodes self) (nodes s) \<and> decl_inv s \<and> ast s = ast self \<and>
   shouldRemoveArrays s = shouldRemoveArrays self"
proof (induction as arbitrary: self)
  case Nil
  then show ?case by (simp add: pruned_refl)
next
  case (Cons a as)
  show ?case
  proof (cases "replaceCount (array_at (arrayStore self) a) > 0")
    case False
    with Cons show ?thesis by simp
  next
    case True
    with Cons.prems obtain q where q: "parentNode (array_at (arrayStore self) a) = Some q"
      by (auto split: option.splits)
    let ?A = "removeNode (nodes self) q (array_node (array_at (arrayStore self) a))"
    from True q Cons.prems have r: "remove_elements as (self\<lparr>nodes := ?A\<rparr>) = Inr s" by simp
    from decl_inv_removeNode[OF Cons.prems(2) True] have p: "pruned (nodes self) ?A" .
    from Cons.IH[OF r decl_inv_pruned[OF Cons.prems(2) p]] p show ?thesis
      by (auto intro: pruned_trans)
  qed
qed

lemma removeArrays_children_pruned:
  assumes nd: "\<And>self sc s. removeArrays f self sc = Some (Inr s) \<Longrightarrow> decl_inv self \<Longrightarrow>
     pruned (nodes self) (nodes s) \<and> decl_inv s \<and> ast s = ast self \<and>
     shouldRemoveArrays s = shouldRemoveArrays self"
  shows "removeArrays_children f self cs = Some (Inr s) \<Longrightarrow> decl_inv self \<Longrightarrow>
     pruned (nodes self) (nodes s) \<and> decl_inv s \<and> ast s = ast self \<and>
     shouldRemoveArrays s = shouldRemoveArrays self"
proof (induction cs arbitrary: self)
  case Nil
  then show ?case by (simp add: pruned_refl)
next
  case (Cons c cs)
  from Cons.prems(1) obtain s1 where s1: "removeArrays f self c = Some (Inr s1)"
    and r: "removeArrays_children f s1 cs = Some (Inr s)"
    by (auto split: option.splits sum.splits)
  from nd[OF s1 Cons.prems(2)] have a: "pruned (nodes self) (nodes s1)" "decl_inv s1"
    "ast s1 = ast self" "shouldRemoveArrays s1 = shouldRemoveArrays self" by simp_all
  from Cons.IH[OF r a(2)] a show ?case by (auto intro: pruned_trans)
qed

lemma removeArrays_pruned:
  "removeArrays f self sc = Some (Inr s) \<Longrightarrow> decl_inv self \<Longrightarrow>
     pruned (nodes self) (nodes s) \<and> decl_inv s \<and> ast s = ast self \<and>
     shouldRemoveArrays s = shouldRemoveArrays self"
proof (induction f arbitrary: self sc s)
  case 0
  then show ?case by simp
next
  case (Suc f)
  from Suc.prems(1) obtain s1 where
    s1: "remove_elements (map snd (elements (scope_at (scopeStore self) sc))) self = Inr s1"
    and r: "removeArrays_children f s1 (map snd (children (scope_at (scopeStore self) sc))) = Some (Inr s)"
    by (auto split: sum.splits)
  from remove_elements_pruned[OF s1 Suc.prems(2)] have a: "pruned (nodes self) (nodes s1)" "decl_inv s1"
    "ast s1 = ast self" "shouldRemoveArrays s1 = shouldRemoveArrays self" by simp_all
  from removeArrays_children_pruned[of f s1 _ s, OF Suc.IH r a(2)] a
  show ?case by (auto intro: pruned_trans)
qed

lemma all_seen_pruned:
  assumes seen: "all_seen s1" and p: "pruned (nodes s1) (nodes s)"
    and same: "ast s = ast s1" "arrayNodes s = arrayNodes s1"
  shows "all_seen s"
  unfolding all_seen_def
proof (intro allI impI)
  fix m assume r: "(ast s, m) \<in> (child_rel (nodes s))\<^sup>*" and lit: "isLiteralArrayDeclaration (nodes s) m"
  from r rtrancl_mono[OF child_rel_pruned[OF p]] same(1)
  have "(ast s1, m) \<in> (child_rel (nodes s1))\<^sup>*" by auto
  moreover from lit have "isLiteralArrayDeclaration (nodes s1) m"
    by (simp add: isLiteralArrayDeclaration_pruned[OF p])
  ultimately show "m \<in> arrayNodes s" using seen same(2) by (simp add: all_seen_def)
qed

lemma pass_inv_pruned:
  assumes pi: "pass_inv L Lv s1" and p: "pruned (nodes s1) (nodes s)"
    and same: "scopeStore s = scopeStore s1" "globalScope s = globalScope s1" "arrayStore s = arrayStore s1"
  shows "pass_inv L {n. children_of (nodes s) n = []} s"
proof -
  from pi have wf: "wf_ast (nodes s1)" and len: "length (nodes s1) = L"
    and lv: "\<And>n. n \<in> Lv \<Longrightarrow> children_of (nodes s1) n = []"
    and el: "\<And>d e. d \<in> set (arrayStore s1) \<Longrightarrow> Some e \<in> set (array_elements d) \<Longrightarrow> e < L \<and> e \<in> Lv"
    and sc: "wf_scopes (scopeStore s1)" "globalScope s1 < length (scopeStore s1)"
    unfolding pass_inv_def by auto
  have "\<forall>d\<in>set (arrayStore s). \<forall>e. Some e \<in> set (array_elements d) \<longrightarrow>
          e < L \<and> e \<in> {n. children_of (nodes s) n = []}"
    using el lv pruned_leaf[OF p] same(3) by auto
  with wf_ast_pruned[OF wf p] pruned_length[OF p] len sc same
  show ?thesis unfolding pass_inv_def by simp
qed

text \<open>The discovery walk raises nothing.\<close>

lemma find_enter_Inr: "\<exists>l'. find_enter n p l = Some (Inr l')"
  by (simp add: find_enter_def add_def Let_def split: prod.splits)

lemma find_leave_Inr: "\<exists>l'. find_leave n l = Some (Inr l')"
  by (simp add: find_leave_def Let_def split: option.splits)

lemma traverse_list_no_error:
  assumes nd: "\<And>c p s e. traverse_node f tree v c p s \<noteq> Some (Inl e)"
  shows "traverse_list f tree v cs q s \<noteq> Some (Inl e)"
proof (induction cs arbitrary: s)
  case Nil
  then show ?case by simp
next
  case (Cons c cs)
  show ?case
  proof (cases "traverse_node f tree v c (Some q) s")
    case None
    then show ?thesis by simp
  next
    case (Some r)
    show ?thesis
    proof (cases r)
      case (Inl e')
      with Some nd show ?thesis by simp
    next
      case (Inr s1)
      with Some Cons.IH[of s1] show ?thesis by simp
    qed
  qed
qed

lemma traverse_node_no_error:
  assumes ent: "\<And>n p s e. enter v n p s \<noteq> Some (Inl e)"
    and lea: "\<And>n s e. leave v n s \<noteq> Some (Inl e)"
  shows "traverse_node f tree v n p s \<noteq> Some (Inl e)"
proof (induction f arbitrary: n p s e)
  case 0
  then show ?case by simp
next
  case (Suc f)
  show ?case
  proof (cases "enter v n p s")
    case None
    then show ?thesis by simp
  next
    case (Some r)
    show ?thesis
    proof (cases r)
      case (Inl e')
      with Some ent show ?thesis by simp
    next
      case (Inr s1)
      show ?thesis
      proof (cases "traverse_list f tree v (children_of (tree s1) n) n s1")
        case None
        with Some Inr show ?thesis by simp
      next
        case tl: (Some r2)
        show ?thesis
        proof (cases r2)
          case (Inl e')
          with tl traverse_list_no_error[of f tree v "children_of (tree s1) n" n s1 e', OF Suc.IH]
          show ?thesis by simp
        next
          case r2: (Inr s2)
          with Some Inr tl lea show ?thesis by simp
        qed
      qed
    qed
  qed
qed

lemma findArrays_no_error: "findArrays f self \<noteq> Some (Inl e)"
proof -
  have "traverse_node f (nodes \<circ> fthis) find_visitor (ast self) None
          \<lparr>fthis = self, fscope = globalScope self, foundArrays = False\<rparr> \<noteq> Some (Inl e)" for e
  proof (rule traverse_node_no_error)
    show "\<And>n p s e. enter find_visitor n p s \<noteq> Some (Inl e)"
    proof -
      fix n p s e
      from find_enter_Inr[of n p s] obtain l' where "find_enter n p s = Some (Inr l')" by blast
      then show "enter find_visitor n p s \<noteq> Some (Inl e)" by simp
    qed
    show "\<And>n s e. leave find_visitor n s \<noteq> Some (Inl e)"
    proof -
      fix n s e
      from find_leave_Inr[of n s] obtain l' where "find_leave n s = Some (Inr l')" by blast
      then show "leave find_visitor n s \<noteq> Some (Inl e)" by simp
    qed
  qed
  then show ?thesis
    by (auto simp: findArrays_def traverse_def split: option.splits sum.splits)
qed

lemma execute_loop_inv:
  "execute_loop r f self = Some (Inr s1) \<Longrightarrow> pass_inv L Lv self \<Longrightarrow> pass_inv L Lv s1"
proof (induction r arbitrary: self)
  case 0
  then show ?case by simp
next
  case (Suc r)
  from Suc.prems(1) obtain found s' where fa: "findArrays f self = Some (Inr (found, s'))"
    by (auto split: option.splits sum.splits)
  from findArrays_inv[OF fa Suc.prems(2)] have d1: "pass_inv L Lv s'" .
  show ?case
  proof (cases found)
    case False
    with Suc.prems(1) fa d1 show ?thesis by simp
  next
    case True
    with Suc.prems(1) fa obtain s2 where ua: "unpackArrays f s' = Some (Inr s2)"
      and rest: "execute_loop r f s2 = Some (Inr s1)"
      by (auto split: option.splits sum.splits)
    from Suc.IH[OF rest unpackArrays_inv[OF ua d1]] show ?thesis .
  qed
qed

lemma decl_inv_new: "wf_decls A \<Longrightarrow> decl_inv (new_ArrayUnpacker A rt rm)"
  by (simp add: decl_inv_def new_ArrayUnpacker_def new_Scope_def)

text \<open>The pass object at the end of a run.\<close>

lemma execute_result:
  assumes wf: "wf_ast A" and wd: "wf_decls A"
    and run: "execute r f (new_ArrayUnpacker A rt rm) = Some (Inr s)"
  shows "all_seen s \<and> pass_inv (length A) {n. children_of (nodes s) n = []} s \<and> decl_inv s"
proof -
  from run obtain s1 where loop: "execute_loop r f (new_ArrayUnpacker A rt rm) = Some (Inr s1)"
    and fin: "(if shouldRemoveArrays s1 then removeArrays f s1 (globalScope s1) else Some (Inr s1)) = Some (Inr s)"
    by (auto simp: execute_def split: option.splits sum.splits)
  from execute_loop_all_seen[OF loop] have seen: "all_seen s1" .
  from execute_loop_inv[OF loop pass_inv_new[OF wf]]
  have pi: "pass_inv (length A) {n. children_of A n = []} s1" .
  from execute_loop_decl[OF loop decl_inv_new[OF wd]] have di: "decl_inv s1" .
  have p: "pruned (nodes s1) (nodes s) \<and> decl_inv s \<and> ast s = ast s1 \<and>
    scopeStore s = scopeStore s1 \<and> globalScope s = globalScope s1 \<and>
    arrayStore s = arrayStore s1 \<and> arrayNodes s = arrayNodes s1"
  proof (cases "shouldRemoveArrays s1")
    case True
    with fin have ra: "removeArrays f s1 (globalScope s1) = Some (Inr s)" by simp
    from removeArrays_pruned[OF ra di] removeArrays_frame[OF ra] show ?thesis by simp
  next
    case False
    with fin di show ?thesis by (simp add: pruned_refl)
  qed
  from all_seen_pruned[OF seen, of s] pass_inv_pruned[OF pi, of s] p show ?thesis by simp
qed

lemma all_seen_loop:
  assumes seen: "all_seen s" and pi: "pass_inv L Lv s" and f: "L < f"
  shows "\<exists>s2. findArrays f s = Some (Inr (False, s2)) \<and> execute_loop (Suc r) f s = Some (Inr s2) \<and>
           nodes s2 = nodes s \<and> arrayNodes s2 = arrayNodes s \<and> arrayStore s2 = arrayStore s \<and>
           ast s2 = ast s \<and> globalScope s2 = globalScope s \<and>
           shouldRemoveArrays s2 = shouldRemoveArrays s"
proof -
  from findArrays_returns[OF pi f] obtain res where res: "findArrays f s = Some res" by blast
  with findArrays_no_error[of f s] obtain found s2 where fa: "findArrays f s = Some (Inr (found, s2))"
    by (cases res) auto
  from all_seen_findArrays[OF seen fa] have q: "\<not> found" "nodes s2 = nodes s"
    "arrayNodes s2 = arrayNodes s" "arrayStore s2 = arrayStore s" "ast s2 = ast s"
    "globalScope s2 = globalScope s" "shouldRemoveArrays s2 = shouldRemoveArrays s" by simp_all
  from fa q(1) have "execute_loop (Suc r) f s = Some (Inr s2)" by simp
  with fa q show ?thesis by simp
qed


subsection \<open>What the cleanup has removed\<close>

text \<open>
  The descriptors \<open>removeArrays\<close> comes to: those bound in a Scope within reach of the
  Scope it starts from, along the \<open>children\<close> maps.
\<close>

definition scope_rel :: "'a scopes \<Rightarrow> (nat \<times> nat) set" where
  "scope_rel H = {(x, c). c \<in> set (map snd (children (scope_at H x)))}"

definition scope_arrays :: "nat scopes \<Rightarrow> nat \<Rightarrow> nat set" where
  "scope_arrays H sc = {a. \<exists>x. (sc, x) \<in> (scope_rel H)\<^sup>* \<and> a \<in> set (map snd (elements (scope_at H x)))}"

lemma scope_arrays_here:
  "a \<in> set (map snd (elements (scope_at H sc))) \<Longrightarrow> a \<in> scope_arrays H sc"
  unfolding scope_arrays_def by blast

lemma scope_arrays_child:
  assumes "c \<in> set (map snd (children (scope_at H sc)))" "a \<in> scope_arrays H c"
  shows "a \<in> scope_arrays H sc"
proof -
  from assms(2) obtain x where x: "(c, x) \<in> (scope_rel H)\<^sup>*"
    "a \<in> set (map snd (elements (scope_at H x)))" unfolding scope_arrays_def by blast
  from assms(1) have "(sc, c) \<in> scope_rel H" by (simp add: scope_rel_def)
  from converse_rtrancl_into_rtrancl[OF this x(1)] x(2) show ?thesis
    unfolding scope_arrays_def by blast
qed

lemma scope_arrays_cases:
  assumes "a \<in> scope_arrays H sc"
  obtains (here) "a \<in> set (map snd (elements (scope_at H sc)))"
  | (child) c where "c \<in> set (map snd (children (scope_at H sc)))" "a \<in> scope_arrays H c"
proof -
  from assms obtain x where x: "(sc, x) \<in> (scope_rel H)\<^sup>*"
    "a \<in> set (map snd (elements (scope_at H x)))" unfolding scope_arrays_def by blast
  from x(1) show ?thesis
  proof (cases rule: converse_rtranclE)
    case base
    with x(2) here show ?thesis by simp
  next
    case (step c)
    from step(1) have "c \<in> set (map snd (children (scope_at H sc)))" by (simp add: scope_rel_def)
    moreover from step(2) x(2) have "a \<in> scope_arrays H c" unfolding scope_arrays_def by blast
    ultimately show ?thesis by (rule child)
  qed
qed

text \<open>
  A descriptor is done with when its counter is zero, or its declarator is no longer
  in the parent recorded for it.
\<close>

definition clean :: "Array list \<Rightarrow> ast \<Rightarrow> nat \<Rightarrow> bool" where
  "clean D A a =
     (0 < replaceCount (array_at D a) \<longrightarrow>
        (\<exists>q. parentNode (array_at D a) = Some q \<and>
             array_node (array_at D a) \<notin> set (children_of A q)))"

lemma clean_pruned: "clean D A a \<Longrightarrow> pruned A A' \<Longrightarrow> clean D A' a"
  unfolding clean_def using pruned_children by blast

lemma removeNode_removes:
  assumes wf: "wf_decls A" and t: "ntype (node_at A d) = ''VariableDeclarator''"
  shows "d \<notin> set (children_of (removeNode A q d) q)"
proof (cases "d \<in> set (children_of A q)")
  case True
  from wf_decls_edge(2)[OF wf True t] have "count_list (remove1 d (children_of A q)) d = 0"
    by (simp add: count_list_remove1_same)
  then have "d \<notin> set (remove1 d (children_of A q))" by (metis count_list_0_iff)
  then show ?thesis by (simp add: children_of_removeNode)
next
  case False
  then show ?thesis by (simp add: removeNode_absent)
qed

lemma remove_elements_clean:
  "remove_elements as self = Inr s \<Longrightarrow> decl_inv self \<Longrightarrow>
   \<forall>a\<in>set as. clean (arrayStore self) (nodes s) a"
proof (induction as arbitrary: self)
  case Nil
  then show ?case by simp
next
  case (Cons a as)
  show ?case
  proof (cases "replaceCount (array_at (arrayStore self) a) > 0")
    case False
    with Cons.prems have r: "remove_elements as self = Inr s" by simp
    from Cons.IH[OF r Cons.prems(2)] False show ?thesis by (simp add: clean_def)
  next
    case True
    with Cons.prems obtain q where q: "parentNode (array_at (arrayStore self) a) = Some q"
      by (auto split: option.splits)
    let ?d = "array_node (array_at (arrayStore self) a)"
    let ?A = "removeNode (nodes self) q ?d"
    from True q Cons.prems have r: "remove_elements as (self\<lparr>nodes := ?A\<rparr>) = Inr s" by simp
    from decl_inv_removeNode[OF Cons.prems(2) True] have p: "pruned (nodes self) ?A" .
    note di = decl_inv_pruned[OF Cons.prems(2) p]
    from Cons.prems(2) array_at_mem[OF True] have t: "ntype (node_at (nodes self) ?d) = ''VariableDeclarator''"
      and wf: "wf_decls (nodes self)" by (simp_all add: decl_inv_def)
    from removeNode_removes[OF wf t] have "?d \<notin> set (children_of ?A q)" .
    with q have "clean (arrayStore self) ?A a" by (simp add: clean_def)
    moreover from remove_elements_pruned[OF r di] have "pruned ?A (nodes s)" by simp
    ultimately have "clean (arrayStore self) (nodes s) a" by (rule clean_pruned)
    with Cons.IH[OF r di] show ?thesis by simp
  qed
qed

lemma removeArrays_children_clean:
  assumes nd: "\<And>self sc s. removeArrays f self sc = Some (Inr s) \<Longrightarrow> decl_inv self \<Longrightarrow>
     \<forall>a\<in>scope_arrays (scopeStore self) sc. clean (arrayStore self) (nodes s) a"
  shows "removeArrays_children f self cs = Some (Inr s) \<Longrightarrow> decl_inv self \<Longrightarrow>
     \<forall>c\<in>set cs. \<forall>a\<in>scope_arrays (scopeStore self) c. clean (arrayStore self) (nodes s) a"
proof (induction cs arbitrary: self)
  case Nil
  then show ?case by simp
next
  case (Cons c cs)
  from Cons.prems(1) obtain s1 where s1: "removeArrays f self c = Some (Inr s1)"
    and r: "removeArrays_children f s1 cs = Some (Inr s)"
    by (auto split: option.splits sum.splits)
  from removeArrays_pruned[OF s1 Cons.prems(2)] have d1: "decl_inv s1" by simp
  from removeArrays_frame[OF s1] have same: "scopeStore s1 = scopeStore self"
    "arrayStore s1 = arrayStore self" by simp_all
  have p: "pruned (nodes s1) (nodes s)"
    using removeArrays_children_pruned[of f s1 cs s, OF removeArrays_pruned r d1] by simp
  from nd[OF s1 Cons.prems(2)] have "\<forall>a\<in>scope_arrays (scopeStore self) c. clean (arrayStore self) (nodes s1) a" .
  then have "\<forall>a\<in>scope_arrays (scopeStore self) c. clean (arrayStore self) (nodes s) a"
    using clean_pruned[OF _ p] by blast
  with Cons.IH[OF r d1] same show ?case by simp
qed

lemma removeArrays_clean:
  "removeArrays f self sc = Some (Inr s) \<Longrightarrow> decl_inv self \<Longrightarrow>
     \<forall>a\<in>scope_arrays (scopeStore self) sc. clean (arrayStore self) (nodes s) a"
proof (induction f arbitrary: self sc s)
  case 0
  then show ?case by simp
next
  case (Suc f)
  let ?H = "scopeStore self"
  from Suc.prems(1) obtain s1 where
    s1: "remove_elements (map snd (elements (scope_at ?H sc))) self = Inr s1"
    and r: "removeArrays_children f s1 (map snd (children (scope_at ?H sc))) = Some (Inr s)"
    by (auto split: sum.splits)
  from remove_elements_pruned[OF s1 Suc.prems(2)] have d1: "decl_inv s1" by simp
  from remove_elements_frame[OF s1] have same: "scopeStore s1 = ?H" "arrayStore s1 = arrayStore self"
    by simp_all
  have p: "pruned (nodes s1) (nodes s)"
    using removeArrays_children_pruned[of f s1 _ s, OF removeArrays_pruned r d1] by simp
  from remove_elements_clean[OF s1 Suc.prems(2)]
  have here: "\<forall>a\<in>set (map snd (elements (scope_at ?H sc))). clean (arrayStore self) (nodes s) a"
    using clean_pruned[OF _ p] by blast
  from removeArrays_children_clean[of f s1 _ s, OF Suc.IH r d1] same
  have kids: "\<forall>c\<in>set (map snd (children (scope_at ?H sc))).
                \<forall>a\<in>scope_arrays ?H c. clean (arrayStore self) (nodes s) a" by simp
  show ?case
  proof
    fix a assume "a \<in> scope_arrays ?H sc"
    then show "clean (arrayStore self) (nodes s) a"
    proof (cases rule: scope_arrays_cases)
      case here': here
      with here show ?thesis by blast
    next
      case (child c)
      with kids show ?thesis by blast
    qed
  qed
qed

text \<open>Where every descriptor within reach is done with, the cleanup changes nothing.\<close>

lemma remove_elements_noop:
  "\<forall>a\<in>set as. clean (arrayStore self) (nodes self) a \<Longrightarrow> remove_elements as self = Inr self"
proof (induction as)
  case Nil
  then show ?case by simp
next
  case (Cons a as)
  show ?case
  proof (cases "replaceCount (array_at (arrayStore self) a) > 0")
    case False
    with Cons show ?thesis by simp
  next
    case True
    with Cons.prems obtain q where q: "parentNode (array_at (arrayStore self) a) = Some q"
      and d: "array_node (array_at (arrayStore self) a) \<notin> set (children_of (nodes self) q)"
      by (auto simp: clean_def)
    from removeNode_absent[OF d] have "self\<lparr>nodes := removeNode (nodes self) q (array_node (array_at (arrayStore self) a))\<rparr> = self"
      by simp
    with True q Cons show ?thesis by simp
  qed
qed

lemma removeArrays_children_noop:
  assumes nd: "\<And>c res. c \<in> set cs \<Longrightarrow> removeArrays f self c = Some res \<Longrightarrow> res = Inr self"
  shows "removeArrays_children f self cs = Some res \<Longrightarrow> res = Inr self"
  using nd
proof (induction cs)
  case Nil
  then show ?case by simp
next
  case (Cons c cs)
  from Cons.prems(1) obtain r1 where r1: "removeArrays f self c = Some r1"
    by (auto split: option.splits)
  from Cons.prems(2)[OF _ r1] have "r1 = Inr self" by simp
  with r1 Cons.prems(1) have "removeArrays_children f self cs = Some res" by simp
  then show ?case
  proof (rule Cons.IH)
    fix c' res' assume "c' \<in> set cs" "removeArrays f self c' = Some res'"
    then show "res' = Inr self" using Cons.prems(2)[of c' res'] by simp
  qed
qed

lemma removeArrays_noop:
  "\<forall>a\<in>scope_arrays (scopeStore self) sc. clean (arrayStore self) (nodes self) a \<Longrightarrow>
   removeArrays f self sc = Some res \<Longrightarrow> res = Inr self"
proof (induction f arbitrary: sc res)
  case 0
  then show ?case by simp
next
  case (Suc f)
  let ?H = "scopeStore self"
  from Suc.prems(1) have "\<forall>a\<in>set (map snd (elements (scope_at ?H sc))). clean (arrayStore self) (nodes self) a"
    using scope_arrays_here by blast
  from remove_elements_noop[OF this] Suc.prems(2)
  have r: "removeArrays_children f self (map snd (children (scope_at ?H sc))) = Some res" by simp
  show ?case
  proof (rule removeArrays_children_noop[OF _ r])
    fix c res' assume c: "c \<in> set (map snd (children (scope_at ?H sc)))"
      and r': "removeArrays f self c = Some res'"
    from Suc.prems(1) c have "\<forall>a\<in>scope_arrays ?H c. clean (arrayStore self) (nodes self) a"
      using scope_arrays_child by blast
    from Suc.IH[OF this r'] show "res' = Inr self" .
  qed
qed


subsection \<open>The Scope store of a second run\<close>

text \<open>
  How a discovery round that finds nothing leaves the Scope store: the Scopes that
  were there keep their bindings, their \<open>children\<close> maps are as before or lead to
  Scopes constructed in this round, and those hold no binding.
\<close>

definition ext :: "nat scopes \<Rightarrow> nat scopes \<Rightarrow> bool" where
  "ext H1 H =
     (length H1 \<le> length H \<and>
      (\<forall>x<length H1.
         elements (scope_at H x) = elements (scope_at H1 x) \<and>
         (\<forall>c\<in>set (map snd (children (scope_at H x))).
            length H1 \<le> c \<or> c \<in> set (map snd (children (scope_at H1 x))))) \<and>
      (\<forall>x. length H1 \<le> x \<longrightarrow>
         elements (scope_at H x) = [] \<and>
         (\<forall>c\<in>set (map snd (children (scope_at H x))). length H1 \<le> c)))"

lemma ext_refl: "ext H H"
  by (auto simp: ext_def scope_at_def no_scope_def)

lemma ext_new_kids:
  "ext H1 H \<Longrightarrow> length H1 \<le> x \<Longrightarrow> c \<in> set (map snd (children (scope_at H x))) \<Longrightarrow>
   length H1 \<le> c"
  unfolding ext_def by blast

lemma ext_old_kids:
  "ext H1 H \<Longrightarrow> x < length H1 \<Longrightarrow> c \<in> set (map snd (children (scope_at H x))) \<Longrightarrow>
   length H1 \<le> c \<or> c \<in> set (map snd (children (scope_at H1 x)))"
  unfolding ext_def by blast

lemma ext_old_elements:
  "ext H1 H \<Longrightarrow> x < length H1 \<Longrightarrow> elements (scope_at H x) = elements (scope_at H1 x)"
  unfolding ext_def by blast

lemma ext_new_elements:
  "ext H1 H \<Longrightarrow> length H1 \<le> x \<Longrightarrow> elements (scope_at H x) = []"
  unfolding ext_def by blast

lemma update_values: "set (map snd (AList.update k v al)) \<subseteq> insert v (set (map snd al))"
  by (induction al) auto

lemma scope_at_new_Scope:
  "p < length H \<Longrightarrow>
   scope_at (fst (new_Scope H n t (Some p))) x =
     (if x = p then (scope_at H p)\<lparr>children := AList.update n (length H) (children (scope_at H p))\<rparr>
      else if x = length H then \<lparr>node = n, type = t, parent = Some p, children = [], elements = []\<rparr>
      else scope_at H x)"
  by (auto simp: new_Scope_Some scope_at_def nth_append nth_list_update)

lemma ext_new_Scope:
  assumes e: "ext H1 H" and p: "p < length H"
  shows "ext H1 (fst (new_Scope H n t (Some p)))"
  unfolding ext_def
proof (intro conjI allI impI)
  from e show "length H1 \<le> length (fst (new_Scope H n t (Some p)))"
    by (simp add: ext_def length_new_Scope)
next
  fix x assume x: "x < length H1"
  from e x have old: "elements (scope_at H x) = elements (scope_at H1 x)"
    "\<forall>c\<in>set (map snd (children (scope_at H x))).
        length H1 \<le> c \<or> c \<in> set (map snd (children (scope_at H1 x)))"
    and len: "length H1 \<le> length H"
    using ext_old_elements ext_old_kids unfolding ext_def by blast+
  from x len have ne: "x \<noteq> length H" by simp
  show "elements (scope_at (fst (new_Scope H n t (Some p))) x) = elements (scope_at H1 x)"
    using old(1) ne by (auto simp: scope_at_new_Scope[OF p])
  show "\<forall>c\<in>set (map snd (children (scope_at (fst (new_Scope H n t (Some p))) x))).
          length H1 \<le> c \<or> c \<in> set (map snd (children (scope_at H1 x)))"
  proof (cases "x = p")
    case True
    show ?thesis
    proof
      fix c assume "c \<in> set (map snd (children (scope_at (fst (new_Scope H n t (Some p))) x)))"
      with True have "c \<in> set (map snd (AList.update n (length H) (children (scope_at H p))))"
        by (simp add: scope_at_new_Scope[OF p])
      with update_values[of n "length H" "children (scope_at H p)"]
      have "c = length H \<or> c \<in> set (map snd (children (scope_at H p)))" by blast
      with old(2) True len show "length H1 \<le> c \<or> c \<in> set (map snd (children (scope_at H1 x)))"
        by auto
    qed
  next
    case False
    with old(2) ne show ?thesis by (simp add: scope_at_new_Scope[OF p])
  qed
next
  fix x assume x: "length H1 \<le> x"
  from e x have old: "elements (scope_at H x) = []"
    "\<forall>c\<in>set (map snd (children (scope_at H x))). length H1 \<le> c"
    and len: "length H1 \<le> length H"
    using ext_new_elements ext_new_kids unfolding ext_def by blast+
  show "elements (scope_at (fst (new_Scope H n t (Some p))) x) = []"
    using old(1) by (auto simp: scope_at_new_Scope[OF p])
  show "\<forall>c\<in>set (map snd (children (scope_at (fst (new_Scope H n t (Some p))) x))). length H1 \<le> c"
  proof (cases "x = p")
    case True
    show ?thesis
    proof
      fix c assume "c \<in> set (map snd (children (scope_at (fst (new_Scope H n t (Some p))) x)))"
      with True have "c \<in> set (map snd (AList.update n (length H) (children (scope_at H p))))"
        by (simp add: scope_at_new_Scope[OF p])
      with update_values[of n "length H" "children (scope_at H p)"]
      have "c = length H \<or> c \<in> set (map snd (children (scope_at H p)))" by blast
      with old(2) True len show "length H1 \<le> c" by auto
    qed
  next
    case False
    with old(2) show ?thesis by (simp add: scope_at_new_Scope[OF p])
  qed
qed

definition find_ext :: "nat scopes \<Rightarrow> nat \<Rightarrow> find_locals \<Rightarrow> bool" where
  "find_ext H1 g l = (find_tree g l \<and> (\<not> foundArrays l \<longrightarrow> ext H1 (scopeStore (fthis l))))"

lemma find_enter_ext:
  assumes inv: "find_ext H1 g l" and step: "find_enter n p l = Some (Inr l')"
  shows "find_ext H1 g l'"
proof -
  from inv have t: "find_tree g l" by (simp add: find_ext_def)
  note t' = find_enter_tree[OF t step]
  from step show ?thesis
  proof (cases rule: find_enter_cases)
    case scope
    from t have p: "fscope l < length (scopeStore (fthis l))" by (simp add: find_tree_def)
    show ?thesis
    proof (cases "foundArrays l")
      case True
      with t' scope(2) show ?thesis by (simp add: find_ext_def)
    next
      case False
      with inv have "ext H1 (scopeStore (fthis l))" by (simp add: find_ext_def)
      from ext_new_Scope[OF this p] t' scope(2) show ?thesis by (simp add: find_ext_def)
    qed
  next
    case found
    with t' show ?thesis by (simp add: find_ext_def)
  next
    case skip
    with inv show ?thesis by simp
  qed
qed

lemma find_leave_ext:
  assumes inv: "find_ext H1 g l" and step: "find_leave n l = Some (Inr l')"
  shows "find_ext H1 g l'"
proof -
  from inv have t: "find_tree g l" by (simp add: find_ext_def)
  note t' = find_leave_tree[OF t step]
  from step show ?thesis
  proof (cases rule: find_leave_cases)
    case (up q)
    with inv t' show ?thesis by (simp add: find_ext_def)
  next
    case stay
    with inv show ?thesis by simp
  qed
qed

lemma findArrays_ext:
  assumes fa: "findArrays f self = Some (Inr (False, s1))"
    and t: "scope_tree (scopeStore self) (globalScope self)"
  shows "ext (scopeStore self) (scopeStore s1)"
proof -
  from fa obtain l where
    tr: "traverse f (nodes \<circ> fthis) (ast self) find_visitor
       \<lparr>fthis = self, fscope = globalScope self, foundArrays = False\<rparr> = Some (Inr l)"
    and l: "False = foundArrays l" "s1 = fthis l" by (rule findArrays_Inr)
  have "find_ext (scopeStore self) (globalScope self) l"
  proof (rule traverse_invariant[of "find_ext (scopeStore self) (globalScope self)" find_visitor _ f
        "nodes \<circ> fthis" "ast self" l])
    show "\<And>n p s s'. find_ext (scopeStore self) (globalScope self) s \<Longrightarrow>
            enter find_visitor n p s = Some (Inr s') \<Longrightarrow> find_ext (scopeStore self) (globalScope self) s'"
      using find_enter_ext by simp
    show "\<And>n s s'. find_ext (scopeStore self) (globalScope self) s \<Longrightarrow>
            leave find_visitor n s = Some (Inr s') \<Longrightarrow> find_ext (scopeStore self) (globalScope self) s'"
      using find_leave_ext by simp
    show "find_ext (scopeStore self) (globalScope self)
            \<lparr>fthis = self, fscope = globalScope self, foundArrays = False\<rparr>"
      using t by (simp add: find_ext_def find_tree_def scope_tree_def ext_refl)
    show "traverse f (nodes \<circ> fthis) (ast self) find_visitor
       \<lparr>fthis = self, fscope = globalScope self, foundArrays = False\<rparr> = Some (Inr l)" by (rule tr)
  qed
  with l show ?thesis by (simp add: find_ext_def)
qed

lemma ext_reach:
  assumes e: "ext H1 H2" and g: "g < length H1"
  shows "(g, x) \<in> (scope_rel H2)\<^sup>* \<Longrightarrow>
         (x < length H1 \<and> (g, x) \<in> (scope_rel H1)\<^sup>*) \<or> length H1 \<le> x"
proof (induction rule: rtrancl_induct)
  case base
  with g show ?case by simp
next
  case (step y z)
  show ?case
  proof (cases "z < length H1")
    case False
    then show ?thesis by simp
  next
    case True
    from step(2) have z: "z \<in> set (map snd (children (scope_at H2 y)))" by (simp add: scope_rel_def)
    have y: "y < length H1"
    proof (rule ccontr)
      assume "\<not> y < length H1"
      then have "length H1 \<le> y" by simp
      from ext_new_kids[OF e this z] True show False by simp
    qed
    with step.IH have r: "(g, y) \<in> (scope_rel H1)\<^sup>*" by simp
    from ext_old_kids[OF e y z] True have "z \<in> set (map snd (children (scope_at H1 y)))" by simp
    then have "(y, z) \<in> scope_rel H1" by (simp add: scope_rel_def)
    with r True show ?thesis by auto
  qed
qed

lemma scope_arrays_ext:
  assumes e: "ext H1 H2" and g: "g < length H1"
  shows "scope_arrays H2 g \<subseteq> scope_arrays H1 g"
proof
  fix a assume "a \<in> scope_arrays H2 g"
  then obtain x where x: "(g, x) \<in> (scope_rel H2)\<^sup>*"
    "a \<in> set (map snd (elements (scope_at H2 x)))" unfolding scope_arrays_def by blast
  from ext_reach[OF e g x(1)] show "a \<in> scope_arrays H1 g"
  proof
    assume "x < length H1 \<and> (g, x) \<in> (scope_rel H1)\<^sup>*"
    moreover with e have "elements (scope_at H2 x) = elements (scope_at H1 x)" by (simp add: ext_old_elements)
    ultimately show ?thesis using x(2) unfolding scope_arrays_def by auto
  next
    assume "length H1 \<le> x"
    with e have "elements (scope_at H2 x) = []" by (simp add: ext_new_elements)
    with x(2) show ?thesis by simp
  qed
qed


subsection \<open>Fuel, and the pass object at the end of a run\<close>

text \<open>More fuel does not change what a walk returns.\<close>

lemma traverse_list_mono:
  assumes nd: "\<And>c p s s'. traverse_node f tree v c p s = Some (Inr s') \<Longrightarrow>
                 traverse_node g tree v c p s = Some (Inr s')"
  shows "traverse_list f tree v cs q s = Some (Inr s') \<Longrightarrow> traverse_list g tree v cs q s = Some (Inr s')"
proof (induction cs arbitrary: s)
  case Nil
  then show ?case by simp
next
  case (Cons c cs)
  from Cons.prems obtain s1 where a: "traverse_node f tree v c (Some q) s = Some (Inr s1)"
    and b: "traverse_list f tree v cs q s1 = Some (Inr s')" by (rule traverse_list_ConsE)
  from nd[OF a] Cons.IH[OF b] show ?case by simp
qed

lemma traverse_node_mono:
  "traverse_node f tree v n p s = Some (Inr s') \<Longrightarrow> f \<le> g \<Longrightarrow>
   traverse_node g tree v n p s = Some (Inr s')"
proof (induction f arbitrary: g n p s s')
  case 0
  then show ?case by simp
next
  case (Suc f)
  from Suc.prems(1) obtain s1 s2 where a: "enter v n p s = Some (Inr s1)"
    and b: "traverse_list f tree v (children_of (tree s1) n) n s1 = Some (Inr s2)"
    and c: "leave v n s2 = Some (Inr s')" by (rule traverse_node_SucE)
  from Suc.prems(2) obtain g' where g: "g = Suc g'" "f \<le> g'" by (auto dest: Suc_le_D)
  have "traverse_list g' tree v (children_of (tree s1) n) n s1 = Some (Inr s2)"
  proof (rule traverse_list_mono[OF _ b])
    fix c p s s' assume "traverse_node f tree v c p s = Some (Inr s')"
    from Suc.IH[OF this g(2)] show "traverse_node g' tree v c p s = Some (Inr s')" .
  qed
  with a c show ?case unfolding g(1) by simp
qed

lemma findArrays_mono:
  assumes "findArrays f self = Some (Inr x)" and "f \<le> g"
  shows "findArrays g self = Some (Inr x)"
proof -
  obtain found s1 where x: "x = (found, s1)" by (cases x)
  from assms(1) obtain l where
    t: "traverse f (nodes \<circ> fthis) (ast self) find_visitor
       \<lparr>fthis = self, fscope = globalScope self, foundArrays = False\<rparr> = Some (Inr l)"
    and l: "found = foundArrays l" "s1 = fthis l" unfolding x by (rule findArrays_Inr)
  from t have "traverse_node f (nodes \<circ> fthis) find_visitor (ast self) None
       \<lparr>fthis = self, fscope = globalScope self, foundArrays = False\<rparr> = Some (Inr l)"
    by (simp add: traverse_def)
  from traverse_node_mono[OF this assms(2)] l show ?thesis
    unfolding x by (simp add: findArrays_def traverse_def)
qed

text \<open>
  A \<open>children\<close> map leads to Scopes constructed later, so the recursion of
  \<open>removeArrays\<close> comes to an end.
\<close>

definition wf_kids :: "'a scopes \<Rightarrow> bool" where
  "wf_kids H = (\<forall>x. \<forall>c\<in>set (map snd (children (scope_at H x))). x < c \<and> c < length H)"

lemma wf_kids_kid:
  "wf_kids H \<Longrightarrow> c \<in> set (map snd (children (scope_at H x))) \<Longrightarrow> x < c \<and> c < length H"
  unfolding wf_kids_def by blast

lemma wf_kids_new_Scope:
  assumes k: "wf_kids H" and p: "p < length H"
  shows "wf_kids (fst (new_Scope H n t (Some p)))"
  unfolding wf_kids_def
proof (intro allI ballI)
  fix x c assume c: "c \<in> set (map snd (children (scope_at (fst (new_Scope H n t (Some p))) x)))"
  show "x < c \<and> c < length (fst (new_Scope H n t (Some p)))"
  proof (cases "x = p")
    case True
    with c have "c \<in> set (map snd (AList.update n (length H) (children (scope_at H p))))"
      by (simp add: scope_at_new_Scope[OF p])
    with update_values[of n "length H" "children (scope_at H p)"]
    have "c = length H \<or> c \<in> set (map snd (children (scope_at H p)))" by blast
    then show ?thesis
    proof
      assume "c = length H"
      with p True show ?thesis by (simp add: length_new_Scope)
    next
      assume "c \<in> set (map snd (children (scope_at H p)))"
      from wf_kids_kid[OF k this] True show ?thesis by (simp add: length_new_Scope)
    qed
  next
    case False
    with c have "c \<in> set (map snd (children (scope_at H x)))"
      by (auto simp: scope_at_new_Scope[OF p] split: if_splits)
    from wf_kids_kid[OF k this] show ?thesis by (simp add: length_new_Scope)
  qed
qed

lemma wf_kids_elements_set: "wf_kids H \<Longrightarrow> wf_kids (elements_set H s name v)"
  by (auto simp: wf_kids_def scope_at_elements_set length_elements_set)

definition find_kids :: "nat \<Rightarrow> find_locals \<Rightarrow> bool" where
  "find_kids g l = (find_tree g l \<and> wf_kids (scopeStore (fthis l)))"

lemma find_enter_kids:
  assumes inv: "find_kids g l" and step: "find_enter n p l = Some (Inr l')"
  shows "find_kids g l'"
proof -
  from inv have t: "find_tree g l" and k: "wf_kids (scopeStore (fthis l))"
    by (simp_all add: find_kids_def)
  note t' = find_enter_tree[OF t step]
  from step show ?thesis
  proof (cases rule: find_enter_cases)
    case scope
    from t have p: "fscope l < length (scopeStore (fthis l))" by (simp add: find_tree_def)
    from wf_kids_new_Scope[OF k p] t' scope(2) show ?thesis by (simp add: find_kids_def)
  next
    case found
    from wf_kids_elements_set[OF k] t' found(4) show ?thesis by (simp add: find_kids_def)
  next
    case skip
    with inv show ?thesis by simp
  qed
qed

lemma find_leave_kids:
  assumes inv: "find_kids g l" and step: "find_leave n l = Some (Inr l')"
  shows "find_kids g l'"
proof -
  from inv have t: "find_tree g l" by (simp add: find_kids_def)
  note t' = find_leave_tree[OF t step]
  from step show ?thesis
  proof (cases rule: find_leave_cases)
    case (up q)
    with inv t' show ?thesis by (simp add: find_kids_def)
  next
    case stay
    with inv show ?thesis by simp
  qed
qed

lemma findArrays_kids:
  assumes fa: "findArrays f self = Some (Inr (found, s1))"
    and t: "scope_tree (scopeStore self) (globalScope self)"
    and k: "wf_kids (scopeStore self)"
  shows "wf_kids (scopeStore s1)"
proof -
  from fa obtain l where
    tr: "traverse f (nodes \<circ> fthis) (ast self) find_visitor
       \<lparr>fthis = self, fscope = globalScope self, foundArrays = False\<rparr> = Some (Inr l)"
    and l: "found = foundArrays l" "s1 = fthis l" by (rule findArrays_Inr)
  have "find_kids (globalScope self) l"
  proof (rule traverse_invariant[of "find_kids (globalScope self)" find_visitor _ f
        "nodes \<circ> fthis" "ast self" l])
    show "\<And>n p s s'. find_kids (globalScope self) s \<Longrightarrow>
            enter find_visitor n p s = Some (Inr s') \<Longrightarrow> find_kids (globalScope self) s'"
      using find_enter_kids by simp
    show "\<And>n s s'. find_kids (globalScope self) s \<Longrightarrow>
            leave find_visitor n s = Some (Inr s') \<Longrightarrow> find_kids (globalScope self) s'"
      using find_leave_kids by simp
    show "find_kids (globalScope self) \<lparr>fthis = self, fscope = globalScope self, foundArrays = False\<rparr>"
      using t k by (simp add: find_kids_def find_tree_def scope_tree_def)
    show "traverse f (nodes \<circ> fthis) (ast self) find_visitor
       \<lparr>fthis = self, fscope = globalScope self, foundArrays = False\<rparr> = Some (Inr l)" by (rule tr)
  qed
  with l show ?thesis by (simp add: find_kids_def)
qed

lemma execute_loop_kids:
  "execute_loop r f self = Some (Inr s) \<Longrightarrow> scope_tree (scopeStore self) (globalScope self) \<Longrightarrow>
   wf_kids (scopeStore self) \<Longrightarrow> wf_kids (scopeStore s)"
proof (induction r arbitrary: self)
  case 0
  then show ?case by simp
next
  case (Suc r)
  from Suc.prems(1) obtain found s1 where fa: "findArrays f self = Some (Inr (found, s1))"
    by (auto split: option.splits sum.splits)
  from findArrays_tree[OF fa Suc.prems(2)] have t1: "scope_tree (scopeStore s1) (globalScope s1)" .
  from findArrays_kids[OF fa Suc.prems(2,3)] have k1: "wf_kids (scopeStore s1)" .
  show ?case
  proof (cases found)
    case False
    with Suc.prems(1) fa k1 show ?thesis by simp
  next
    case True
    with Suc.prems(1) fa obtain s2 where ua: "unpackArrays f s1 = Some (Inr s2)"
      and rest: "execute_loop r f s2 = Some (Inr s)"
      by (auto split: option.splits sum.splits)
    from unpackArrays_rel[OF ua] t1 k1 have "scope_tree (scopeStore s2) (globalScope s2)"
      "wf_kids (scopeStore s2)" by simp_all
    from Suc.IH[OF rest this] show ?thesis .
  qed
qed

lemma wf_kids_new: "wf_kids (scopeStore (new_ArrayUnpacker A rt rm))"
  by (simp add: new_ArrayUnpacker_def new_Scope_def wf_kids_def scope_at_def no_scope_def)

lemma removeArrays_children_same:
  "\<forall>c\<in>set cs. removeArrays f self c = Some (Inr self) \<Longrightarrow>
   removeArrays_children f self cs = Some (Inr self)"
  by (induction cs) simp_all

lemma removeArrays_returns:
  "wf_kids (scopeStore self) \<Longrightarrow>
   \<forall>a\<in>scope_arrays (scopeStore self) sc. clean (arrayStore self) (nodes self) a \<Longrightarrow>
   0 < f \<Longrightarrow> length (scopeStore self) < f + sc \<Longrightarrow>
   removeArrays f self sc = Some (Inr self)"
proof (induction f arbitrary: sc)
  case 0
  then show ?case by simp
next
  case (Suc f)
  let ?H = "scopeStore self"
  from Suc.prems(2) have "\<forall>a\<in>set (map snd (elements (scope_at ?H sc))). clean (arrayStore self) (nodes self) a"
    using scope_arrays_here by blast
  from remove_elements_noop[OF this]
  have here: "remove_elements (map snd (elements (scope_at ?H sc))) self = Inr self" .
  have "\<forall>c\<in>set (map snd (children (scope_at ?H sc))). removeArrays f self c = Some (Inr self)"
  proof
    fix c assume c: "c \<in> set (map snd (children (scope_at ?H sc)))"
    from wf_kids_kid[OF Suc.prems(1) c] have lt: "sc < c" "c < length ?H" by simp_all
    with Suc.prems(4) have f: "0 < f" "length ?H < f + c" by simp_all
    from Suc.prems(2) c have "\<forall>a\<in>scope_arrays ?H c. clean (arrayStore self) (nodes self) a"
      using scope_arrays_child by blast
    from Suc.IH[OF Suc.prems(1) this f] show "removeArrays f self c = Some (Inr self)" .
  qed
  from removeArrays_children_same[OF this] here show ?case by simp
qed

text \<open>The pass object at the end of a run, and what a second run on it does.\<close>

definition settled :: "nat \<Rightarrow> ArrayUnpacker \<Rightarrow> bool" where
  "settled L s =
     (all_seen s \<and> pass_inv L {n. children_of (nodes s) n = []} s \<and>
      scope_tree (scopeStore s) (globalScope s) \<and> wf_kids (scopeStore s) \<and>
      (shouldRemoveArrays s \<longrightarrow>
         (\<forall>a\<in>scope_arrays (scopeStore s) (globalScope s). clean (arrayStore s) (nodes s) a)))"

lemma execute_loop_flag:
  "execute_loop r f self = Some (Inr s) \<Longrightarrow> shouldRemoveArrays s = shouldRemoveArrays self"
proof (induction r arbitrary: self)
  case 0
  then show ?case by simp
next
  case (Suc r)
  from Suc.prems(1) obtain found s1 where fa: "findArrays f self = Some (Inr (found, s1))"
    by (auto split: option.splits sum.splits)
  from findArrays_rel[OF fa] have f1: "shouldRemoveArrays s1 = shouldRemoveArrays self" by simp
  show ?case
  proof (cases found)
    case False
    with Suc.prems(1) fa f1 show ?thesis by simp
  next
    case True
    with Suc.prems(1) fa obtain s2 where ua: "unpackArrays f s1 = Some (Inr s2)"
      and rest: "execute_loop r f s2 = Some (Inr s)"
      by (auto split: option.splits sum.splits)
    from unpackArrays_rel[OF ua] f1 Suc.IH[OF rest] show ?thesis by simp
  qed
qed

lemma execute_settled:
  assumes wf: "wf_ast A" and wd: "wf_decls A"
    and run: "execute r f (new_ArrayUnpacker A rt rm) = Some (Inr s)"
  shows "settled (length A) s"
proof -
  from run obtain s1 where loop: "execute_loop r f (new_ArrayUnpacker A rt rm) = Some (Inr s1)"
    and fin: "(if shouldRemoveArrays s1 then removeArrays f s1 (globalScope s1) else Some (Inr s1)) = Some (Inr s)"
    by (auto simp: execute_def split: option.splits sum.splits)
  from execute_result[OF wf wd run] have a: "all_seen s"
    "pass_inv (length A) {n. children_of (nodes s) n = []} s" by simp_all
  from execute_loop_tree[OF loop scope_tree_new] have t1: "scope_tree (scopeStore s1) (globalScope s1)" .
  from execute_loop_kids[OF loop scope_tree_new wf_kids_new] have k1: "wf_kids (scopeStore s1)" .
  from execute_loop_decl[OF loop decl_inv_new[OF wd]] have di: "decl_inv s1" .
  show ?thesis
  proof (cases "shouldRemoveArrays s1")
    case True
    with fin have ra: "removeArrays f s1 (globalScope s1) = Some (Inr s)" by simp
    from removeArrays_frame[OF ra] have same: "scopeStore s = scopeStore s1"
      "globalScope s = globalScope s1" "arrayStore s = arrayStore s1" by simp_all
    from removeArrays_clean[OF ra di] same
    have "\<forall>a\<in>scope_arrays (scopeStore s) (globalScope s). clean (arrayStore s) (nodes s) a" by simp
    with a t1 k1 same show ?thesis by (simp add: settled_def)
  next
    case False
    with fin have "s = s1" by simp
    with a t1 k1 False show ?thesis by (simp add: settled_def)
  qed
qed

lemma settled_findArrays:
  assumes st: "settled L s" and fa: "findArrays f s = Some (Inr (found, s2))"
  shows "\<not> found \<and> nodes s2 = nodes s \<and> arrayNodes s2 = arrayNodes s \<and> arrayStore s2 = arrayStore s \<and>
         wf_kids (scopeStore s2) \<and>
         (shouldRemoveArrays s2 \<longrightarrow>
            (\<forall>a\<in>scope_arrays (scopeStore s2) (globalScope s2). clean (arrayStore s2) (nodes s2) a))"
proof -
  from st have seen: "all_seen s" and t: "scope_tree (scopeStore s) (globalScope s)"
    and k: "wf_kids (scopeStore s)" by (simp_all add: settled_def)
  from all_seen_findArrays[OF seen fa] have q: "\<not> found" "nodes s2 = nodes s"
    "arrayNodes s2 = arrayNodes s" "arrayStore s2 = arrayStore s"
    "globalScope s2 = globalScope s" "shouldRemoveArrays s2 = shouldRemoveArrays s" by simp_all
  from fa q(1) have fa': "findArrays f s = Some (Inr (False, s2))" by simp
  from t have g: "globalScope s < length (scopeStore s)" by (simp add: scope_tree_def)
  from scope_arrays_ext[OF findArrays_ext[OF fa' t] g]
  have sub: "scope_arrays (scopeStore s2) (globalScope s) \<subseteq> scope_arrays (scopeStore s) (globalScope s)" .
  have "shouldRemoveArrays s2 \<longrightarrow>
            (\<forall>a\<in>scope_arrays (scopeStore s2) (globalScope s2). clean (arrayStore s2) (nodes s2) a)"
  proof
    assume "shouldRemoveArrays s2"
    with q(6) st have "\<forall>a\<in>scope_arrays (scopeStore s) (globalScope s). clean (arrayStore s) (nodes s) a"
      by (simp add: settled_def)
    with sub show "\<forall>a\<in>scope_arrays (scopeStore s2) (globalScope s2). clean (arrayStore s2) (nodes s2) a"
      unfolding q by blast
  qed
  with q findArrays_kids[OF fa t k] show ?thesis by simp
qed

lemma settled_execute:
  assumes st: "settled L s" and run: "execute r f s = Some res"
  shows "\<exists>s'. res = Inr s' \<and> nodes s' = nodes s \<and> arrayNodes s' = arrayNodes s \<and>
              arrayStore s' = arrayStore s"
proof (cases r)
  case 0
  with run show ?thesis by (simp add: execute_def)
next
  case (Suc k)
  from run obtain x where x: "findArrays f s = Some x"
    unfolding Suc by (auto simp: execute_def split: option.splits)
  with findArrays_no_error[of f s] obtain found s2 where fa: "findArrays f s = Some (Inr (found, s2))"
    by (cases x) auto
  note q = settled_findArrays[OF st fa]
  from q fa have loop: "execute_loop r f s = Some (Inr s2)" unfolding Suc by simp
  show ?thesis
  proof (cases "shouldRemoveArrays s2")
    case True
    with loop run have ra: "removeArrays f s2 (globalScope s2) = Some res" by (simp add: execute_def)
    from q True have "\<forall>a\<in>scope_arrays (scopeStore s2) (globalScope s2). clean (arrayStore s2) (nodes s2) a"
      by blast
    from removeArrays_noop[OF this ra] q show ?thesis by blast
  next
    case False
    with loop run have "res = Inr s2" by (simp add: execute_def)
    with q show ?thesis by simp
  qed
qed

lemma settled_returns:
  assumes st: "settled L s"
  shows "\<exists>f0. \<forall>f\<ge>f0. \<forall>r. \<exists>s'. execute (Suc r) f s = Some (Inr s')"
proof -
  from st have seen: "all_seen s" and pi: "pass_inv L {n. children_of (nodes s) n = []} s"
    by (simp_all add: settled_def)
  from all_seen_loop[OF seen pi, of "Suc L" 0] obtain s2 where
    fa: "findArrays (Suc L) s = Some (Inr (False, s2))" by auto
  note q = settled_findArrays[OF st fa]
  let ?f0 = "max (Suc L) (Suc (length (scopeStore s2)))"
  have "\<forall>f\<ge>?f0. \<forall>r. \<exists>s'. execute (Suc r) f s = Some (Inr s')"
  proof (intro allI impI)
    fix f r assume f: "?f0 \<le> f"
    then have "Suc L \<le> f" by simp
    from findArrays_mono[OF fa this] have loop: "execute_loop (Suc r) f s = Some (Inr s2)" by simp
    show "\<exists>s'. execute (Suc r) f s = Some (Inr s')"
    proof (cases "shouldRemoveArrays s2")
      case True
      with q have cl: "\<forall>a\<in>scope_arrays (scopeStore s2) (globalScope s2). clean (arrayStore s2) (nodes s2) a"
        and k: "wf_kids (scopeStore s2)" by blast+
      from f have "0 < f" "length (scopeStore s2) < f + globalScope s2" by simp_all
      from removeArrays_returns[OF k cl this] loop True show ?thesis by (simp add: execute_def)
    next
      case False
      with loop show ?thesis by (simp add: execute_def)
    qed
  qed
  then show ?thesis by blast
qed


subsection \<open>The second run\<close>

lemma wf_decls_code [code]:
  "wf_decls A =
     list_all (\<lambda>p. list_all (\<lambda>c. ntype (node_at A c) = ''VariableDeclarator'' \<longrightarrow>
                                   ntype (A ! p) = ''VariableDeclaration'' \<and>
                                   count_list (children_of A p) c = 1) (children_of A p))
       [0..<length A]"
  by (auto simp: wf_decls_def list_all_iff)

text \<open>
  The pass object at the end of the run on
  \<^verbatim>\<open>const a = [1, 2]; const b = [1]; a[b[0]];\<close> with cleanup enabled: \<open>b[0]\<close> has been
  inlined and \<open>b\<close> removed; \<open>a[1]\<close>, which the rewrite left behind, stands as it is,
  since \<open>a\<close> was seen before the rewrite made its index a literal.
\<close>

definition final_nested_index :: ArrayUnpacker where
  "final_nested_index =
     \<lparr>nodes = tree_nested_index_after,
      scopeStore =
        [\<lparr>node = 0, type = Other, parent = None, children = [], elements = [(''a'', 0), (''b'', 1)]\<rparr>],
      arrayStore =
        [\<lparr>array_node = 3, parentNode = Some 2, array_name = ''a'',
          array_elements = [Some 6, Some 7], replaceCount = 0\<rparr>,
         \<lparr>array_node = 10, parentNode = Some 9, array_name = ''b'',
          array_elements = [Some 13], replaceCount = 1\<rparr>],
      ast = 0, shouldRemoveArrays = True, globalScope = 0, arrayNodes = {3, 10}\<rparr>"

lemma wf_tree_nested_index: "wf_ast tree_nested_index \<and> wf_decls tree_nested_index"
  by code_simp

lemma execute_tree_nested_index:
  "execute 3 8 (new_ArrayUnpacker tree_nested_index 0 True) = Some (Inr final_nested_index)"
  by code_simp

lemma execute_again_nested_index:
  "execute 1 21 final_nested_index = Some (Inr final_nested_index)"
  by code_simp


text \<open>
  Claim C5, as the code has it. The claim says that running the pass again on a tree
  on which it has just completed discovers nothing and changes nothing. Each run of the
  pass is a newly constructed pass object, whose seen-set is empty. On
  \<^verbatim>\<open>const a = [1, 2]; const b = [1]; a[b[0]];\<close> the first run leaves
  \<^verbatim>\<open>const a = [1, 2]; a[1];\<close>; the first discovery round of a second, newly
  constructed pass on that tree reports a new array (\<open>a\<close>), and the second run
  rewrites \<open>a[1]\<close> and removes \<open>a\<close>.
\<close>

theorem second_pass_counterexample:
  "result_nodes (execute 3 8 (new_ArrayUnpacker tree_nested_index 0 True)) = Some tree_nested_index_after \<and>
   found_flag (findArrays 8 (new_ArrayUnpacker tree_nested_index_after 0 True)) = Some True \<and>
   result_nodes (execute 3 8 (new_ArrayUnpacker tree_nested_index_after 0 True))
     = Some tree_nested_index_after2 \<and>
   tree_nested_index_after2 \<noteq> tree_nested_index_after"
  by code_simp


text \<open>
  Claim C5, amended: when \<open>execute\<close> has completed on a newly constructed pass over a
  well-formed tree, \<open>execute\<close> run again on the same pass object (its seen-set kept)
  discovers nothing and changes nothing. The first discovery round of the second run
  returns and reports no new array; whatever the second run returns is a pass object,
  not an error, whose tree, seen-set and descriptors (with their usage counters) are
  those the first run left; and the second run does return, for every positive bound
  on the rounds and all fuel from some amount on.
\<close>

theorem execute_again_same_pass:
  assumes "wf_ast A" and "wf_decls A"
    and "execute r f (new_ArrayUnpacker A rt rm) = Some (Inr s)"
  shows "(\<forall>f'. length A < f' \<longrightarrow> (\<exists>s2. findArrays f' s = Some (Inr (False, s2)))) \<and>
         (\<forall>r' f' res. execute r' f' s = Some res \<longrightarrow>
            (\<exists>s'. res = Inr s' \<and> nodes s' = nodes s \<and> arrayNodes s' = arrayNodes s \<and>
                  arrayStore s' = arrayStore s)) \<and>
         (\<exists>f0. \<forall>f'\<ge>f0. \<forall>r'. \<exists>s'. execute (Suc r') f' s = Some (Inr s'))"
proof (intro conjI allI impI)
  fix f' assume lt: "length A < f'"
  from execute_settled[OF assms] have seen: "all_seen s"
    and pi: "pass_inv (length A) {n. children_of (nodes s) n = []} s"
    by (simp_all add: settled_def)
  from all_seen_loop[OF seen pi lt, of 0]
  show "\<exists>s2. findArrays f' s = Some (Inr (False, s2))" by blast
next
  fix r' f' res assume "execute r' f' s = Some res"
  from settled_execute[OF execute_settled[OF assms] this]
  show "\<exists>s'. res = Inr s' \<and> nodes s' = nodes s \<and> arrayNodes s' = arrayNodes s \<and>
             arrayStore s' = arrayStore s" .
next
  from settled_returns[OF execute_settled[OF assms]]
  show "\<exists>f0. \<forall>f'\<ge>f0. \<forall>r'. \<exists>s'. execute (Suc r') f' s = Some (Inr s')" .
qed

theorem execute_again_same_pass_witness:
  "wf_ast tree_nested_index \<and> wf_decls tree_nested_index \<and>
   execute 3 8 (new_ArrayUnpacker tree_nested_index 0 True) = Some (Inr final_nested_index) \<and>
   length tree_nested_index < 21 \<and>
   (\<exists>s2. findArrays 21 final_nested_index = Some (Inr (False, s2))) \<and>
   execute 1 21 final_nested_index = Some (Inr final_nested_index) \<and>
   (\<exists>s'. (Inr final_nested_index :: error + ArrayUnpacker) = Inr s' \<and>
         nodes s' = tree_nested_index_after \<and> arrayNodes s' = {3, 10})"
proof -
  have len: "length tree_nested_index < 21" by (simp add: tree_nested_index_def)
  have wf: "wf_ast tree_nested_index" "wf_decls tree_nested_index"
    using wf_tree_nested_index by simp_all
  note again = execute_again_same_pass[OF wf execute_tree_nested_index]
  from again len have a: "\<exists>s2. findArrays 21 final_nested_index = Some (Inr (False, s2))" by blast
  from again execute_again_nested_index
  have b: "\<exists>s'. (Inr final_nested_index :: error + ArrayUnpacker) = Inr s' \<and>
         nodes s' = nodes final_nested_index \<and> arrayNodes s' = arrayNodes final_nested_index \<and>
         arrayStore s' = arrayStore final_nested_index" by blast
  from b have c: "\<exists>s'. (Inr final_nested_index :: error + ArrayUnpacker) = Inr s' \<and>
         nodes s' = tree_nested_index_after \<and> arrayNodes s' = {3, 10}"
    by (auto simp: final_nested_index_def)
  from wf execute_tree_nested_index len a execute_again_nested_index c show ?thesis by blast
qed


section \<open>What a discovery round records\<close>

subsection \<open>The seen-set and the descriptors\<close>

text \<open>
  What a discovery walk does to the pass object: it changes no tree node, it only adds
  to the seen-set and appends to the descriptors, and it does not take the flag back.
\<close>

definition find_mono :: "find_locals \<Rightarrow> find_locals \<Rightarrow> bool" where
  "find_mono l l' =
     (nodes (fthis l') = nodes (fthis l) \<and>
      arrayNodes (fthis l) \<subseteq> arrayNodes (fthis l') \<and>
      prefix (arrayStore (fthis l)) (arrayStore (fthis l')) \<and>
      (foundArrays l \<longrightarrow> foundArrays l'))"

lemma find_mono_refl: "find_mono l l"
  by (simp add: find_mono_def)

lemma find_mono_trans: "find_mono l l1 \<Longrightarrow> find_mono l1 l2 \<Longrightarrow> find_mono l l2"
  unfolding find_mono_def by (auto intro: prefix_order.trans)

lemma find_enter_mono:
  assumes "find_enter n p l = Some (Inr l')"
  shows "find_mono l l'"
  using assms by (cases rule: find_enter_cases) (auto simp: find_mono_def)

lemma find_leave_mono:
  assumes "find_leave n l = Some (Inr l')"
  shows "find_mono l l'"
  using assms by (cases rule: find_leave_cases) (auto simp: find_mono_def)

lemma find_node_mono:
  assumes "traverse_node f (nodes \<circ> fthis) find_visitor n p l = Some (Inr l')"
  shows "find_mono l l'"
proof (rule traverse_node_invariant[of "find_mono l" find_visitor l f "nodes \<circ> fthis" n p l'])
  show "\<And>n p s s'. find_mono l s \<Longrightarrow> enter find_visitor n p s = Some (Inr s') \<Longrightarrow> find_mono l s'"
    using find_enter_mono find_mono_trans by (metis visitor.select_convs(1))
  show "\<And>n s s'. find_mono l s \<Longrightarrow> leave find_visitor n s = Some (Inr s') \<Longrightarrow> find_mono l s'"
    using find_leave_mono find_mono_trans by (metis visitor.select_convs(2))
  show "find_mono l l" by (rule find_mono_refl)
  show "traverse_node f (nodes \<circ> fthis) find_visitor n p l = Some (Inr l')" by (rule assms)
qed

lemma find_list_mono:
  assumes "traverse_list f (nodes \<circ> fthis) find_visitor cs q l = Some (Inr l')"
  shows "find_mono l l'"
proof (rule traverse_list_invariant[of "find_mono l" f "nodes \<circ> fthis" find_visitor l cs q l'])
  show "\<And>n p s s'. find_mono l s \<Longrightarrow>
          traverse_node f (nodes \<circ> fthis) find_visitor n p s = Some (Inr s') \<Longrightarrow> find_mono l s'"
    using find_node_mono find_mono_trans by blast
  show "find_mono l l" by (rule find_mono_refl)
  show "traverse_list f (nodes \<circ> fthis) find_visitor cs q l = Some (Inr l')" by (rule assms)
qed

text \<open>A discovery walk comes to every literal array declaration within reach.\<close>

lemma find_visits_list:
  assumes nd: "\<And>n p l l' m. traverse_node f (nodes \<circ> fthis) find_visitor n p l = Some (Inr l') \<Longrightarrow>
      (n, m) \<in> (child_rel (nodes (fthis l)))\<^sup>* \<Longrightarrow>
      isLiteralArrayDeclaration (nodes (fthis l)) m \<Longrightarrow> m \<in> arrayNodes (fthis l')"
  shows "traverse_list f (nodes \<circ> fthis) find_visitor cs q l = Some (Inr l') \<Longrightarrow>
      c \<in> set cs \<Longrightarrow> (c, m) \<in> (child_rel (nodes (fthis l)))\<^sup>* \<Longrightarrow>
      isLiteralArrayDeclaration (nodes (fthis l)) m \<Longrightarrow> m \<in> arrayNodes (fthis l')"
proof (induction cs arbitrary: l)
  case Nil
  then show ?case by simp
next
  case (Cons c' cs)
  from Cons.prems(1) obtain l1 where
    l1: "traverse_node f (nodes \<circ> fthis) find_visitor c' (Some q) l = Some (Inr l1)"
    and r: "traverse_list f (nodes \<circ> fthis) find_visitor cs q l1 = Some (Inr l')"
    by (rule traverse_list_ConsE)
  from find_node_mono[OF l1] have same: "nodes (fthis l1) = nodes (fthis l)"
    by (simp add: find_mono_def)
  show ?case
  proof (cases "c = c'")
    case True
    from nd[OF l1] Cons.prems(3,4) True have "m \<in> arrayNodes (fthis l1)" by simp
    with find_list_mono[OF r] show ?thesis by (auto simp: find_mono_def)
  next
    case False
    with Cons.prems(2) have "c \<in> set cs" by simp
    from Cons.IH[OF r this] Cons.prems(3,4) same show ?thesis by simp
  qed
qed

lemma find_visits_node:
  "traverse_node f (nodes \<circ> fthis) find_visitor n p l = Some (Inr l') \<Longrightarrow>
   (n, m) \<in> (child_rel (nodes (fthis l)))\<^sup>* \<Longrightarrow>
   isLiteralArrayDeclaration (nodes (fthis l)) m \<Longrightarrow> m \<in> arrayNodes (fthis l')"
proof (induction f arbitrary: n p l l' m)
  case 0
  then show ?case by simp
next
  case (Suc f)
  from Suc.prems(1) obtain l1 l2 where l1: "find_enter n p l = Some (Inr l1)"
    and l2: "traverse_list f (nodes \<circ> fthis) find_visitor (children_of (nodes (fthis l1)) n) n l1 = Some (Inr l2)"
    and lv: "find_leave n l2 = Some (Inr l')"
    by (rule find_node_SucE)
  from find_enter_mono[OF l1] have same: "nodes (fthis l1) = nodes (fthis l)"
    by (simp add: find_mono_def)
  from find_mono_trans[OF find_list_mono[OF l2] find_leave_mono[OF lv]]
  have m2: "find_mono l1 l'" .
  from Suc.prems(2) show ?case
  proof (cases rule: converse_rtranclE)
    case base
    with Suc.prems(3) have lit: "isLiteralArrayDeclaration (nodes (fthis l)) n" by simp
    have "n \<in> arrayNodes (fthis l1)"
    proof (cases "n \<in> arrayNodes (fthis l)")
      case True
      with find_enter_mono[OF l1] show ?thesis by (auto simp: find_mono_def)
    next
      case False
      from find_enter_found[OF isLiteralArrayDeclaration_not_scope[OF lit] lit False, of p] l1
      have "arrayNodes (fthis l1) = insert n (arrayNodes (fthis l))" by auto
      then show ?thesis by simp
    qed
    with m2 base show ?thesis by (auto simp: find_mono_def)
  next
    case (step c)
    from step(1) same have c: "c \<in> set (children_of (nodes (fthis l1)) n)" by (simp add: child_rel_def)
    have "m \<in> arrayNodes (fthis l2)"
    proof (rule find_visits_list[of f _ n l1 l2 c m, OF _ l2 c])
      show "\<And>n p l l' m. traverse_node f (nodes \<circ> fthis) find_visitor n p l = Some (Inr l') \<Longrightarrow>
          (n, m) \<in> (child_rel (nodes (fthis l)))\<^sup>* \<Longrightarrow>
          isLiteralArrayDeclaration (nodes (fthis l)) m \<Longrightarrow> m \<in> arrayNodes (fthis l')"
        using Suc.IH by blast
      show "(c, m) \<in> (child_rel (nodes (fthis l1)))\<^sup>*" using step(2) same by simp
      show "isLiteralArrayDeclaration (nodes (fthis l1)) m" using Suc.prems(3) same by simp
    qed
    with find_leave_mono[OF lv] show ?thesis by (auto simp: find_mono_def)
  qed
qed

text \<open>
  What has been recorded for a declarator: the flag is set and, among the descriptors
  appended since the store had length \<open>k\<close>, there is the one \<open>enter\<close> constructs for
  it, with the name of its binding, all the elements of its initializer and the
  counter at zero; the parent recorded is the node the walk came from (none for the
  root of the walk).
\<close>

definition recorded :: "ast \<Rightarrow> nat \<Rightarrow> nat \<Rightarrow> find_locals \<Rightarrow> nat \<Rightarrow> bool" where
  "recorded A rt k l m =
     (foundArrays l \<and>
      (\<exists>a q. k \<le> a \<and> a < length (arrayStore (fthis l)) \<and>
             arrayStore (fthis l) ! a =
               new_Array m q (child_name A m ''binding'') (init_elements A m) \<and>
             (case q of None \<Rightarrow> m = rt | Some p \<Rightarrow> m \<in> set (children_of A p))))"

lemma prefix_nth: "prefix xs ys \<Longrightarrow> a < length xs \<Longrightarrow> ys ! a = xs ! a"
  by (auto simp: prefix_def nth_append)

lemma recorded_mono:
  assumes mo: "find_mono l l'" and r: "recorded A rt k l m" and k: "k' \<le> k"
  shows "recorded A rt k' l' m"
proof -
  from r obtain a q where f: "foundArrays l" and a: "k \<le> a" "a < length (arrayStore (fthis l))"
    "arrayStore (fthis l) ! a = new_Array m q (child_name A m ''binding'') (init_elements A m)"
    "(case q of None \<Rightarrow> m = rt | Some p \<Rightarrow> m \<in> set (children_of A p))"
    unfolding recorded_def by blast
  from mo have p: "prefix (arrayStore (fthis l)) (arrayStore (fthis l'))" and f': "foundArrays l'"
    using f by (simp_all add: find_mono_def)
  from prefix_length_le[OF p] a(2) have "a < length (arrayStore (fthis l'))" by simp
  moreover from prefix_nth[OF p a(2)] a(3)
  have "arrayStore (fthis l') ! a = new_Array m q (child_name A m ''binding'') (init_elements A m)" by simp
  moreover from k a(1) have "k' \<le> a" by simp
  ultimately show ?thesis using f' a(4) unfolding recorded_def by blast
qed

definition news :: "nat \<Rightarrow> find_locals \<Rightarrow> find_locals \<Rightarrow> bool" where
  "news rt l l' =
     (find_mono l l' \<and>
      (\<forall>m\<in>arrayNodes (fthis l') - arrayNodes (fthis l).
         recorded (nodes (fthis l)) rt (length (arrayStore (fthis l))) l' m))"

lemma news_refl: "news rt l l"
  by (simp add: news_def find_mono_refl)

lemma news_trans:
  assumes a: "news rt l l1" and b: "news rt l1 l2"
  shows "news rt l l2"
  unfolding news_def
proof (intro conjI ballI)
  from a b have m1: "find_mono l l1" and m2: "find_mono l1 l2" by (simp_all add: news_def)
  from find_mono_trans[OF m1 m2] show "find_mono l l2" .
  from m1 have same: "nodes (fthis l1) = nodes (fthis l)"
    and le: "length (arrayStore (fthis l)) \<le> length (arrayStore (fthis l1))"
    by (auto simp: find_mono_def dest: prefix_length_le)
  fix m assume m: "m \<in> arrayNodes (fthis l2) - arrayNodes (fthis l)"
  show "recorded (nodes (fthis l)) rt (length (arrayStore (fthis l))) l2 m"
  proof (cases "m \<in> arrayNodes (fthis l1)")
    case True
    with m a have "recorded (nodes (fthis l)) rt (length (arrayStore (fthis l))) l1 m"
      by (simp add: news_def)
    from recorded_mono[OF m2 this] show ?thesis by simp
  next
    case False
    with m b same have "recorded (nodes (fthis l)) rt (length (arrayStore (fthis l1))) l2 m"
      by (simp add: news_def)
    from recorded_mono[OF find_mono_refl this le] show ?thesis .
  qed
qed

lemma find_enter_news:
  assumes step: "find_enter n p l = Some (Inr l')"
    and p: "(case p of None \<Rightarrow> n = rt | Some q \<Rightarrow> n \<in> set (children_of (nodes (fthis l)) q))"
  shows "news rt l l'"
  using step
proof (cases rule: find_enter_cases)
  case scope
  then show ?thesis by (simp add: news_def find_mono_def)
next
  case found
  have rec: "recorded (nodes (fthis l)) rt (length (arrayStore (fthis l))) l' n"
    unfolding recorded_def found(4) using p
    by (auto intro!: exI[of _ "length (arrayStore (fthis l))"] exI[of _ p])
  show ?thesis
    unfolding news_def
  proof (intro conjI ballI)
    show "find_mono l l'" by (rule find_enter_mono[OF step])
    fix m assume "m \<in> arrayNodes (fthis l') - arrayNodes (fthis l)"
    with found(4) have "m = n" by auto
    with rec show "recorded (nodes (fthis l)) rt (length (arrayStore (fthis l))) l' m" by simp
  qed
next
  case skip
  then show ?thesis by (simp add: news_refl)
qed

lemma find_leave_news:
  assumes "find_leave n l = Some (Inr l')"
  shows "news rt l l'"
  using assms by (cases rule: find_leave_cases) (simp_all add: news_def find_mono_def)

lemma find_news_list:
  assumes nd: "\<And>c l l'. c \<in> set cs \<Longrightarrow>
      traverse_node f (nodes \<circ> fthis) find_visitor c (Some q) l = Some (Inr l') \<Longrightarrow>
      nodes (fthis l) = A \<Longrightarrow> news rt l l'"
  shows "traverse_list f (nodes \<circ> fthis) find_visitor cs q l = Some (Inr l') \<Longrightarrow>
      nodes (fthis l) = A \<Longrightarrow> news rt l l'"
  using nd
proof (induction cs arbitrary: l)
  case Nil
  then show ?case by (simp add: news_refl)
next
  case (Cons c cs)
  from Cons.prems(1) obtain l1 where
    l1: "traverse_node f (nodes \<circ> fthis) find_visitor c (Some q) l = Some (Inr l1)"
    and r: "traverse_list f (nodes \<circ> fthis) find_visitor cs q l1 = Some (Inr l')"
    by (rule traverse_list_ConsE)
  from Cons.prems(3)[OF _ l1 Cons.prems(2)] have n1: "news rt l l1" by simp
  then have same: "nodes (fthis l1) = A" using Cons.prems(2) by (simp add: news_def find_mono_def)
  have "news rt l1 l'"
  proof (rule Cons.IH[OF r same])
    fix c' la la' assume a: "c' \<in> set cs"
      and b: "traverse_node f (nodes \<circ> fthis) find_visitor c' (Some q) la = Some (Inr la')"
      and c: "nodes (fthis la) = A"
    from a have "c' \<in> set (c # cs)" by simp
    from Cons.prems(3)[OF this b c] show "news rt la la'" .
  qed
  from news_trans[OF n1 this] show ?case .
qed

lemma find_news_node:
  "traverse_node f (nodes \<circ> fthis) find_visitor n p l = Some (Inr l') \<Longrightarrow>
   (case p of None \<Rightarrow> n = rt | Some q \<Rightarrow> n \<in> set (children_of (nodes (fthis l)) q)) \<Longrightarrow>
   news rt l l'"
proof (induction f arbitrary: n p l l')
  case 0
  then show ?case by simp
next
  case (Suc f)
  from Suc.prems(1) obtain l1 l2 where l1: "find_enter n p l = Some (Inr l1)"
    and l2: "traverse_list f (nodes \<circ> fthis) find_visitor (children_of (nodes (fthis l1)) n) n l1 = Some (Inr l2)"
    and lv: "find_leave n l2 = Some (Inr l')"
    by (rule find_node_SucE)
  from find_enter_news[OF l1 Suc.prems(2)] have n1: "news rt l l1" .
  have n2: "news rt l1 l2"
  proof (rule find_news_list[of "children_of (nodes (fthis l1)) n" f n "nodes (fthis l1)" rt l1 l2, OF _ l2])
    fix c l l' assume c: "c \<in> set (children_of (nodes (fthis l1)) n)"
      and t: "traverse_node f (nodes \<circ> fthis) find_visitor c (Some n) l = Some (Inr l')"
      and s: "nodes (fthis l) = nodes (fthis l1)"
    from c s have "(case Some n of None \<Rightarrow> c = rt | Some q \<Rightarrow> c \<in> set (children_of (nodes (fthis l)) q))"
      by simp
    from Suc.IH[OF t this] show "news rt l l'" .
  qed simp
  from news_trans[OF news_trans[OF n1 n2] find_leave_news[OF lv]] show ?case .
qed

text \<open>
  A discovery round: every literal array declaration within reach of the root that was
  not in the seen-set is in it afterwards, with its descriptor, and the round reports
  a new array.
\<close>

lemma findArrays_records:
  assumes fa: "findArrays f self = Some (Inr (found, s1))"
    and r: "(ast self, n) \<in> (child_rel (nodes self))\<^sup>*"
    and lit: "isLiteralArrayDeclaration (nodes self) n"
    and u: "n \<notin> arrayNodes self"
  shows "found \<and> n \<in> arrayNodes s1 \<and>
         (\<exists>a q. length (arrayStore self) \<le> a \<and> a < length (arrayStore s1) \<and>
            arrayStore s1 ! a =
              new_Array n q (child_name (nodes self) n ''binding'') (init_elements (nodes self) n) \<and>
            (case q of None \<Rightarrow> n = ast self | Some p \<Rightarrow> n \<in> set (children_of (nodes self) p)))"
proof -
  let ?l0 = "\<lparr>fthis = self, fscope = globalScope self, foundArrays = False\<rparr>"
  from fa obtain l where
    t: "traverse f (nodes \<circ> fthis) (ast self) find_visitor ?l0 = Some (Inr l)"
    and l: "found = foundArrays l" "s1 = fthis l" by (rule findArrays_Inr)
  from t have t': "traverse_node f (nodes \<circ> fthis) find_visitor (ast self) None ?l0 = Some (Inr l)"
    by (simp add: traverse_def)
  from find_visits_node[OF t', of n] r lit have seen: "n \<in> arrayNodes (fthis l)" by simp
  from find_news_node[OF t', of "ast self"] have "news (ast self) ?l0 l" by simp
  with seen u have "recorded (nodes self) (ast self) (length (arrayStore self)) l n"
    by (simp add: news_def)
  with seen l show ?thesis by (simp add: recorded_def)
qed

lemma findArrays_Inr_returns:
  assumes pi: "pass_inv L Lv self" and f: "L < f"
  shows "\<exists>found s1. findArrays f self = Some (Inr (found, s1))"
proof -
  from findArrays_returns[OF pi f] obtain res where res: "findArrays f self = Some res" by blast
  with findArrays_no_error[of f self] show ?thesis by (cases res) auto
qed


subsection \<open>The bindings\<close>

text \<open>
  The Scopes keep what a discovery round binds: the name of every descriptor appended
  since the store had length \<open>k\<close> is bound in a Scope, to that descriptor or to one
  appended after it under the same name.
\<close>

definition bound :: "nat \<Rightarrow> ArrayUnpacker \<Rightarrow> bool" where
  "bound k s =
     (\<forall>a. k \<le> a \<and> a < length (arrayStore s) \<longrightarrow>
        (\<exists>sc a'. a \<le> a' \<and> a' < length (arrayStore s) \<and>
           map_of (elements (scope_at (scopeStore s) sc)) (array_name (arrayStore s ! a)) = Some a' \<and>
           array_name (arrayStore s ! a') = array_name (arrayStore s ! a)))"

lemma bound_start: "bound (length (arrayStore s)) s"
  unfolding bound_def by auto

lemma elements_new_Scope:
  "p < length H \<Longrightarrow>
   elements (scope_at (fst (new_Scope H n t (Some p))) sc) = elements (scope_at H sc)"
  by (auto simp: scope_at_new_Scope) (simp add: scope_at_def no_scope_def)

lemma bound_new_Scope:
  assumes "bound k s" "p < length (scopeStore s)"
  shows "bound k (s\<lparr>scopeStore := fst (new_Scope (scopeStore s) n t (Some p))\<rparr>)"
  using assms by (simp add: bound_def elements_new_Scope)

lemma bound_found:
  assumes b: "bound k s" and p: "j < length (scopeStore s)"
  shows "bound k (s\<lparr>scopeStore := elements_set (scopeStore s) j x (length (arrayStore s)),
                    arrayStore := arrayStore s @ [new_Array n q x es],
                    arrayNodes := N\<rparr>)"
  unfolding bound_def
proof (intro allI impI)
  let ?D = "arrayStore s"
  let ?H = "scopeStore s"
  let ?s' = "s\<lparr>scopeStore := elements_set ?H j x (length ?D),
               arrayStore := ?D @ [new_Array n q x es], arrayNodes := N\<rparr>"
  fix a assume a: "k \<le> a \<and> a < length (arrayStore ?s')"
  have here: "map_of (elements (scope_at (scopeStore ?s') j)) x = Some (length ?D)"
    using elements_set_placed(1)[OF p] by simp
  have last: "array_name (arrayStore ?s' ! length ?D) = x" by (simp add: new_Array_def)
  show "\<exists>sc a'. a \<le> a' \<and> a' < length (arrayStore ?s') \<and>
           map_of (elements (scope_at (scopeStore ?s') sc)) (array_name (arrayStore ?s' ! a)) = Some a' \<and>
           array_name (arrayStore ?s' ! a') = array_name (arrayStore ?s' ! a)"
  proof (cases "a < length ?D")
    case False
    with a have e: "a = length ?D" by simp
    show ?thesis
      using here last unfolding e by (intro exI[of _ j] exI[of _ "length ?D"]) simp
  next
    case True
    then have na: "arrayStore ?s' ! a = ?D ! a" by (simp add: nth_append)
    from b a True obtain sc a' where w: "a \<le> a'" "a' < length ?D"
      "map_of (elements (scope_at ?H sc)) (array_name (?D ! a)) = Some a'"
      "array_name (?D ! a') = array_name (?D ! a)" unfolding bound_def by blast
    from w(2) have na': "arrayStore ?s' ! a' = ?D ! a'" by (simp add: nth_append)
    show ?thesis
    proof (cases "sc = j \<and> array_name (?D ! a) = x")
      case same: True
      from True have "a \<le> length ?D" by simp
      with here last same na show ?thesis
        by (intro exI[of _ j] exI[of _ "length ?D"]) simp
    next
      case other: False
      have "map_of (elements (scope_at (scopeStore ?s') sc)) (array_name (?D ! a)) = Some a'"
        using w(3) other by (auto simp: scope_at_elements_set update_conv')
      with w na na' show ?thesis
        by (intro exI[of _ sc] exI[of _ a']) simp
    qed
  qed
qed

definition find_bound :: "nat \<Rightarrow> nat set \<Rightarrow> nat \<Rightarrow> find_locals \<Rightarrow> bool" where
  "find_bound L Lv k l = (find_inv L Lv l \<and> bound k (fthis l))"

lemma find_enter_bound:
  assumes inv: "find_bound L Lv k l" and step: "find_enter n p l = Some (Inr l')"
  shows "find_bound L Lv k l'"
proof -
  from inv have fi: "find_inv L Lv l" and b: "bound k (fthis l)" by (simp_all add: find_bound_def)
  from fi have r: "fscope l < length (scopeStore (fthis l))" by (simp add: find_inv_def)
  note fi' = find_enter_inv[OF fi step]
  from step show ?thesis
  proof (cases rule: find_enter_cases)
    case scope
    from bound_new_Scope[OF b r] fi' scope(2) show ?thesis by (simp add: find_bound_def)
  next
    case found
    from bound_found[OF b r] fi' found(4) show ?thesis by (simp add: find_bound_def)
  next
    case skip
    with inv show ?thesis by simp
  qed
qed

lemma find_leave_bound:
  assumes inv: "find_bound L Lv k l" and step: "find_leave n l = Some (Inr l')"
  shows "find_bound L Lv k l'"
proof -
  from inv have fi: "find_inv L Lv l" and b: "bound k (fthis l)" by (simp_all add: find_bound_def)
  note fi' = find_leave_inv[OF fi step]
  from step show ?thesis
  proof (cases rule: find_leave_cases)
    case (up q)
    with b fi' show ?thesis by (simp add: find_bound_def)
  next
    case stay
    with inv show ?thesis by simp
  qed
qed

lemma findArrays_bound:
  assumes fa: "findArrays f self = Some (Inr (found, s1))" and pi: "pass_inv L Lv self"
  shows "bound (length (arrayStore self)) s1"
proof -
  let ?k = "length (arrayStore self)"
  from fa obtain l where
    tr: "traverse f (nodes \<circ> fthis) (ast self) find_visitor
       \<lparr>fthis = self, fscope = globalScope self, foundArrays = False\<rparr> = Some (Inr l)"
    and l: "found = foundArrays l" "s1 = fthis l" by (rule findArrays_Inr)
  have "find_bound L Lv ?k l"
  proof (rule traverse_invariant[of "find_bound L Lv ?k" find_visitor _ f "nodes \<circ> fthis" "ast self" l])
    show "\<And>n p s s'. find_bound L Lv ?k s \<Longrightarrow> enter find_visitor n p s = Some (Inr s') \<Longrightarrow>
            find_bound L Lv ?k s'"
      using find_enter_bound by simp
    show "\<And>n s s'. find_bound L Lv ?k s \<Longrightarrow> leave find_visitor n s = Some (Inr s') \<Longrightarrow>
            find_bound L Lv ?k s'"
      using find_leave_bound by simp
    show "find_bound L Lv ?k \<lparr>fthis = self, fscope = globalScope self, foundArrays = False\<rparr>"
      using pi pass_inv_global[OF pi] by (simp add: find_bound_def find_inv_def bound_start)
    show "traverse f (nodes \<circ> fthis) (ast self) find_visitor
       \<lparr>fthis = self, fscope = globalScope self, foundArrays = False\<rparr> = Some (Inr l)" by (rule tr)
  qed
  with l show ?thesis by (simp add: find_bound_def)
qed


subsection \<open>Arrays with holes\<close>

lemma wf_ast_tree_hole: "wf_ast tree_hole"
  by code_simp


text \<open>
  Claim C10: a variable declarator with a simple binding whose initializer is an array
  expression with holes, every other element being a literal, passes the test of the
  discovery traversal, and a discovery round records it. When the declarator is within
  reach of the root and not yet in the seen-set, \<open>findArrays\<close> (on a well-formed pass
  object, with more fuel than the tree has nodes) returns, reports a new array, and
  leaves the declarator in the seen-set with its descriptor among those the round
  appended: the node, the parent the walk came from, the name of the binding, all the
  elements, holes included, and the counter at zero; and the name is bound in a Scope of
  the store, to that descriptor or to one the round appended after it under the same
  name. The callback \<open>enter\<close> of the round, called at such a declarator, appends the
  descriptor and binds the name to it in the active Scope. And the \<open>enter\<close> of the
  rewrite traversal, at an access that resolves to a descriptor and whose index is
  within the element count but at a hole, returns the state it was given: no rewrite,
  no change of the usage counter.
\<close>

theorem holes_discovered_not_inlined:
  "(pass_inv (length (nodes self)) {i. children_of (nodes self) i = []} self \<and>
    length (nodes self) < f \<and>
    (ast self, n) \<in> (child_rel (nodes self))\<^sup>* \<and>
    ntype (node_at (nodes self) n) = ''VariableDeclarator'' \<and>
    type_of (nodes self) (field (node_at (nodes self) n) ''binding'') = ''BindingIdentifier'' \<and>
    type_of (nodes self) (field (node_at (nodes self) n) ''init'') = ''ArrayExpression'' \<and>
    None \<in> set (init_elements (nodes self) n) \<and>
    (\<forall>e\<in>set (init_elements (nodes self) n). literal_or_hole (nodes self) e) \<and>
    n \<notin> arrayNodes self
    \<longrightarrow> isLiteralArrayDeclaration (nodes self) n \<and>
        (\<exists>s1. findArrays f self = Some (Inr (True, s1)) \<and> n \<in> arrayNodes s1 \<and>
           (\<exists>a q. length (arrayStore self) \<le> a \<and> a < length (arrayStore s1) \<and>
              arrayStore s1 ! a =
                new_Array n q (child_name (nodes self) n ''binding'') (init_elements (nodes self) n) \<and>
              None \<in> set (array_elements (arrayStore s1 ! a)) \<and>
              (case q of None \<Rightarrow> n = ast self | Some p \<Rightarrow> n \<in> set (children_of (nodes self) p)) \<and>
              (\<exists>sc a'. a \<le> a' \<and> a' < length (arrayStore s1) \<and>
                 map_of (elements (scope_at (scopeStore s1) sc))
                   (child_name (nodes self) n ''binding'') = Some a' \<and>
                 array_name (arrayStore s1 ! a') = child_name (nodes self) n ''binding''))))
   \<and>
   (ntype (node_at (nodes (fthis l)) n) = ''VariableDeclarator'' \<and>
    type_of (nodes (fthis l)) (field (node_at (nodes (fthis l)) n) ''binding'') = ''BindingIdentifier'' \<and>
    type_of (nodes (fthis l)) (field (node_at (nodes (fthis l)) n) ''init'') = ''ArrayExpression'' \<and>
    None \<in> set (init_elements (nodes (fthis l)) n) \<and>
    (\<forall>e\<in>set (init_elements (nodes (fthis l)) n). literal_or_hole (nodes (fthis l)) e) \<and>
    n \<notin> arrayNodes (fthis l) \<and> fscope l < length (scopeStore (fthis l))
    \<longrightarrow> isLiteralArrayDeclaration (nodes (fthis l)) n \<and>
        (\<exists>l'. find_enter n p l = Some (Inr l') \<and> foundArrays l' \<and>
              n \<in> arrayNodes (fthis l') \<and>
              arrayStore (fthis l') = arrayStore (fthis l) @
                 [new_Array n p (child_name (nodes (fthis l)) n ''binding'') (init_elements (nodes (fthis l)) n)] \<and>
              map_of (elements (scope_at (scopeStore (fthis l')) (fscope l)))
                 (child_name (nodes (fthis l)) n ''binding'') = Some (length (arrayStore (fthis l)))))
   \<and>
   (uscope u = Some sc \<and> isSimpleArrayAccess (nodes (uthis u)) m \<and>
    get (scopeStore (uthis u)) sc (child_name (nodes (uthis u)) m ''object'') = Some (Some a) \<and>
    expression_value (nodes (uthis u)) m = of_nat k \<and>
    k < length (array_elements (array_at (arrayStore (uthis u)) a)) \<and>
    array_elements (array_at (arrayStore (uthis u)) a) ! k = None
    \<longrightarrow> unpack_enter m q u = Some (Inr u))"
proof (intro conjI impI)
  assume h: "pass_inv (length (nodes self)) {i. children_of (nodes self) i = []} self \<and>
    length (nodes self) < f \<and>
    (ast self, n) \<in> (child_rel (nodes self))\<^sup>* \<and>
    ntype (node_at (nodes self) n) = ''VariableDeclarator'' \<and>
    type_of (nodes self) (field (node_at (nodes self) n) ''binding'') = ''BindingIdentifier'' \<and>
    type_of (nodes self) (field (node_at (nodes self) n) ''init'') = ''ArrayExpression'' \<and>
    None \<in> set (init_elements (nodes self) n) \<and>
    (\<forall>e\<in>set (init_elements (nodes self) n). literal_or_hole (nodes self) e) \<and>
    n \<notin> arrayNodes self"
  then show lit: "isLiteralArrayDeclaration (nodes self) n"
    by (simp add: isLiteralArrayDeclaration_iff)
  from h have pi: "pass_inv (length (nodes self)) {i. children_of (nodes self) i = []} self"
    and f: "length (nodes self) < f"
    and r: "(ast self, n) \<in> (child_rel (nodes self))\<^sup>*"
    and hole: "None \<in> set (init_elements (nodes self) n)"
    and u: "n \<notin> arrayNodes self" by simp_all
  from findArrays_Inr_returns[OF pi f] obtain found s1 where
    fa: "findArrays f self = Some (Inr (found, s1))" by blast
  from findArrays_records[OF fa r lit u] obtain a q where found: found and seen: "n \<in> arrayNodes s1"
    and a: "length (arrayStore self) \<le> a" "a < length (arrayStore s1)"
      "arrayStore s1 ! a =
         new_Array n q (child_name (nodes self) n ''binding'') (init_elements (nodes self) n)"
      "(case q of None \<Rightarrow> n = ast self | Some p \<Rightarrow> n \<in> set (children_of (nodes self) p))"
    by blast
  from a(3) have nm: "array_name (arrayStore s1 ! a) = child_name (nodes self) n ''binding''"
    and el: "array_elements (arrayStore s1 ! a) = init_elements (nodes self) n"
    by (simp_all add: new_Array_def)
  from findArrays_bound[OF fa pi] a(1,2) nm obtain sc a' where b: "a \<le> a'" "a' < length (arrayStore s1)"
    "map_of (elements (scope_at (scopeStore s1) sc)) (child_name (nodes self) n ''binding'') = Some a'"
    "array_name (arrayStore s1 ! a') = child_name (nodes self) n ''binding''"
    unfolding bound_def by metis
  from fa found have fa': "findArrays f self = Some (Inr (True, s1))" by simp
  from hole el have hole': "None \<in> set (array_elements (arrayStore s1 ! a))" by simp
  from b have "\<exists>sc a'. a \<le> a' \<and> a' < length (arrayStore s1) \<and>
                 map_of (elements (scope_at (scopeStore s1) sc))
                   (child_name (nodes self) n ''binding'') = Some a' \<and>
                 array_name (arrayStore s1 ! a') = child_name (nodes self) n ''binding''" by blast
  with a hole' have "\<exists>a q. length (arrayStore self) \<le> a \<and> a < length (arrayStore s1) \<and>
              arrayStore s1 ! a =
                new_Array n q (child_name (nodes self) n ''binding'') (init_elements (nodes self) n) \<and>
              None \<in> set (array_elements (arrayStore s1 ! a)) \<and>
              (case q of None \<Rightarrow> n = ast self | Some p \<Rightarrow> n \<in> set (children_of (nodes self) p)) \<and>
              (\<exists>sc a'. a \<le> a' \<and> a' < length (arrayStore s1) \<and>
                 map_of (elements (scope_at (scopeStore s1) sc))
                   (child_name (nodes self) n ''binding'') = Some a' \<and>
                 array_name (arrayStore s1 ! a') = child_name (nodes self) n ''binding'')" by blast
  with fa' seen
  show "\<exists>s1. findArrays f self = Some (Inr (True, s1)) \<and> n \<in> arrayNodes s1 \<and>
           (\<exists>a q. length (arrayStore self) \<le> a \<and> a < length (arrayStore s1) \<and>
              arrayStore s1 ! a =
                new_Array n q (child_name (nodes self) n ''binding'') (init_elements (nodes self) n) \<and>
              None \<in> set (array_elements (arrayStore s1 ! a)) \<and>
              (case q of None \<Rightarrow> n = ast self | Some p \<Rightarrow> n \<in> set (children_of (nodes self) p)) \<and>
              (\<exists>sc a'. a \<le> a' \<and> a' < length (arrayStore s1) \<and>
                 map_of (elements (scope_at (scopeStore s1) sc))
                   (child_name (nodes self) n ''binding'') = Some a' \<and>
                 array_name (arrayStore s1 ! a') = child_name (nodes self) n ''binding''))" by blast
next
  assume h: "ntype (node_at (nodes (fthis l)) n) = ''VariableDeclarator'' \<and>
    type_of (nodes (fthis l)) (field (node_at (nodes (fthis l)) n) ''binding'') = ''BindingIdentifier'' \<and>
    type_of (nodes (fthis l)) (field (node_at (nodes (fthis l)) n) ''init'') = ''ArrayExpression'' \<and>
    None \<in> set (init_elements (nodes (fthis l)) n) \<and>
    (\<forall>e\<in>set (init_elements (nodes (fthis l)) n). literal_or_hole (nodes (fthis l)) e) \<and>
    n \<notin> arrayNodes (fthis l) \<and> fscope l < length (scopeStore (fthis l))"
  then show lit: "isLiteralArrayDeclaration (nodes (fthis l)) n"
    by (simp add: isLiteralArrayDeclaration_iff)
  from h have nst: "ntype (node_at (nodes (fthis l)) n) \<notin> scopeTypes"
    by (simp add: scopeTypes_def)
  show "\<exists>l'. find_enter n p l = Some (Inr l') \<and> foundArrays l' \<and>
              n \<in> arrayNodes (fthis l') \<and>
              arrayStore (fthis l') = arrayStore (fthis l) @
                 [new_Array n p (child_name (nodes (fthis l)) n ''binding'') (init_elements (nodes (fthis l)) n)] \<and>
              map_of (elements (scope_at (scopeStore (fthis l')) (fscope l)))
                 (child_name (nodes (fthis l)) n ''binding'') = Some (length (arrayStore (fthis l)))"
    using lit nst h by (simp add: find_enter_def add_def Let_def elements_set_placed)
next
  assume h: "uscope u = Some sc \<and> isSimpleArrayAccess (nodes (uthis u)) m \<and>
    get (scopeStore (uthis u)) sc (child_name (nodes (uthis u)) m ''object'') = Some (Some a) \<and>
    expression_value (nodes (uthis u)) m = of_nat k \<and>
    k < length (array_elements (array_at (arrayStore (uthis u)) a)) \<and>
    array_elements (array_at (arrayStore (uthis u)) a) ! k = None"
  then have "ntype (node_at (nodes (uthis u)) m) \<notin> scopeTypes"
    by (simp add: isSimpleArrayAccess_def scopeTypes_def)
  with h show "unpack_enter m q u = Some (Inr u)"
    by (simp add: unpack_enter_def js_index_nat)
qed

theorem holes_discovered_not_inlined_witness:
  "wf_ast tree_hole \<and>
   (0, 3) \<in> (child_rel tree_hole)\<^sup>* \<and>
   isLiteralArrayDeclaration tree_hole 3 \<and>
   None \<in> set (init_elements tree_hole 3) \<and>
   findArrays 13 (new_ArrayUnpacker tree_hole 0 True) = Some (Inr (True, found_hole)) \<and>
   (\<exists>s1. findArrays 13 (new_ArrayUnpacker tree_hole 0 True) = Some (Inr (True, s1)) \<and>
         3 \<in> arrayNodes s1 \<and>
         (\<exists>a q. a < length (arrayStore s1) \<and>
            arrayStore s1 ! a = new_Array 3 q ''a'' [Some 6, None, Some 7] \<and>
            None \<in> set (array_elements (arrayStore s1 ! a)) \<and>
            (\<exists>sc a'. a \<le> a' \<and> a' < length (arrayStore s1) \<and>
               map_of (elements (scope_at (scopeStore s1) sc)) ''a'' = Some a'))) \<and>
   (\<exists>l'. find_enter 3 (Some 2)
            \<lparr>fthis = new_ArrayUnpacker tree_hole 0 True, fscope = 0, foundArrays = False\<rparr> = Some (Inr l') \<and>
         foundArrays l' \<and> 3 \<in> arrayNodes (fthis l') \<and>
         arrayStore (fthis l') = [new_Array 3 (Some 2) ''a'' [Some 6, None, Some 7]]) \<and>
   isSimpleArrayAccess (nodes found_hole) 9 \<and>
   expression_value (nodes found_hole) 9 = 1 \<and>
   array_elements (array_at (arrayStore found_hole) 0) ! 1 = None \<and>
   unpack_enter 9 (Some 8) \<lparr>uthis = found_hole, uscope = Some 0\<rparr>
     = Some (Inr \<lparr>uthis = found_hole, uscope = Some 0\<rparr>)"
proof -
  let ?s = "new_ArrayUnpacker tree_hole 0 True"
  let ?l = "\<lparr>fthis = ?s, fscope = 0, foundArrays = False\<rparr>"
  let ?u = "\<lparr>uthis = found_hole, uscope = Some 0\<rparr>"
  have s: "nodes ?s = tree_hole" "arrayStore ?s = []" "arrayNodes ?s = {}" "ast ?s = 0"
    by (simp_all add: new_ArrayUnpacker_def new_Scope_def)
  have nodes_l: "nodes (fthis ?l) = tree_hole" "arrayStore (fthis ?l) = []"
    "arrayNodes (fthis ?l) = {}" "fscope ?l < length (scopeStore (fthis ?l))"
    by (simp_all add: new_ArrayUnpacker_def new_Scope_def)
  have wf: "wf_ast tree_hole" by (rule wf_ast_tree_hole)
  from pass_inv_new[OF wf, of 0 True]
  have pi: "pass_inv (length (nodes ?s)) {i. children_of (nodes ?s) i = []} ?s" by (simp add: s)
  have len: "length (nodes ?s) < 13" unfolding s(1) by (simp add: tree_hole_def)
  have e1: "(0, 1) \<in> child_rel tree_hole" and e2: "(1, 2) \<in> child_rel tree_hole"
    and e3: "(2, 3) \<in> child_rel tree_hole"
    by (simp_all add: child_rel_def children_of_def tree_hole_def tree_defs List.map_filter_simps)
  from e1 e2 e3 have reach: "(0, 3) \<in> (child_rel tree_hole)\<^sup>*" by (meson rtrancl.simps)
  have d1: "ntype (node_at tree_hole 3) = ''VariableDeclarator''"
    and d2: "type_of tree_hole (field (node_at tree_hole 3) ''binding'') = ''BindingIdentifier''"
    and d3: "type_of tree_hole (field (node_at tree_hole 3) ''init'') = ''ArrayExpression''"
    and d4: "init_elements tree_hole 3 = [Some 6, None, Some 7]"
    and d5: "child_name tree_hole 3 ''binding'' = ''a''"
    by (simp_all add: tree_hole_def tree_defs init_elements_def)
  have d6: "\<forall>e\<in>set (init_elements tree_hole 3). literal_or_hole tree_hole e"
    by (simp add: d4 literal_or_hole_def) (simp add: tree_hole_def tree_defs)
  have u1: "isSimpleArrayAccess (nodes found_hole) 9"
    and u2: "get (scopeStore found_hole) 0 (child_name (nodes found_hole) 9 ''object'') = Some (Some 0)"
    and u3: "expression_value (nodes found_hole) 9 = of_nat 1"
    and u4: "array_elements (array_at (arrayStore found_hole) 0) ! 1 = None"
    and u5: "1 < length (array_elements (array_at (arrayStore found_hole) 0))"
    by (simp_all add: found_hole_def tree_hole_def tree_defs get.simps)
  have run: "findArrays 13 ?s = Some (Inr (True, found_hole))"
    by (rule findArrays_mono[OF findArrays_hole]) simp
  have hole: "None \<in> set (init_elements tree_hole 3)" by (simp add: d4)
  note inst = holes_discovered_not_inlined[of ?s 13 3 ?l "Some 2" ?u 0 9 0 1 "Some 8"]
  have H1: "pass_inv (length (nodes ?s)) {i. children_of (nodes ?s) i = []} ?s \<and>
    length (nodes ?s) < 13 \<and>
    (ast ?s, 3) \<in> (child_rel (nodes ?s))\<^sup>* \<and>
    ntype (node_at (nodes ?s) 3) = ''VariableDeclarator'' \<and>
    type_of (nodes ?s) (field (node_at (nodes ?s) 3) ''binding'') = ''BindingIdentifier'' \<and>
    type_of (nodes ?s) (field (node_at (nodes ?s) 3) ''init'') = ''ArrayExpression'' \<and>
    None \<in> set (init_elements (nodes ?s) 3) \<and>
    (\<forall>e\<in>set (init_elements (nodes ?s) 3). literal_or_hole (nodes ?s) e) \<and>
    3 \<notin> arrayNodes ?s"
    unfolding s using pi[unfolded s] len[unfolded s] reach d1 d2 d3 hole d6 by blast
  from inst[THEN conjunct1, THEN mp, OF H1]
  have lit: "isLiteralArrayDeclaration tree_hole 3"
    and A: "\<exists>s1. findArrays 13 ?s = Some (Inr (True, s1)) \<and> 3 \<in> arrayNodes s1 \<and>
         (\<exists>a q. length (arrayStore ?s) \<le> a \<and> a < length (arrayStore s1) \<and>
            arrayStore s1 ! a = new_Array 3 q ''a'' [Some 6, None, Some 7] \<and>
            None \<in> set (array_elements (arrayStore s1 ! a)) \<and>
            (case q of None \<Rightarrow> 3 = ast ?s | Some p \<Rightarrow> 3 \<in> set (children_of tree_hole p)) \<and>
            (\<exists>sc a'. a \<le> a' \<and> a' < length (arrayStore s1) \<and>
               map_of (elements (scope_at (scopeStore s1) sc)) ''a'' = Some a' \<and>
               array_name (arrayStore s1 ! a') = ''a''))"
    unfolding s(1) d4 d5 by blast+
  from A have A': "\<exists>s1. findArrays 13 ?s = Some (Inr (True, s1)) \<and> 3 \<in> arrayNodes s1 \<and>
         (\<exists>a q. a < length (arrayStore s1) \<and>
            arrayStore s1 ! a = new_Array 3 q ''a'' [Some 6, None, Some 7] \<and>
            None \<in> set (array_elements (arrayStore s1 ! a)) \<and>
            (\<exists>sc a'. a \<le> a' \<and> a' < length (arrayStore s1) \<and>
               map_of (elements (scope_at (scopeStore s1) sc)) ''a'' = Some a'))"
    by blast
  have H2: "ntype (node_at (nodes (fthis ?l)) 3) = ''VariableDeclarator'' \<and>
    type_of (nodes (fthis ?l)) (field (node_at (nodes (fthis ?l)) 3) ''binding'') = ''BindingIdentifier'' \<and>
    type_of (nodes (fthis ?l)) (field (node_at (nodes (fthis ?l)) 3) ''init'') = ''ArrayExpression'' \<and>
    None \<in> set (init_elements (nodes (fthis ?l)) 3) \<and>
    (\<forall>e\<in>set (init_elements (nodes (fthis ?l)) 3). literal_or_hole (nodes (fthis ?l)) e) \<and>
    3 \<notin> arrayNodes (fthis ?l) \<and> fscope ?l < length (scopeStore (fthis ?l))"
    unfolding nodes_l(1,3) using d1 d2 d3 hole d6 nodes_l(4) by blast
  from inst[THEN conjunct2, THEN conjunct1, THEN mp, OF H2]
  have "\<exists>l'. find_enter 3 (Some 2) ?l = Some (Inr l') \<and> foundArrays l' \<and> 3 \<in> arrayNodes (fthis l') \<and>
         arrayStore (fthis l') = arrayStore (fthis ?l) @
            [new_Array 3 (Some 2) (child_name (nodes (fthis ?l)) 3 ''binding'')
               (init_elements (nodes (fthis ?l)) 3)]"
    by blast
  then have B: "\<exists>l'. find_enter 3 (Some 2) ?l = Some (Inr l') \<and> foundArrays l' \<and> 3 \<in> arrayNodes (fthis l') \<and>
         arrayStore (fthis l') = [new_Array 3 (Some 2) ''a'' [Some 6, None, Some 7]]"
    unfolding nodes_l(1,2) d4 d5 by simp
  have H3: "uscope ?u = Some 0 \<and> isSimpleArrayAccess (nodes (uthis ?u)) 9 \<and>
    get (scopeStore (uthis ?u)) 0 (child_name (nodes (uthis ?u)) 9 ''object'') = Some (Some 0) \<and>
    expression_value (nodes (uthis ?u)) 9 = of_nat 1 \<and>
    1 < length (array_elements (array_at (arrayStore (uthis ?u)) 0)) \<and>
    array_elements (array_at (arrayStore (uthis ?u)) 0) ! 1 = None"
    using u1 u2 u3 u4 u5 by simp
  from inst[THEN conjunct2, THEN conjunct2, THEN mp, OF H3]
  have C: "unpack_enter 9 (Some 8) ?u = Some (Inr ?u)" .
  from u3 have u3': "expression_value (nodes found_hole) 9 = 1" by simp
  from wf reach lit hole run A' B u1 u3' u4 C show ?thesis by blast
qed


end
